(* ===== verification/Prelude.thy ===== *)
theory Prelude
  imports Main "HOL-Library.Word"
begin

text \<open>
  Shared vocabulary of the development: the machine integer types of
  \<^verbatim>\<open>kernel/include/types.h\<close>, the result type of code that may \<^verbatim>\<open>panic\<close>, byte
  addressed memory with little-endian 64-bit loads and stores, page arithmetic, and the
  generic lemmas the component theories share. The collections \<open>page_simps\<close> and
  \<open>mem_simps\<close> gather the rewrite rules for page arithmetic and for memory accesses.
\<close>

unbundle bit_operations_syntax

named_theorems page_simps
named_theorems mem_simps
named_theorems res_simps

section \<open>Machine integers, memory and results\<close>

type_synonym u8 = "8 word"
type_synonym u16 = "16 word"
type_synonym u32 = "32 word"
type_synonym u64 = "64 word"

type_synonym memory = "u64 \<Rightarrow> u8"

text \<open>\<open>Stuck\<close> is the result of a call that does not return: a loop that does not end, or a sleep that
  only another process could end when the code is run for one process alone.\<close>

datatype 'a res = Ret 'a | Panic string | Stuck

primrec bind_res :: "'a res \<Rightarrow> ('a \<Rightarrow> 'b res) \<Rightarrow> 'b res" where
  "bind_res (Ret x) f = f x"
| "bind_res (Panic msg) f = Panic msg"
| "bind_res Stuck f = Stuck"

primrec is_Ret :: "'a res \<Rightarrow> bool" where
  "is_Ret (Ret x) \<longleftrightarrow> True"
| "is_Ret (Panic msg) \<longleftrightarrow> False"
| "is_Ret Stuck \<longleftrightarrow> False"

primrec le_word :: "u8 list \<Rightarrow> 'a::len word" where
  "le_word [] = 0"
| "le_word (b # bs) = ucast b OR push_bit 8 (le_word bs)"

primrec le_bytes :: "nat \<Rightarrow> 'a::len word \<Rightarrow> u8 list" where
  "le_bytes 0 w = []"
| "le_bytes (Suc n) w = ucast w # le_bytes n (drop_bit 8 w)"

definition read_bytes :: "memory \<Rightarrow> u64 \<Rightarrow> nat \<Rightarrow> u8 list" where
  "read_bytes m a n = map (\<lambda>i. m (a + of_nat i)) [0..<n]"

definition write_bytes :: "memory \<Rightarrow> u64 \<Rightarrow> u8 list \<Rightarrow> memory" where
  "write_bytes m a bs =
     (\<lambda>x. if unat (x - a) < length bs then bs ! unat (x - a) else m x)"

definition load64 :: "memory \<Rightarrow> u64 \<Rightarrow> u64" where
  "load64 m a = le_word (read_bytes m a 8)"

definition store64 :: "memory \<Rightarrow> u64 \<Rightarrow> u64 \<Rightarrow> memory" where
  "store64 m a v = write_bytes m a (le_bytes 8 v)"

section \<open>Results\<close>

lemma bind_res_Ret_iff [res_simps]:
  "bind_res r f = Ret y \<longleftrightarrow> (\<exists>x. r = Ret x \<and> f x = Ret y)"
  by (cases r) auto

lemma bind_res_Panic_iff [res_simps]:
  "bind_res r f = Panic msg \<longleftrightarrow> r = Panic msg \<or> (\<exists>x. r = Ret x \<and> f x = Panic msg)"
  by (cases r) auto

lemma is_Ret_iff [res_simps]: "is_Ret r \<longleftrightarrow> (\<exists>x. r = Ret x)"
  by (cases r) auto

lemma bind_res_assoc: "bind_res (bind_res r f) g = bind_res r (\<lambda>x. bind_res (f x) g)"
  by (cases r) auto

lemma bind_res_cong [fundef_cong]:
  "r = r' \<Longrightarrow> (\<And>x. r' = Ret x \<Longrightarrow> f x = g x) \<Longrightarrow> bind_res r f = bind_res r' g"
  by (cases r') auto

section \<open>Word bounds\<close>

lemma unat_u64_less: "unat (a :: u64) < 2 ^ 64"
  using unsigned_less [where 'a = nat and w = a] by simp

lemma unat_u32_less: "unat (a :: u32) < 2 ^ 32"
  using unsigned_less [where 'a = nat and w = a] by simp

lemma unat_of_nat_u64: "n < 2 ^ 64 \<Longrightarrow> unat (of_nat n :: u64) = n"
  by (simp add: unat_of_nat)

lemma unat_of_nat_u32: "n < 2 ^ 32 \<Longrightarrow> unat (of_nat n :: u32) = n"
  by (simp add: unat_of_nat)

lemma unat_ucast_u32 [simp]: "unat (ucast (a :: u32) :: u64) = unat a"
  using unat_u32_less [of a] by (simp add: unsigned_ucast_eq take_bit_nat_eq_self)

lemma word_diff_less_u64: fixes n len :: u64 assumes "0 < n" "n \<le> len" shows "len - n < len"
  using assms by uint_arith

lemma word_bits_eq_iff: "(a :: 'a::len word) = b \<longleftrightarrow> (\<forall>n. bit a n = bit b n)"
  by (metis bit_eqI)

lemma sint_u32:
  assumes "unat (n :: u32) < 2 ^ 31" shows "sint n = int (unat n)"
proof -
  have "int (unat n) < 2 ^ 31" using assms by (metis of_nat_less_iff of_nat_numeral of_nat_power)
  moreover have "- (2 ^ 31) \<le> int (unat n)" by (rule order_trans [of _ 0]) simp_all
  ultimately have "signed_take_bit 31 (int (unat n)) = int (unat n)" by (intro signed_take_bit_int_eq_self)
  then show ?thesis unfolding sint_uint uint_nat by simp
qed

section \<open>Little-endian accesses\<close>

lemma length_le_bytes [simp]: "length (le_bytes n w) = n"
  by (induction n arbitrary: w) auto

lemma le_word_le_bytes:
  fixes w :: "'a::len word"
  shows "le_word (le_bytes n w) = take_bit (8 * n) w"
proof (induction n arbitrary: w)
  case (Suc n)
  have "ucast (ucast w :: u8) OR push_bit 8 (take_bit (8 * n) (drop_bit 8 w)) = take_bit (8 + 8 * n) w"
    by (rule bit_word_eqI) (auto simp: bit_simps)
  then show ?case by (simp add: Suc)
qed simp

lemma le_word_le_bytes_full [simp]:
  fixes w :: "'a::len word"
  shows "LENGTH('a) \<le> 8 * n \<Longrightarrow> le_word (le_bytes n w) = w"
  by (simp add: le_word_le_bytes take_bit_word_eq_self)

lemma length_read_bytes [simp]: "length (read_bytes m a n) = n"
  by (simp add: read_bytes_def)

lemma nth_read_bytes [simp]: "i < n \<Longrightarrow> read_bytes m a n ! i = m (a + of_nat i)"
  by (simp add: read_bytes_def)

lemma read_bytes_cong:
  "(\<And>i. i < n \<Longrightarrow> m (a + of_nat i) = m' (a + of_nat i)) \<Longrightarrow> read_bytes m a n = read_bytes m' a n"
  by (simp add: read_bytes_def)

lemma read_write_bytes_same [mem_simps]:
  assumes "length bs \<le> 2 ^ 64"
  shows "read_bytes (write_bytes m a bs) a (length bs) = bs"
proof (rule nth_equalityI)
  fix i assume "i < length (read_bytes (write_bytes m a bs) a (length bs))"
  then have i: "i < length bs" by simp
  with assms have "unat (of_nat i :: u64) = i" by (simp add: unat_of_nat)
  with i show "read_bytes (write_bytes m a bs) a (length bs) ! i = bs ! i"
    by (simp add: write_bytes_def)
qed simp

lemma write_bytes_outside [mem_simps]: "length bs \<le> unat (x - a) \<Longrightarrow> write_bytes m a bs x = m x"
  by (simp add: write_bytes_def)

lemma write_bytes_Nil [simp]: "write_bytes m a [] = m"
  by (simp add: write_bytes_def)

lemma load64_store64_same [simp, mem_simps]: "load64 (store64 m a v) a = v"
  using read_write_bytes_same [of "le_bytes 8 v" m a] by (simp add: load64_def store64_def)

lemma load64_cong:
  "(\<And>i. i < 8 \<Longrightarrow> m (a + of_nat i) = m' (a + of_nat i)) \<Longrightarrow> load64 m a = load64 m' a"
  by (simp add: load64_def read_bytes_cong [of 8 m a m'])

lemma store64_outside [mem_simps]: "8 \<le> x - a \<Longrightarrow> store64 m a v x = m x"
  by (simp add: store64_def write_bytes_outside word_le_nat_alt)

lemma word_offset_disjoint:
  fixes a b :: u64
  assumes "8 \<le> b - a" and "8 \<le> a - b" and "i < 8"
  shows "8 \<le> b + of_nat i - a"
proof -
  have "(of_nat i :: u64) < 8"
    using assms(3) by (simp add: word_less_nat_alt unat_of_nat)
  with assms(1,2) show ?thesis by uint_arith
qed

lemma load64_store64_other [mem_simps]:
  fixes a b :: u64
  assumes "8 \<le> b - a" and "8 \<le> a - b"
  shows "load64 (store64 m a v) b = load64 m b"
  by (rule load64_cong) (simp add: store64_outside word_offset_disjoint [OF assms])

section \<open>Parts of a byte run\<close>

definition put_at :: "nat \<Rightarrow> 'a list \<Rightarrow> 'a list \<Rightarrow> 'a list" where
  "put_at i bs ds = take i ds @ bs @ drop (i + length bs) ds"

lemma length_put_at [simp]: "i + length bs \<le> length ds \<Longrightarrow> length (put_at i bs ds) = length ds"
  by (simp add: put_at_def)

lemma nth_put_at:
  "i + length bs \<le> length ds \<Longrightarrow> j < length ds \<Longrightarrow>
     put_at i bs ds ! j = (if i \<le> j \<and> j < i + length bs then bs ! (j - i) else ds ! j)"
  by (auto simp: put_at_def nth_append min_def)

lemma take_drop_read_bytes:
  "off + m \<le> n \<Longrightarrow> take m (drop off (read_bytes d a n)) = read_bytes d (a + of_nat off) m"
  by (rule nth_equalityI) (auto simp: add.assoc)

lemma read_bytes_append: "read_bytes d a (m + n) = read_bytes d a m @ read_bytes d (a + of_nat m) n"
  by (rule nth_equalityI) (auto simp: nth_append add.assoc of_nat_diff)

lemma write_bytes_append:
  assumes "length xs + length ys < 2 ^ 64"
  shows "write_bytes (write_bytes d a xs) (a + of_nat (length xs)) ys = write_bytes d a (xs @ ys)"
proof (rule ext)
  fix x
  let ?i = "x - a" and ?n = "of_nat (length xs) :: u64"
  have n: "unat ?n = length xs" using assms by (simp add: unat_of_nat)
  have e: "x - (a + ?n) = ?i - ?n" by (simp add: diff_diff_eq)
  show "write_bytes (write_bytes d a xs) (a + of_nat (length xs)) ys x = write_bytes d a (xs @ ys) x"
  proof (cases "?n \<le> ?i")
    case True
    then have "unat (?i - ?n) = unat ?i - length xs" "length xs \<le> unat ?i"
      using n by (simp_all add: unat_sub word_le_nat_alt)
    then show ?thesis unfolding write_bytes_def e by (auto simp: nth_append)
  next
    case False
    then have l: "unat ?i < length xs" using n by (simp add: word_le_nat_alt)
    have "unat (?i - ?n) = unat ?i + 18446744073709551616 - length xs"
      using False n by (simp add: unat_sub_if_size word_size word_le_nat_alt)
    then have "\<not> unat (?i - ?n) < length ys" using assms by simp
    then show ?thesis using l unfolding write_bytes_def e by (auto simp: nth_append)
  qed
qed

lemma write_bytes_put_at:
  assumes "off + length bs \<le> n" "n < 2 ^ 64"
  shows "write_bytes d a (put_at off bs (read_bytes d a n)) = write_bytes d (a + of_nat off) bs"
proof (rule ext)
  fix x
  let ?i = "x - a" and ?n = "of_nat off :: u64"
  have n: "unat ?n = off" using assms by (simp add: unat_of_nat)
  have e: "x - (a + ?n) = ?i - ?n" by (simp add: diff_diff_eq)
  have same: "read_bytes d a n ! unat ?i = d x" if "unat ?i < n" using that by simp
  have l: "length (put_at off bs (read_bytes d a n)) = n" using assms by simp
  have nth: "unat ?i < n \<Longrightarrow> put_at off bs (read_bytes d a n) ! unat ?i =
      (if off \<le> unat ?i \<and> unat ?i < off + length bs then bs ! (unat ?i - off) else d x)"
    using nth_put_at [of off bs "read_bytes d a n" "unat ?i"] assms same by auto
  show "write_bytes d a (put_at off bs (read_bytes d a n)) x = write_bytes d (a + of_nat off) bs x"
  proof (cases "?n \<le> ?i")
    case True
    then have "unat (?i - ?n) = unat ?i - off" "off \<le> unat ?i" using n by (simp_all add: unat_sub word_le_nat_alt)
    then show ?thesis using nth assms(1) unfolding write_bytes_def e l by auto
  next
    case False
    then have o: "unat ?i < off" using n by (simp add: word_le_nat_alt)
    have "unat (?i - ?n) = unat ?i + 18446744073709551616 - off"
      using False n by (simp add: unat_sub_if_size word_size word_le_nat_alt)
    then have "\<not> unat (?i - ?n) < length bs" using assms by simp
    then show ?thesis using o nth unfolding write_bytes_def e l by auto
  qed
qed

end
