(* ===== verification/Layout.thy ===== *)
theory Layout
  imports Prelude
begin

text \<open>
  The constants and macros of \<^verbatim>\<open>kernel/include/param.h\<close>,
  \<^verbatim>\<open>kernel/include/memlayout.h\<close> and the paging part of
  \<^verbatim>\<open>kernel/include/loongarch.h\<close>, with the arithmetic of pages, page table indices and
  page table entries, and the layout of the kernel stacks.
\<close>

section \<open>Constants and macros\<close>

definition NPROC :: nat where [simp]: "NPROC = 50"
definition NOFILE :: nat where [simp]: "NOFILE = 128"
definition NFILE :: nat where [simp]: "NFILE = 100"
definition NDEV :: nat where [simp]: "NDEV = 10"
definition CLK_FREQ :: nat where [simp]: "CLK_FREQ = 4000000"

definition PGSIZE :: u64 where [simp]: "PGSIZE = 4096"
definition PGSHIFT :: nat where [simp]: "PGSHIFT = 12"

definition PGROUNDUP :: "u64 \<Rightarrow> u64" where
  "PGROUNDUP sz = (sz + PGSIZE - 1) AND NOT (PGSIZE - 1)"

definition PGROUNDDOWN :: "u64 \<Rightarrow> u64" where
  "PGROUNDDOWN a = a AND NOT (PGSIZE - 1)"

definition DMWIN_MASK :: u64 where [simp]: "DMWIN_MASK = 0x9000000000000000"

definition RAMBASE :: u64 where [simp]: "RAMBASE = 0x90000000 OR DMWIN_MASK"
definition RAMSTOP :: u64 where [simp]: "RAMSTOP = RAMBASE + 128 * 1024 * 1024"

definition MAXVA :: u64 where [simp]: "MAXVA = push_bit (9 + 9 + 9 + 9 + 12 - 2) 1"
definition TRAMPOLINE :: u64 where [simp]: "TRAMPOLINE = MAXVA - PGSIZE"
definition TRAPFRAME :: u64 where [simp]: "TRAPFRAME = TRAMPOLINE - PGSIZE"
definition SIGTRAMPOLINE :: u64 where [simp]: "SIGTRAMPOLINE = TRAPFRAME - PGSIZE"
definition VKSTACK :: u64 where [simp]: "VKSTACK = SIGTRAMPOLINE - PGSIZE"
definition KSTACKSIZE :: u64 where [simp]: "KSTACKSIZE = 6 * PGSIZE"
definition EXTRASIZE :: u64 where [simp]: "EXTRASIZE = 2 * PGSIZE"

definition PROCVKSTACK :: "nat \<Rightarrow> u64" where
  "PROCVKSTACK paddrnum =
     VKSTACK - of_nat ((paddrnum + 1) mod (NPROC + 1)) * (KSTACKSIZE + EXTRASIZE) + EXTRASIZE"

definition MAXUVA :: u64 where [simp]: "MAXUVA = 0x80000000"
definition USER_MMAP_START :: u64 where
  [simp]: "USER_MMAP_START = MAXUVA - 0x10000000 - 2 * PGSIZE"
definition USER_STACK_TOP :: u64 where [simp]: "USER_STACK_TOP = MAXUVA - PGSIZE"
definition USER_STACK_DOWN :: u64 where [simp]: "USER_STACK_DOWN = USER_MMAP_START + PGSIZE"

definition PTE_V :: u64 where [simp]: "PTE_V = 1"
definition PTE_D :: u64 where [simp]: "PTE_D = 2"
definition PTE_PLV3 :: u64 where [simp]: "PTE_PLV3 = 12"
definition PTE_MAT :: u64 where [simp]: "PTE_MAT = 16"
definition PTE_P :: u64 where [simp]: "PTE_P = 128"
definition PTE_W :: u64 where [simp]: "PTE_W = 256"
definition PTE_NX :: u64 where [simp]: "PTE_NX = push_bit 62 1"
definition PTE_NR :: u64 where [simp]: "PTE_NR = push_bit 61 1"

definition PAMASK :: u64 where [simp]: "PAMASK = push_bit PGSHIFT 0xFFFFFFFFF"

definition PTE2PA :: "u64 \<Rightarrow> u64" where
  "PTE2PA pte = pte AND PAMASK OR DMWIN_MASK"

definition PA2PTE :: "u64 \<Rightarrow> u64" where
  "PA2PTE pa = pa AND PAMASK"

definition PTE_FLAGS :: "u64 \<Rightarrow> u64" where
  "PTE_FLAGS pte = pte AND 0xE0000000000001FF"

definition PX :: "nat \<Rightarrow> u64 \<Rightarrow> u64" where
  "PX level va = drop_bit (PGSHIFT + 9 * level) va AND 0x1FF"

section \<open>Page arithmetic\<close>

definition page_aligned :: "u64 \<Rightarrow> bool" where
  "page_aligned a \<longleftrightarrow> a mod PGSIZE = 0"

lemma page_aligned_unat [page_simps]: "page_aligned a \<longleftrightarrow> unat a mod 4096 = 0"
  unfolding page_aligned_def by (simp add: unat_mod_distrib flip: unat_0_iff)

lemma PGROUNDDOWN_eq: "PGROUNDDOWN a = a - a mod 4096"
proof -
  have "(4095::u64) = mask 12" by (simp add: mask_eq_exp_minus_1)
  then have "PGROUNDDOWN a = a AND NOT (mask 12)" by (simp add: PGROUNDDOWN_def)
  also have "\<dots> = a AND NOT (take_bit 12 a)"
    by (rule bit_word_eqI) (auto simp: bit_simps)
  also have "\<dots> = a - take_bit 12 a"
    by (rule disjunctive_diff_eq_and_not [symmetric], rule bit_word_eqI) (auto simp: bit_simps)
  also have "take_bit 12 a = a mod 4096" by (simp add: take_bit_eq_mod)
  finally show ?thesis .
qed

lemma unat_mod_4096 [page_simps]: "unat (a mod (4096::u64)) = unat a mod 4096"
  by (simp add: unat_mod_distrib)

lemma unat_PGROUNDDOWN [page_simps]: "unat (PGROUNDDOWN a) = unat a - unat a mod 4096"
proof -
  have "a mod 4096 \<le> a"
    by (simp add: word_le_nat_alt unat_mod_4096)
  then show ?thesis
    by (simp add: PGROUNDDOWN_eq unat_sub unat_mod_4096)
qed

lemma page_aligned_PGROUNDDOWN [simp]: "page_aligned (PGROUNDDOWN a)"
  by (simp add: page_simps)

lemma PGROUNDDOWN_aligned [simp]: "page_aligned a \<Longrightarrow> PGROUNDDOWN a = a"
  by (simp add: page_simps word_unat_eq_iff)

lemma PGROUNDDOWN_le: "PGROUNDDOWN a \<le> a"
  by (simp add: word_le_nat_alt page_simps)

lemma unat_add_page:
  assumes "page_aligned p" and "x < 4096"
  shows "unat (p + x) = unat p + unat x"
proof -
  obtain k where k: "unat p = 4096 * k"
    using assms(1) by (auto simp: page_simps)
  have "unat p < 2 ^ 64" by (rule unat_u64_less)
  then have "k < 2 ^ 52" using k by simp
  then have "unat p + 4096 \<le> 2 ^ 64" using k by simp
  moreover have "unat x < 4096" using assms(2) by (simp add: word_less_nat_alt)
  ultimately show ?thesis by (simp add: unat_word_ariths)
qed

lemma PGROUNDDOWN_add [page_simps]:
  assumes "page_aligned p" and "x < 4096"
  shows "PGROUNDDOWN (p + x) = p"
proof -
  have "unat x < 4096" using assms(2) by (simp add: word_less_nat_alt)
  moreover have "unat p mod 4096 = 0" using assms(1) by (simp add: page_simps)
  ultimately have "(unat p + unat x) mod 4096 = unat x"
    by (metis add_0 mod_add_left_eq mod_less)
  then show ?thesis
    by (simp add: unat_add_page [OF assms] page_simps word_unat_eq_iff)
qed

lemma PGROUNDDOWN_offset:
  "a - PGROUNDDOWN a = a mod 4096" "a = PGROUNDDOWN a + a mod 4096"
  by (simp_all add: PGROUNDDOWN_eq)

lemma mod_4096_less [simp]: "(a::u64) mod 4096 < 4096"
  by (simp add: word_less_nat_alt page_simps)

lemma in_page_iff:
  assumes "page_aligned p"
  shows "PGROUNDDOWN a = p \<longleftrightarrow> a - p < 4096"
proof
  assume "PGROUNDDOWN a = p"
  then show "a - p < 4096" using PGROUNDDOWN_offset(1) [of a] by simp
next
  assume "a - p < 4096"
  then show "PGROUNDDOWN a = p" using PGROUNDDOWN_add [OF assms, of "a - p"] by simp
qed

lemma aligned_offset:
  fixes x b :: nat
  assumes "x mod k = 0" and "b mod k = 0" and "b \<le> x"
  shows "x = b + k * ((x - b) div k)"
  using assms by (simp add: mod_eq_0_iff_dvd dvd_diff_nat)

lemma page_aligned_less:
  assumes "page_aligned p" and "page_aligned q" and "p < q"
  shows "unat p + 4096 \<le> unat q"
  using assms aligned_offset [of "unat q" 4096 "unat p"]
  by (cases "(unat q - unat p) div 4096") (auto simp: page_simps word_less_nat_alt)

lemma page_aligned_add_iff:
  assumes "page_aligned p" and "unat p + 4096 < 2 ^ 64"
  shows "page_aligned q \<and> p \<le> q \<longleftrightarrow> q = p \<or> page_aligned q \<and> p + PGSIZE \<le> q"
proof -
  have u: "unat (p + PGSIZE) = unat p + 4096" using assms(2) by (simp add: unat_word_ariths)
  show ?thesis
    using assms(1) page_aligned_less [OF assms(1), of q] u
    unfolding word_le_nat_alt word_less_nat_alt by (auto simp: word_unat_eq_iff page_aligned_unat)
qed

lemma PGROUNDUP_props:
  assumes "unat a + 4095 < 2 ^ 64"
  shows "page_aligned (PGROUNDUP a)" "a \<le> PGROUNDUP a"
    "page_aligned q \<Longrightarrow> PGROUNDUP a \<le> q \<longleftrightarrow> a \<le> q"
proof -
  have down: "PGROUNDUP a = PGROUNDDOWN (a + 4095)"
    by (simp add: PGROUNDUP_def PGROUNDDOWN_def add_diff_eq [symmetric])
  have u: "unat (a + 4095) = unat a + 4095" using assms by (simp add: unat_word_ariths)
  have e: "unat (PGROUNDUP a) = (unat a + 4095) - (unat a + 4095) mod 4096"
    by (simp add: down page_simps u)
  show al: "page_aligned (PGROUNDUP a)" by (simp add: down)
  have "(unat a + 4095) mod 4096 < 4096" by simp
  then show le: "a \<le> PGROUNDUP a" by (simp add: word_le_nat_alt e)
  show "PGROUNDUP a \<le> q \<longleftrightarrow> a \<le> q" if q: "page_aligned q"
  proof
    assume "a \<le> q"
    show "PGROUNDUP a \<le> q"
    proof (rule ccontr)
      assume "\<not> PGROUNDUP a \<le> q"
      then have "unat q + 4096 \<le> unat (PGROUNDUP a)"
        using page_aligned_less [OF q al] by (simp add: not_le)
      also have "\<dots> \<le> unat a + 4095" by (simp add: e)
      finally show False using \<open>a \<le> q\<close> by (simp add: word_le_nat_alt)
    qed
  next
    assume "PGROUNDUP a \<le> q"
    with le show "a \<le> q" by (rule order_trans)
  qed
qed

lemma PX_less [simp]: "PX l va < 512"
proof -
  have "PX l va \<le> 0x1FF" unfolding PX_def by (rule word_and_le1)
  then show ?thesis by (simp add: word_le_nat_alt word_less_nat_alt)
qed

section \<open>Indices determine the page\<close>

lemma PX_eq_iff_bits: "PX k va = PX k vb \<longleftrightarrow> (\<forall>i<9. bit va (12 + 9 * k + i) = bit vb (12 + 9 * k + i))"
proof -
  have *: "(0x1FF :: u64) = mask 9" by (simp add: mask_eq_exp_minus_1)
  have "PX k v = take_bit 9 (drop_bit (12 + 9 * k) v)" for v
    unfolding PX_def PGSHIFT_def * by (simp add: take_bit_eq_mask)
  then have "bit (PX k v) n \<longleftrightarrow> n < 9 \<and> bit v (12 + 9 * k + n)" for v n
    by (simp add: bit_take_bit_iff bit_drop_bit_eq)
  then show ?thesis by (auto simp: word_bits_eq_iff [of "PX k va"])
qed

lemma bit_ge_maxva: assumes "va < MAXVA" "bit va i" shows "i < 46"
proof (rule ccontr)
  assume "\<not> i < 46"
  have "unat va < 2 ^ 46" using assms(1) by (simp add: word_less_nat_alt)
  then have "take_bit 46 va = va" by (simp add: word_unat_eq_iff unsigned_take_bit_eq take_bit_nat_eq_self)
  with assms(2) \<open>\<not> i < 46\<close> show False by (metis bit_take_bit_iff)
qed

lemma PGROUNDDOWN_eq_iff_bits: "PGROUNDDOWN a = PGROUNDDOWN b \<longleftrightarrow> (\<forall>i\<ge>12. bit a i = bit b i)"
proof -
  have *: "(4095::u64) = mask 12" by (simp add: mask_eq_exp_minus_1)
  have "bit (PGROUNDDOWN v) n \<longleftrightarrow> 12 \<le> n \<and> bit v n" for v n
    unfolding PGROUNDDOWN_def by (auto simp: * bit_simps dest: bit_imp_le_length)
  then show ?thesis by (auto simp: word_bits_eq_iff [of "PGROUNDDOWN a"])
qed

lemma PX_all_eq_iff: assumes "va < MAXVA" "vb < MAXVA" 
  shows "(\<forall>k\<le>3. PX k va = PX k vb) \<longleftrightarrow> PGROUNDDOWN va = PGROUNDDOWN vb"
proof
  assume l: "\<forall>k\<le>3. PX k va = PX k vb"
  have "bit va i = bit vb i" if "12 \<le> i" for i
  proof (cases "i < 48")
    case True
    have "(i - 12) div 9 \<le> 3" "(i - 12) mod 9 < 9" using True that by auto
    with l have "bit va (12 + 9 * ((i - 12) div 9) + (i - 12) mod 9) = bit vb (12 + 9 * ((i - 12) div 9) + (i - 12) mod 9)"
      unfolding PX_eq_iff_bits by blast
    then show ?thesis using that by (simp add: add.assoc)
  next
    case False then show ?thesis using bit_ge_maxva [OF assms(1)] bit_ge_maxva [OF assms(2)] by fastforce
  qed
  then show "PGROUNDDOWN va = PGROUNDDOWN vb" by (simp add: PGROUNDDOWN_eq_iff_bits)
next
  assume "PGROUNDDOWN va = PGROUNDDOWN vb"
  then show "\<forall>k\<le>3. PX k va = PX k vb"
    by (simp add: PGROUNDDOWN_eq_iff_bits PX_eq_iff_bits)
qed

section \<open>Page table entries\<close>

text \<open>The addresses a page table entry can hold: page aligned, in the direct mapped window,
  with a physical page number of 36 bits.\<close>

definition dmw_page :: "u64 \<Rightarrow> bool" where
  "dmw_page p \<longleftrightarrow> p AND NOT PAMASK = DMWIN_MASK"

lemma PTE2PA_PA2PTE [page_simps]:
  assumes "dmw_page p" and "f AND PAMASK = 0"
  shows "PTE2PA (PA2PTE p OR f) = p"
proof -
  have "(p AND PAMASK OR f) AND PAMASK = p AND PAMASK"
    using assms(2) by (simp add: bit.conj_disj_distrib2 and.assoc del: PAMASK_def)
  then have "PTE2PA (PA2PTE p OR f) = p AND PAMASK OR p AND NOT PAMASK"
    using assms(1) by (simp add: PTE2PA_def PA2PTE_def dmw_page_def)
  also have "\<dots> = p" by (rule bit_word_eqI) (auto simp: bit_simps)
  finally show ?thesis .
qed


section \<open>Kernel stacks\<close>

lemma unat_PROCVKSTACK:
  assumes "i < NPROC"
  shows "unat (PROCVKSTACK i) = 0x3FFFFFFFC000 - (i + 1) * 32768 + 8192"
proof -
  have i: "(i + 1) mod (NPROC + 1) = i + 1" "i + 1 \<le> 50" using assms by auto
  define x where "x = of_nat (i + 1) * (KSTACKSIZE + EXTRASIZE)"
  have x: "unat x = (i + 1) * 32768" "(i + 1) * 32768 \<le> 50 * 32768"
    using i(2) by (auto simp: x_def unat_word_ariths unat_of_nat)
  define y where "y = VKSTACK - x"
  have "unat y = 0x3FFFFFFFC000 - (i + 1) * 32768"
    using x unfolding y_def by (simp add: unat_sub_if_size word_size)
  then have "unat (y + EXTRASIZE) = 0x3FFFFFFFC000 - (i + 1) * 32768 + 8192"
    using x(2) by (simp add: unat_word_ariths)
  then show ?thesis unfolding PROCVKSTACK_def i(1) y_def x_def .
qed

text \<open>(C23) Every kernel stack lies below the signal trampoline, and the stacks of two
  processes are separated by the two guard pages of \<^verbatim>\<open>EXTRASIZE\<close>.\<close>

theorem kernel_stacks_separate:
  assumes "i < j" and "j < NPROC"
  shows "unat (PROCVKSTACK j) + unat KSTACKSIZE + unat EXTRASIZE \<le> unat (PROCVKSTACK i)
    \<and> unat (PROCVKSTACK i) + unat KSTACKSIZE \<le> unat SIGTRAMPOLINE"
proof -
  have "i * 32768 + 32768 \<le> j * 32768" "j * 32768 \<le> 50 * 32768" using assms by auto
  moreover have "unat KSTACKSIZE = 24576" "unat EXTRASIZE = 8192" "unat SIGTRAMPOLINE = 0x3FFFFFFFD000"
    by simp_all
  ultimately show ?thesis
    unfolding unat_PROCVKSTACK [OF assms(2)] unat_PROCVKSTACK [OF less_trans [OF assms]] add_mult_distrib
    by (intro conjI) linarith+
qed

theorem kernel_stacks_separate_witness:
  "unat (PROCVKSTACK 1) + unat KSTACKSIZE + unat EXTRASIZE \<le> unat (PROCVKSTACK 0)"
  using kernel_stacks_separate [of 0 1] by simp

end
