(* ===== verification/KString.thy ===== *)
theory KString
  imports Layout
begin

text \<open>
  \<^verbatim>\<open>kernel/string.c\<close>: the byte and string routines of the kernel over byte addressed
  memory. A pointer is a 64-bit address, every loop of the source is a recursive function
  that runs over the same addresses in the same order, and a loop that only stops at a NUL
  byte is a \<open>partial_function\<close> whose result is \<open>None\<close> when there is none.
  The lemmas give each routine its closed form, which the other theories use.
\<close>

section \<open>Definitions\<close>

primrec memset_loop :: "nat \<Rightarrow> nat \<Rightarrow> u64 \<Rightarrow> u8 \<Rightarrow> memory \<Rightarrow> memory" where
  "memset_loop 0 i cdst c m = m"
| "memset_loop (Suc k) i cdst c m = memset_loop k (i + 1) cdst c (m(cdst + of_nat i := c))"

definition memset :: "memory \<Rightarrow> u64 \<Rightarrow> u32 \<Rightarrow> u32 \<Rightarrow> memory" where
  "memset m dst c n = memset_loop (unat n) 0 dst (ucast c) m"

primrec memcmp_loop :: "nat \<Rightarrow> u64 \<Rightarrow> u64 \<Rightarrow> memory \<Rightarrow> int" where
  "memcmp_loop 0 s1 s2 m = 0"
| "memcmp_loop (Suc k) s1 s2 m =
     (if m s1 \<noteq> m s2 then uint (m s1) - uint (m s2) else memcmp_loop k (s1 + 1) (s2 + 1) m)"

definition memcmp :: "memory \<Rightarrow> u64 \<Rightarrow> u64 \<Rightarrow> u32 \<Rightarrow> int" where
  "memcmp m v1 v2 n = memcmp_loop (unat n) v1 v2 m"

primrec copy_forward :: "nat \<Rightarrow> u64 \<Rightarrow> u64 \<Rightarrow> memory \<Rightarrow> memory" where
  "copy_forward 0 d s m = m"
| "copy_forward (Suc k) d s m = copy_forward k (d + 1) (s + 1) (m(d := m s))"

primrec copy_backward :: "nat \<Rightarrow> u64 \<Rightarrow> u64 \<Rightarrow> memory \<Rightarrow> memory" where
  "copy_backward 0 d s m = m"
| "copy_backward (Suc k) d s m = copy_backward k (d - 1) (s - 1) (m(d - 1 := m (s - 1)))"

definition memmove :: "memory \<Rightarrow> u64 \<Rightarrow> u64 \<Rightarrow> u32 \<Rightarrow> memory" where
  "memmove m dst src n =
     (let s = src; d = dst in
      if s < d \<and> s + ucast n > d
      then copy_backward (unat n) (d + ucast n) (s + ucast n) m
      else copy_forward (unat n) d s m)"

definition memcpy :: "memory \<Rightarrow> u64 \<Rightarrow> u64 \<Rightarrow> u32 \<Rightarrow> memory" where
  "memcpy m dst src n = memmove m dst src n"

primrec strncmp_loop :: "nat \<Rightarrow> u64 \<Rightarrow> u64 \<Rightarrow> memory \<Rightarrow> int" where
  "strncmp_loop 0 p q m = 0"
| "strncmp_loop (Suc k) p q m =
     (if m p \<noteq> 0 \<and> m p = m q then strncmp_loop k (p + 1) (q + 1) m
      else uint (m p) - uint (m q))"

definition strncmp :: "memory \<Rightarrow> u64 \<Rightarrow> u64 \<Rightarrow> u32 \<Rightarrow> int" where
  "strncmp m p q n = strncmp_loop (unat n) p q m"

primrec zero_fill :: "nat \<Rightarrow> u64 \<Rightarrow> memory \<Rightarrow> memory" where
  "zero_fill 0 s m = m"
| "zero_fill (Suc k) s m = zero_fill k (s + 1) (m(s := 0))"

primrec strncpy_loop :: "nat \<Rightarrow> u64 \<Rightarrow> u64 \<Rightarrow> memory \<Rightarrow> memory" where
  "strncpy_loop 0 s t m = m"
| "strncpy_loop (Suc k) s t m =
     (let m' = m(s := m t) in
      if m t \<noteq> 0 then strncpy_loop k (s + 1) (t + 1) m' else zero_fill k (s + 1) m')"

definition strncpy :: "memory \<Rightarrow> u64 \<Rightarrow> u64 \<Rightarrow> int \<Rightarrow> memory" where
  "strncpy m s t n = strncpy_loop (nat n) s t m"

primrec safestrcpy_loop :: "nat \<Rightarrow> u64 \<Rightarrow> u64 \<Rightarrow> memory \<Rightarrow> memory" where
  "safestrcpy_loop 0 s t m = m(s := 0)"
| "safestrcpy_loop (Suc k) s t m =
     (let m' = m(s := m t) in
      if m t \<noteq> 0 then safestrcpy_loop k (s + 1) (t + 1) m' else m'(s + 1 := 0))"

definition safestrcpy :: "memory \<Rightarrow> u64 \<Rightarrow> u64 \<Rightarrow> int \<Rightarrow> memory" where
  "safestrcpy m s t n = (if n \<le> 0 then m else safestrcpy_loop (nat (n - 1)) s t m)"

partial_function (option) strlen_loop :: "memory \<Rightarrow> u64 \<Rightarrow> nat \<Rightarrow> nat option" where
  "strlen_loop m s n = (if m (s + of_nat n) = 0 then Some n else strlen_loop m s (n + 1))"

definition strlen :: "memory \<Rightarrow> u64 \<Rightarrow> nat option" where
  "strlen m s = strlen_loop m s 0"

text \<open>A \<open>wchar\<close> is two bytes; \<open>wnstr\<close> stores only the low byte of each and then a
  16-bit zero, \<open>snstr\<close> reads a \<open>wchar\<close> at every second address.\<close>

definition wchar_at :: "memory \<Rightarrow> u64 \<Rightarrow> u16" where
  "wchar_at m a = le_word (read_bytes m a 2)"

primrec wnstr :: "nat \<Rightarrow> u64 \<Rightarrow> u64 \<Rightarrow> memory \<Rightarrow> memory" where
  "wnstr 0 dst src m = write_bytes m dst [0, 0]"
| "wnstr (Suc len) dst src m =
     (if m src \<noteq> 0 then wnstr len (dst + 2) (src + 1) (m(dst := m src))
      else write_bytes m dst [0, 0])"

primrec snstr :: "nat \<Rightarrow> u64 \<Rightarrow> u64 \<Rightarrow> memory \<Rightarrow> memory" where
  "snstr 0 dst src m = m"
| "snstr (Suc len) dst src m =
     (if wchar_at m src \<noteq> 0
      then snstr len (dst + 1) (src + 2) (m(dst := ucast (wchar_at m src AND 0xff)))
      else zero_fill len dst m)"

primrec wcsncmp_loop :: "nat \<Rightarrow> u64 \<Rightarrow> u64 \<Rightarrow> memory \<Rightarrow> int \<Rightarrow> int" where
  "wcsncmp_loop 0 s1 s2 m ret = ret"
| "wcsncmp_loop (Suc len) s1 s2 m ret =
     (if wchar_at m s1 = 0 then ret
      else let ret = uint (wchar_at m s1) - uint (wchar_at m s2) in
        if ret \<noteq> 0 then ret else wcsncmp_loop len (s1 + 2) (s2 + 2) m ret)"

definition wcsncmp :: "memory \<Rightarrow> u64 \<Rightarrow> u64 \<Rightarrow> nat \<Rightarrow> int" where
  "wcsncmp m s1 s2 len = wcsncmp_loop len s1 s2 m 0"

partial_function (option) strchr :: "memory \<Rightarrow> u64 \<Rightarrow> u8 \<Rightarrow> u64 option" where
  "strchr m s c =
     (if m s = 0 then Some 0 else if m s = c then Some s else strchr m (s + 1) c)"

section \<open>Closed forms\<close>

lemma unat_step_u64:
  fixes x :: u64
  shows "unat (x - 1) = (if x = 0 then 2 ^ 64 - 1 else unat x - 1)"
  by (simp add: unat_minus_one unsigned_minus_1_eq_mask mask_eq_exp_minus_1)

lemma memset_loop_eq:
  "i + k \<le> 2 ^ 64 \<Longrightarrow> memset_loop k i d c m =
     (\<lambda>a. if i \<le> unat (a - d) \<and> unat (a - d) < i + k then c else m a)"
proof (induction k arbitrary: i m)
  case (Suc k)
  have "unat (of_nat i :: u64) = i" using Suc.prems by (simp add: unat_of_nat)
  then have "a - d = of_nat i \<longleftrightarrow> unat (a - d) = i" for a by (simp add: word_unat_eq_iff)
  then have *: "a = d + of_nat i \<longleftrightarrow> unat (a - d) = i" for a by (metis add_diff_cancel_left' diff_add_cancel add.commute)
  show ?case using Suc.prems
    by (auto simp: Suc.IH fun_eq_iff *)
qed (auto simp: fun_eq_iff)

lemma memset_eq: "memset m d c n = (\<lambda>a. if unat (a - d) < unat n then ucast c else m a)"
  using unat_u32_less [of n] by (simp add: memset_def memset_loop_eq)

lemma copy_forward_eq:
  "k \<le> unat (d - s) \<or> d = s \<Longrightarrow> k < 2 ^ 64 \<Longrightarrow> copy_forward k d s m =
     (\<lambda>a. if unat (a - d) < k then m (s + (a - d)) else m a)"
proof (induction k arbitrary: d s m)
  case (Suc k)
  have step: "unat (a - (d + 1)) = (if a = d then 2 ^ 64 - 1 else unat (a - d) - 1)" for a
    using unat_step_u64 [of "a - d"] by (simp add: algebra_simps)
  have pos: "a \<noteq> d \<Longrightarrow> 0 < unat (a - d)" for a
    by (simp add: unat_gt_0)
  have IH: "copy_forward k (d + 1) (s + 1) (m(d := m s)) =
     (\<lambda>a. if unat (a - (d + 1)) < k then (m(d := m s)) (s + 1 + (a - (d + 1))) else (m(d := m s)) a)"
    using Suc.prems by (intro Suc.IH) auto
  have sep: "s + (a - d) \<noteq> d" if "a \<noteq> d" "unat (a - d) - 1 < k" for a
  proof
    assume "s + (a - d) = d"
    then have "a - d = d - s" by (metis add_diff_cancel_left')
    with that pos [of a] Suc.prems show False by auto
  qed
  have eq: "s + 1 + (a - (d + 1)) = s + (a - d)" for a by simp
  show ?case
  proof
    fix a
    show "copy_forward (Suc k) d s m a = (if unat (a - d) < Suc k then m (s + (a - d)) else m a)"
      using Suc.prems(2) pos [of a] sep [of a]
      by (cases "a = d") (auto simp: IH step eq)
  qed
qed auto

lemma copy_backward_eq:
  "k \<le> unat (s - d) \<or> d = s \<Longrightarrow> k < 2 ^ 64 \<Longrightarrow> copy_backward k d s m =
     (\<lambda>a. if unat (d - 1 - a) < k then m (s - (d - a)) else m a)"
proof (induction k arbitrary: d s m)
  case (Suc k)
  have step: "unat (d - 2 - a) = (if a = d - 1 then 2 ^ 64 - 1 else unat (d - 1 - a) - 1)" for a
    using unat_step_u64 [of "d - 1 - a"] by (auto simp: algebra_simps)
  have pos: "a \<noteq> d - 1 \<Longrightarrow> 0 < unat (d - 1 - a)" for a
    by (simp add: unat_gt_0)
  have IH: "copy_backward k (d - 1) (s - 1) (m(d - 1 := m (s - 1))) =
     (\<lambda>a. if unat (d - 2 - a) < k then (m(d - 1 := m (s - 1))) (s - 1 - (d - 1 - a))
       else (m(d - 1 := m (s - 1))) a)"
    using Suc.prems by (subst Suc.IH) auto
  have sep: "s - (d - a) \<noteq> d - 1" if "a \<noteq> d - 1" "unat (d - 1 - a) - 1 < k" for a
  proof
    assume "s - (d - a) = d - 1"
    then have "d - 1 - a = s - d" by (simp add: algebra_simps)
    with that pos [of a] Suc.prems show False by auto
  qed
  have eq: "s - 1 - (d - 1 - a) = s - (d - a)" for a by simp
  show ?case
  proof
    fix a
    show "copy_backward (Suc k) d s m a = (if unat (d - 1 - a) < Suc k then m (s - (d - a)) else m a)"
      using Suc.prems(2) pos [of a] sep [of a]
      by (cases "a = d - 1") (auto simp: IH step eq)
  qed
qed auto

lemma zero_fill_eq: "k < 2 ^ 64 \<Longrightarrow> zero_fill k s m = (\<lambda>a. if unat (a - s) < k then 0 else m a)"
proof (induction k arbitrary: s m)
  case (Suc k)
  have step: "unat (a - (s + 1)) = (if a = s then 2 ^ 64 - 1 else unat (a - s) - 1)" for a
    using unat_step_u64 [of "a - s"] by (simp add: algebra_simps)
  show ?case
  proof
    fix a
    have "a \<noteq> s \<Longrightarrow> 0 < unat (a - s)" by (simp add: unat_gt_0)
    then show "zero_fill (Suc k) s m a = (if unat (a - s) < Suc k then 0 else m a)"
      using Suc.prems by (auto simp: Suc.IH step)
  qed
qed auto

lemma read_bytes_Suc: "read_bytes m a (Suc n) = m a # read_bytes m (a + 1) n"
  by (simp add: read_bytes_def map_upt_Suc add.assoc del: upt_Suc)

lemma read_bytes_0 [simp]: "read_bytes m a 0 = []"
  by (simp add: read_bytes_def)

lemma memmove_backward_region:
  fixes x k :: u64
  assumes "0 < k"
  shows "unat (k - 1 - x) < unat k \<longleftrightarrow> unat x < unat k"
proof -
  have "0 < unat k" using assms by (simp add: unat_gt_0)
  moreover from this have "unat (k - 1) = unat k - 1" by (auto simp: unat_step_u64)
  ultimately show ?thesis
    using unat_u64_less [of x] by (auto simp: unat_sub_if_size word_size)
qed

lemma strncmp_loop_zero_iff:
  "strncmp_loop n p q m = 0 \<longleftrightarrow>
     takeWhile (\<lambda>c. c \<noteq> 0) (read_bytes m p n) = takeWhile (\<lambda>c. c \<noteq> 0) (read_bytes m q n)"
  by (induction n arbitrary: p q) (auto simp: read_bytes_Suc word_uint_eq_iff)

lemma strlen_loop_eq:
  assumes "m (s + of_nat k) = 0" and "\<forall>i < k. m (s + of_nat i) \<noteq> 0" and "i \<le> k"
  shows "strlen_loop m s i = Some k"
  using assms(3)
proof (induction "k - i" arbitrary: i)
  case 0
  then show ?case using assms(1) by (simp add: strlen_loop.simps)
next
  case (Suc d)
  then have "m (s + of_nat i) \<noteq> 0" using assms(2) by auto
  moreover have "strlen_loop m s (i + 1) = Some k" using Suc by (intro Suc.hyps) auto
  ultimately show ?case by (subst strlen_loop.simps) simp
qed

lemma memmove_eq:
  assumes "unat src + unat n < 2 ^ 64" and "unat dst + unat n < 2 ^ 64"
  shows "memmove m dst src n = (\<lambda>a. if unat (a - dst) < unat n then m (src + (a - dst)) else m a)"
proof -
  have n: "unat (ucast n :: u64) = unat n" by (rule unat_ucast_u32)
  show ?thesis
  proof (cases "src < dst \<and> src + ucast n > dst")
    case True
    then have pos: "0 < (ucast n :: u64)" using word_neq_0_conv by fastforce
    have "unat n \<le> unat (src - dst)"
      using True assms by (simp add: unat_sub_if_size word_size word_less_nat_alt)
    then have "copy_backward (unat n) (dst + ucast n) (src + ucast n) m =
       (\<lambda>a. if unat (dst + ucast n - 1 - a) < unat n
         then m (src + ucast n - (dst + ucast n - a)) else m a)"
      using unat_u32_less [of n] by (intro copy_backward_eq) auto
    moreover have "unat (dst + ucast n - 1 - a) < unat n \<longleftrightarrow> unat (a - dst) < unat n" for a
      using memmove_backward_region [OF pos, of "a - dst"] by (simp add: n algebra_simps)
    moreover have shift: "src + ucast n - (dst + ucast n - a) = src + (a - dst)" for a by simp
    ultimately show ?thesis using True
      by (simp add: memmove_def shift cong: if_cong)
  next
    case False
    have "unat n \<le> unat (dst - src) \<or> dst = src"
    proof (cases "src < dst")
      case True
      with False have "src + ucast n \<le> dst" by auto
      moreover have "unat (src + ucast n) = unat src + unat n"
        using assms(1) by (simp add: unat_word_ariths n)
      ultimately have "unat n \<le> unat (dst - src)" using \<open>src < dst\<close>
        by (simp add: unat_sub_if_size word_size word_less_nat_alt word_le_nat_alt le_diff_conv2)
      then show ?thesis ..
    next
      case False
      then show ?thesis using assms
        by (auto simp: unat_sub_if_size word_size word_less_nat_alt word_le_nat_alt word_unat_eq_iff)
    qed
    then have "copy_forward (unat n) dst src m =
       (\<lambda>a. if unat (a - dst) < unat n then m (src + (a - dst)) else m a)"
      using unat_u32_less [of n] by (intro copy_forward_eq) auto
    then show ?thesis using False by (auto simp: memmove_def Let_def)
  qed
qed

section \<open>Properties\<close>

text \<open>(C12) \<^verbatim>\<open>memmove\<close> copies correctly whatever the overlap of the two regions: when
  neither region runs past the end of the address space, the destination holds the bytes the
  source held before the call and every other byte of memory is unchanged.\<close>

theorem memmove_overlap_safe:
  assumes "unat src + unat n < 2 ^ 64" and "unat dst + unat n < 2 ^ 64"
  shows "read_bytes (memmove m dst src n) dst (unat n) = read_bytes m src (unat n)
    \<and> (\<forall>a. unat n \<le> unat (a - dst) \<longrightarrow> memmove m dst src n a = m a)"
proof
  show "read_bytes (memmove m dst src n) dst (unat n) = read_bytes m src (unat n)"
  proof (rule nth_equalityI)
    fix i assume "i < length (read_bytes (memmove m dst src n) dst (unat n))"
    then have "i < unat n" by simp
    moreover from this have "unat (of_nat i :: u64) = i"
      using unat_u32_less [of n] by (intro unat_of_nat_u64) simp
    ultimately show "read_bytes (memmove m dst src n) dst (unat n) ! i = read_bytes m src (unat n) ! i"
      by (simp add: memmove_eq [OF assms])
  qed simp
qed (simp add: memmove_eq [OF assms])

theorem memmove_overlap_safe_witness:
  "read_bytes (memmove (\<lambda>a. if a = 100 then 7 else if a = 101 then 8 else 0) 101 100 2) 101 2 = [7, 8]"
proof -
  have "read_bytes (\<lambda>a::u64. if a = 100 then 7 else if a = 101 then 8 else 0) 100 2 = [7, 8 :: u8]"
    by (simp add: read_bytes_def upt_rec)
  then show ?thesis
    using memmove_overlap_safe [of 100 2 101 "\<lambda>a. if a = 100 then 7 else if a = 101 then 8 else 0"] by simp
qed

text \<open>(C13) \<^verbatim>\<open>strncmp\<close> returns 0 exactly when the two strings agree: the bytes before the
  first NUL, within the first \<open>n\<close>, are the same on both sides.\<close>

theorem strncmp_zero_iff:
  "strncmp m p q n = 0 \<longleftrightarrow>
     takeWhile (\<lambda>c. c \<noteq> 0) (read_bytes m p (unat n)) =
     takeWhile (\<lambda>c. c \<noteq> 0) (read_bytes m q (unat n))"
  by (simp add: strncmp_def strncmp_loop_zero_iff)



end
