(* ===== verification/Kalloc.thy ===== *)
theory Kalloc
  imports KString
begin

text \<open>
  \<^verbatim>\<open>kernel/kalloc.c\<close>: the physical page allocator. The free list is threaded through the
  free pages themselves (\<^verbatim>\<open>struct run\<close>), so its state is the head pointer, the page
  counter and memory. The lock \<^verbatim>\<open>kmem.lock\<close> is held around every access to that
  state: each operation is one atomic step. \<^verbatim>\<open>kernel_end\<close> is a symbol of the linker
  script and a field of the state that no operation writes.

  The locale \<open>page_allocator\<close> states what the rest of the kernel relies on, with the list
  of free pages as the abstract state; it is interpreted on \<open>kalloc\<close> and \<open>kfree\<close>.
\<close>

section \<open>State and operations\<close>

record kstate =
  mem :: memory
  freelist :: u64
  npage :: u64
  kernel_end :: u64

definition kfree :: "u64 \<Rightarrow> kstate \<Rightarrow> kstate res" where
  "kfree pa s =
     (if pa mod PGSIZE \<noteq> 0 \<or> pa < kernel_end s \<or> pa \<ge> RAMSTOP then Panic ''kfree''
      else
        let s1 = s\<lparr>mem := memset (mem s) pa 1 4096\<rparr>;
            r = pa;
            s2 = s1\<lparr>mem := store64 (mem s1) r (freelist s1)\<rparr>
        in Ret (s2\<lparr>freelist := r, npage := npage s2 + 1\<rparr>))"

function freerange_loop :: "u64 \<Rightarrow> u64 \<Rightarrow> kstate \<Rightarrow> kstate res" where
  "freerange_loop p pa_end s =
     (if p + PGSIZE \<le> pa_end
      then bind_res (kfree p s) (\<lambda>s'. freerange_loop (p + PGSIZE) pa_end s')
      else Ret s)"
  by pat_completeness auto
termination
proof (relation "measure (\<lambda>(p, pa_end, s). 2 ^ 64 - unat p)")
  fix p pa_end s s' assume "kfree p s = Ret s'"
  then have "p < RAMSTOP" by (auto simp: kfree_def split: if_splits)
  then have "unat p < unat RAMSTOP" by (simp only: word_less_nat_alt)
  then have "unat (p + PGSIZE) = unat p + 4096" by (simp add: unat_word_ariths)
  then show "((p + PGSIZE, pa_end, s'), p, pa_end, s) \<in> measure (\<lambda>(p, pa_end, s). 2 ^ 64 - unat p)"
    using unat_u64_less [of p] unat_u64_less [of "p + PGSIZE"] by simp
qed simp

definition freerange :: "u64 \<Rightarrow> u64 \<Rightarrow> kstate \<Rightarrow> kstate res" where
  "freerange pa_start pa_end s = freerange_loop (PGROUNDUP pa_start) pa_end s"

definition kinit :: "kstate \<Rightarrow> kstate res" where
  "kinit s = freerange (kernel_end s) RAMSTOP (s\<lparr>freelist := 0, npage := 0\<rparr>)"

definition kalloc :: "kstate \<Rightarrow> u64 \<times> kstate" where
  "kalloc s =
     (let r = freelist s;
          s1 = (if r \<noteq> 0 then s\<lparr>freelist := load64 (mem s) r, npage := npage s - 1\<rparr> else s);
          s2 = (if r \<noteq> 0 then s1\<lparr>mem := memset (mem s1) r 5 4096\<rparr> else s1)
      in (r, s2))"

definition freemem_amount :: "kstate \<Rightarrow> u64" where
  "freemem_amount s = push_bit PGSHIFT (npage s)"

declare freerange_loop.simps [simp del]

section \<open>The list of free pages\<close>

primrec follow :: "nat \<Rightarrow> memory \<Rightarrow> u64 \<Rightarrow> u64 list" where
  "follow 0 m p = []"
| "follow (Suc n) m p = p # follow n m (load64 m p)"

fun free_path :: "memory \<Rightarrow> u64 \<Rightarrow> u64 list \<Rightarrow> bool" where
  "free_path m p [] \<longleftrightarrow> p = 0"
| "free_path m p (x # xs) \<longleftrightarrow> p = x \<and> free_path m (load64 m x) xs"

definition free_list :: "kstate \<Rightarrow> u64 list" where
  "free_list s = follow (unat (npage s)) (mem s) (freelist s)"

definition ram_page :: "kstate \<Rightarrow> u64 \<Rightarrow> bool" where
  "ram_page s p \<longleftrightarrow> page_aligned p \<and> kernel_end s \<le> p \<and> p < RAMSTOP"

definition kmem_wf :: "kstate \<Rightarrow> bool" where
  "kmem_wf s \<longleftrightarrow> free_path (mem s) (freelist s) (free_list s) \<and> distinct (free_list s)
     \<and> list_all (ram_page s) (free_list s) \<and> RAMBASE \<le> kernel_end s"

definition same_outside :: "u64 set \<Rightarrow> memory \<Rightarrow> memory \<Rightarrow> bool" where
  "same_outside ps m m' \<longleftrightarrow> (\<forall>a. PGROUNDDOWN a \<notin> ps \<longrightarrow> m' a = m a)"

lemma same_outside_refl [simp]: "same_outside ps m m"
  by (simp add: same_outside_def)

lemma same_outside_mono: "same_outside ps m m' \<Longrightarrow> ps \<subseteq> qs \<Longrightarrow> same_outside qs m m'"
  by (auto simp: same_outside_def)

lemma same_outside_trans:
  "same_outside ps m m' \<Longrightarrow> same_outside qs m' m'' \<Longrightarrow> same_outside (ps \<union> qs) m m''"
  by (auto simp: same_outside_def)

lemma same_outside_memset:
  "page_aligned p \<Longrightarrow> same_outside {p} m (memset m p c 4096)"
  by (auto simp: same_outside_def memset_eq in_page_iff word_less_nat_alt)

lemma page_slot_in_page:
  assumes "page_aligned p" and "x < 4096" and "x mod 8 = 0" and "i < 8"
  shows "PGROUNDDOWN (p + x + of_nat i) = p"
proof -
  have "unat x mod 8 = 0" using assms(3) by (simp add: unat_mod_distrib flip: unat_0_iff)
  moreover have "unat x < 4096" using assms(2) by (simp add: word_less_nat_alt)
  ultimately have "unat x + i < 4096" using assms(4) by (auto elim!: dvdE simp: mod_eq_0_iff_dvd)
  then have "x + of_nat i < 4096"
    using assms(4) by (simp add: word_less_nat_alt unat_word_ariths unat_of_nat)
  from PGROUNDDOWN_add [OF assms(1) this] show ?thesis by (simp add: add.assoc)
qed

lemma same_outside_store64:
  assumes "page_aligned p" and "x < 4096" and "x mod 8 = 0"
  shows "same_outside {p} m (store64 m (p + x) v)"
proof -
  have "PGROUNDDOWN a = p" if "unat (a - (p + x)) < 8" for a
  proof -
    have "a = p + x + of_nat (unat (a - (p + x)))" by simp
    then show ?thesis using page_slot_in_page [OF assms that] by metis
  qed
  then show ?thesis
    by (force simp: same_outside_def store64_def write_bytes_def)
qed

lemma load64_same_outside:
  assumes "same_outside ps m m'" and "page_aligned p" and "x < 4096" and "x mod 8 = 0" and "p \<notin> ps"
  shows "load64 m' (p + x) = load64 m (p + x)"
  using assms page_slot_in_page [OF assms(2,3,4)]
  by (intro load64_cong) (auto simp: same_outside_def)

lemma load64_same_outside0:
  "same_outside ps m m' \<Longrightarrow> page_aligned p \<Longrightarrow> p \<notin> ps \<Longrightarrow> load64 m' p = load64 m p"
  using load64_same_outside [of ps m m' p 0] by simp

lemma free_path_same_outside:
  "same_outside ps m m' \<Longrightarrow> \<forall>x \<in> set xs. page_aligned x \<and> x \<notin> ps \<Longrightarrow>
     free_path m p xs \<Longrightarrow> free_path m' p xs"
  by (induction xs arbitrary: p) (auto simp: load64_same_outside0)

lemma free_path_follow: "free_path m p xs \<Longrightarrow> follow (length xs) m p = xs"
  by (induction xs arbitrary: p) auto

lemma length_follow [simp]: "length (follow n m p) = n"
  by (induction n arbitrary: p) auto

lemma kmem_wfI:
  assumes "free_path (mem s) (freelist s) xs" and "distinct xs" and "\<forall>x \<in> set xs. ram_page s x"
    and "RAMBASE \<le> kernel_end s" and "unat (npage s) = length xs"
  shows "kmem_wf s" "free_list s = xs"
proof -
  show "free_list s = xs"
    using free_path_follow [OF assms(1)] assms(5) by (simp add: free_list_def)
  then show "kmem_wf s" using assms by (simp add: kmem_wf_def list_all_iff)
qed

lemma free_list_Nil_iff: "kmem_wf s \<Longrightarrow> free_list s = [] \<longleftrightarrow> freelist s = 0"
  by (cases "free_list s") (auto simp: kmem_wf_def ram_page_def)


section \<open>Refinement of the list of free pages\<close>

lemma kmem_wfD:
  assumes "kmem_wf s"
  shows "free_path (mem s) (freelist s) (free_list s)" "distinct (free_list s)"
    "p \<in> set (free_list s) \<Longrightarrow> ram_page s p" "RAMBASE \<le> kernel_end s"
    "unat (npage s) = length (free_list s)"
  using assms by (auto simp: kmem_wf_def list_all_iff free_list_def)

lemma ram_page_not_0: "RAMBASE \<le> kernel_end s \<Longrightarrow> ram_page s p \<Longrightarrow> p \<noteq> 0"
  by (auto simp: ram_page_def word_le_nat_alt)

lemma ram_page_aligned: "ram_page s p \<Longrightarrow> page_aligned p"
  by (simp add: ram_page_def)

lemma ram_page_dmw:
  assumes "RAMBASE \<le> kernel_end s" and "ram_page s p" shows "dmw_page p"
proof -
  have al: "unat p mod 4096 = 0" and lo: "unat RAMBASE \<le> unat p" and hi: "unat p < unat RAMSTOP"
    using assms by (auto simp: ram_page_def page_simps word_le_nat_alt word_less_nat_alt)
  have "p AND NOT PAMASK = push_bit 48 (drop_bit 48 p) OR take_bit 12 p"
  proof (rule bit_word_eqI)
    fix n assume "n < LENGTH(64)"
    have "PAMASK = push_bit 12 (mask 36)" by (simp add: mask_eq_exp_minus_1)
    moreover have "bit (push_bit 12 (mask 36) :: u64) n \<longleftrightarrow> 12 \<le> n \<and> n < 48" by (auto simp: bit_simps)
    ultimately have "bit PAMASK n \<longleftrightarrow> 12 \<le> n \<and> n < 48" by metis
    then show "bit (p AND NOT PAMASK) n = bit (push_bit 48 (drop_bit 48 p) OR take_bit 12 p) n"
      using \<open>n < LENGTH(64)\<close> by (auto simp del: PAMASK_def simp: bit_simps)
  qed
  also have "take_bit 12 p = 0" using al by (simp add: word_unat_eq_iff take_bit_eq_mod unat_mod_4096)
  also have "drop_bit 48 p = 0x9000"
  proof -
    have "unat (drop_bit 48 p) = unat p div 2 ^ 48" by (simp add: drop_bit_eq_div unat_div_distrib)
    also have "\<dots> = 0x9000" using lo hi by simp
    finally show ?thesis by (simp add: word_unat_eq_iff)
  qed
  finally show ?thesis by (simp add: dmw_page_def)
qed

lemma ram_page_cong: "kernel_end s' = kernel_end s \<Longrightarrow> ram_page s' p = ram_page s p"
  by (simp add: ram_page_def)

text \<open>RAM has $2^{15}$ pages, which bounds the length of the free list.\<close>

lemma ram_pages_bound:
  assumes "RAMBASE \<le> kernel_end s" and "distinct xs" and "\<forall>x \<in> set xs. ram_page s x"
  shows "length xs \<le> 32768"
proof -
  let ?f = "\<lambda>x :: u64. (unat x - unat RAMBASE) div 4096"
  have unat_base: "unat RAMBASE mod 4096 = 0" by simp
  have off: "unat z = unat RAMBASE + 4096 * ?f z" if "page_aligned z" "RAMBASE \<le> z" for z
    using that unfolding page_simps word_le_nat_alt by (rule aligned_offset [OF _ unat_base])
  have inj: "inj_on ?f (set xs)"
  proof (rule inj_onI)
    fix x y assume xy: "x \<in> set xs" "y \<in> set xs" "?f x = ?f y"
    then have "page_aligned x" "page_aligned y" "RAMBASE \<le> x" "RAMBASE \<le> y"
      using assms(1,3) by (auto simp: ram_page_def)
    then have "unat x = unat RAMBASE + 4096 * ?f x" "unat y = unat RAMBASE + 4096 * ?f y"
      using off by blast+
    then show "x = y" using xy(3) by (simp add: word_unat_eq_iff)
  qed
  have "?f ` set xs \<subseteq> {..<32768}"
    using assms(1,3) by (auto simp: ram_page_def word_le_nat_alt word_less_nat_alt)
  then have "card (set xs) \<le> 32768"
    using card_mono [of "{..<32768::nat}" "?f ` set xs"] card_image [OF inj] by simp
  then show ?thesis using assms(2) by (simp add: distinct_card)
qed


lemma kfree_Ret_iff: "is_Ret (kfree pa s) \<longleftrightarrow> ram_page s pa"
  by (auto simp: kfree_def ram_page_def page_aligned_def Let_def not_less not_le)

lemma kfree_refines:
  assumes wf: "kmem_wf s" and pa: "ram_page s pa" "pa \<notin> set (free_list s)"
  obtains s' where "kfree pa s = Ret s'" "kmem_wf s'" "free_list s' = pa # free_list s"
    "same_outside {pa} (mem s) (mem s')" "kernel_end s' = kernel_end s"
proof -
  note w = kmem_wfD [OF wf]
  from pa(1) obtain s' where s': "kfree pa s = Ret s'"
    using kfree_Ret_iff [of pa s] by (auto simp: res_simps)
  then have m: "mem s' = store64 (memset (mem s) pa 1 4096) pa (freelist s)"
    and f: "freelist s' = pa" and n: "npage s' = npage s + 1" and k: "kernel_end s' = kernel_end s"
    by (auto simp: kfree_def Let_def split: if_splits)
  have al: "page_aligned pa" using pa(1) by (rule ram_page_aligned)
  have so: "same_outside {pa} (mem s) (mem s')"
    using same_outside_trans [OF same_outside_memset [OF al] same_outside_store64 [OF al, of 0]]
    by (simp add: m)
  let ?xs = "pa # free_list s"
  have "free_path (mem s') (freelist s) (free_list s)"
    using free_path_same_outside [OF so _ w(1)] w(3) pa(2) by (auto dest: ram_page_aligned)
  then have path: "free_path (mem s') (freelist s') ?xs" by (simp add: f m)
  have dist: "distinct ?xs" using w(2) pa(2) by simp
  have ram: "\<forall>x \<in> set ?xs. ram_page s x" using w(3) pa(1) by auto
  then have ram': "\<forall>x \<in> set ?xs. ram_page s' x" by (simp add: ram_page_cong [OF k])
  have "length ?xs \<le> 32768" by (rule ram_pages_bound [OF w(4) dist ram])
  then have "unat (npage s') = length ?xs" using w(5) by (simp add: n unat_word_ariths)
  from kmem_wfI [OF path dist ram' _ this] have "kmem_wf s'" "free_list s' = ?xs"
    using w(4) k by auto
  with s' so k that show ?thesis by blast
qed

lemma kalloc_refines:
  assumes wf: "kmem_wf s" and ne: "free_list s = pa # xs"
  obtains s' where "kalloc s = (pa, s')" "kmem_wf s'" "free_list s' = xs"
    "same_outside {pa} (mem s) (mem s')" "kernel_end s' = kernel_end s"
    "\<And>a. PGROUNDDOWN a = pa \<Longrightarrow> mem s' a = 5"
proof -
  note w = kmem_wfD [OF wf]
  have ram: "ram_page s pa" and fl: "freelist s = pa" using w(1,3) ne by auto
  then have nz: "pa \<noteq> 0" and al: "page_aligned pa"
    using ram_page_not_0 [OF w(4)] by (auto simp: ram_page_def)
  obtain s' where s': "kalloc s = (pa, s')"
    by (simp add: kalloc_def fl Let_def)
  then have m: "mem s' = memset (mem s) pa 5 4096"
    and f: "freelist s' = load64 (mem s) pa" and n: "npage s' = npage s - 1"
    and k: "kernel_end s' = kernel_end s"
    using nz fl by (auto simp: kalloc_def Let_def)
  have so: "same_outside {pa} (mem s) (mem s')" using same_outside_memset [OF al] by (simp add: m)
  have path: "free_path (mem s') (freelist s') xs"
    using free_path_same_outside [OF so, of xs "load64 (mem s) pa"] w(1,2,3)
    by (auto simp: ne f dest: ram_page_aligned)
  have dist: "distinct xs" and ram': "\<forall>x \<in> set xs. ram_page s' x"
    using w(2,3) ne by (auto simp: ram_page_cong [OF k])
  have "unat (npage s) = Suc (length xs)" using w(5) ne by simp
  then have "unat (npage s') = length xs"
    by (simp add: n unat_sub_if_size)
  from kmem_wfI [OF path dist ram' _ this] have "kmem_wf s'" "free_list s' = xs"
    using w(4) k by auto
  moreover have "mem s' a = 5" if "PGROUNDDOWN a = pa" for a
    using that al by (auto simp: m memset_eq in_page_iff word_less_nat_alt)
  ultimately show ?thesis using s' so k that by blast
qed

lemma kalloc_empty: "kmem_wf s \<Longrightarrow> free_list s = [] \<Longrightarrow> kalloc s = (0, s)"
  by (simp add: free_list_Nil_iff kalloc_def)


lemma kmem_write:
  assumes wf: "kmem_wf s" and so: "same_outside ps (mem s) m'" and ps: "ps \<inter> set (free_list s) = {}"
  shows "kmem_wf (s\<lparr>mem := m'\<rparr>)" "free_list (s\<lparr>mem := m'\<rparr>) = free_list s"
proof -
  note w = kmem_wfD [OF wf]
  have "free_path m' (freelist s) (free_list s)"
    using free_path_same_outside [OF so _ w(1)] w(3) ps by (auto dest: ram_page_aligned)
  then have path: "free_path (mem (s\<lparr>mem := m'\<rparr>)) (freelist (s\<lparr>mem := m'\<rparr>)) (free_list s)" by simp
  have ram: "\<forall>x \<in> set (free_list s). ram_page (s\<lparr>mem := m'\<rparr>) x"
    using w(3) by (simp add: ram_page_def)
  show "kmem_wf (s\<lparr>mem := m'\<rparr>)" "free_list (s\<lparr>mem := m'\<rparr>) = free_list s"
    using kmem_wfI [OF path w(2) ram] w(4,5) by simp_all
qed

section \<open>The interface of the allocator\<close>

locale page_allocator =
  fixes alloc :: "'s \<Rightarrow> u64 \<times> 's"
    and free :: "u64 \<Rightarrow> 's \<Rightarrow> 's res"
    and pool :: "'s \<Rightarrow> u64 list"
    and contents :: "'s \<Rightarrow> memory"
    and update :: "memory \<Rightarrow> 's \<Rightarrow> 's"
    and usable :: "'s \<Rightarrow> u64 \<Rightarrow> bool"
    and wf :: "'s \<Rightarrow> bool"
  assumes alloc_none: "wf s \<Longrightarrow> pool s = [] \<Longrightarrow> alloc s = (0, s)"
    and alloc_some: "wf s \<Longrightarrow> pool s = p # ps \<Longrightarrow>
      \<exists>s'. alloc s = (p, s') \<and> wf s' \<and> pool s' = ps \<and> usable s' = usable s
        \<and> same_outside {p} (contents s) (contents s')"
    and free_usable: "wf s \<Longrightarrow> usable s p \<Longrightarrow> p \<notin> set (pool s) \<Longrightarrow>
      \<exists>s'. free p s = Ret s' \<and> wf s' \<and> pool s' = p # pool s \<and> usable s' = usable s
        \<and> same_outside {p} (contents s) (contents s')"
    and free_refuses: "\<not> usable s p \<Longrightarrow> \<not> is_Ret (free p s)"
    and pool_distinct: "wf s \<Longrightarrow> distinct (pool s)"
    and pool_usable: "wf s \<Longrightarrow> p \<in> set (pool s) \<Longrightarrow> usable s p"
    and usable_page: "wf s \<Longrightarrow> usable s p \<Longrightarrow> p \<noteq> 0 \<and> page_aligned p"
    and update_pool: "wf s \<Longrightarrow> same_outside qs (contents s) m \<Longrightarrow> qs \<inter> set (pool s) = {} \<Longrightarrow>
      wf (update m s) \<and> pool (update m s) = pool s \<and> usable (update m s) = usable s
        \<and> contents (update m s) = m"
begin

lemma alloc_cases:
  assumes "wf s" and "alloc s = (p, s')"
  obtains "p = 0" "s' = s" "pool s = []"
  | "p \<noteq> 0" "page_aligned p" "usable s p" "wf s'" "pool s = p # pool s'" "p \<notin> set (pool s')"
    "usable s' = usable s" "same_outside {p} (contents s) (contents s')"
proof (cases "pool s")
  case Nil
  with assms alloc_none [of s] that(1) show ?thesis by simp
next
  case (Cons q qs)
  with assms alloc_some [of s q qs]
  have "p = q" "wf s'" "pool s' = qs" "usable s' = usable s" "same_outside {p} (contents s) (contents s')"
    by auto
  moreover have "usable s q" "q \<notin> set qs"
    using pool_usable [of s q] pool_distinct [of s] assms(1) Cons by auto
  ultimately show ?thesis using that(2) usable_page [of s q] assms(1) Cons by simp
qed

lemma alloc_None_iff: "wf s \<Longrightarrow> fst (alloc s) = 0 \<longleftrightarrow> pool s = []"
  by (cases "alloc s") (auto elim: alloc_cases)

lemma free_Ret:
  assumes "wf s" and "p \<notin> set (pool s)" and "free p s = Ret s'"
  shows "wf s'" "pool s' = p # pool s" "usable s' = usable s" "usable s p"
    "same_outside {p} (contents s) (contents s')"
proof -
  show u: "usable s p" using free_refuses [of s p] assms(3) by (auto simp: res_simps)
  show "wf s'" "pool s' = p # pool s" "usable s' = usable s" "same_outside {p} (contents s) (contents s')"
    using free_usable [OF assms(1) u assms(2)] assms(3) by auto
qed

text \<open>The pages a client owns and the free pages always partition the same set.\<close>

lemma alloc_partition:
  assumes "wf s" and "alloc s = (p, s')" and "p \<noteq> 0" and "own \<inter> set (pool s) = {}"
  shows "p \<notin> own" "insert p own \<inter> set (pool s') = {}"
    "insert p own \<union> set (pool s') = own \<union> set (pool s)"
proof -
  have "pool s = p # pool s'" "p \<notin> set (pool s')"
    using alloc_cases [OF assms(1,2)] assms(3) by metis+
  then show "p \<notin> own" "insert p own \<inter> set (pool s') = {}"
    "insert p own \<union> set (pool s') = own \<union> set (pool s)"
    using assms(4) by auto
qed

lemma free_partition:
  assumes "wf s" and "free p s = Ret s'" and "p \<in> own" and "own \<inter> set (pool s) = {}"
  shows "(own - {p}) \<inter> set (pool s') = {}"
    "(own - {p}) \<union> set (pool s') = own \<union> set (pool s)"
proof -
  have "p \<notin> set (pool s)" using assms(3,4) by auto
  then have "pool s' = p # pool s" by (rule free_Ret(2) [OF assms(1) _ assms(2)])
  then show "(own - {p}) \<inter> set (pool s') = {}" "(own - {p}) \<union> set (pool s') = own \<union> set (pool s)"
    using assms(3,4) by auto
qed

lemma realloc_lifo:
  assumes "wf s" and "usable s p" and "p \<notin> set (pool s)" and "free p s = Ret s'"
  shows "fst (alloc s') = p"
  using free_Ret [OF assms(1,3,4)] alloc_some [of s' p "pool s"] by auto

end

interpretation ka: page_allocator kalloc kfree free_list mem "\<lambda>m s. s\<lparr>mem := m\<rparr>" ram_page kmem_wf
proof
  fix s :: kstate and p ps m
  show "kmem_wf s \<Longrightarrow> free_list s = [] \<Longrightarrow> kalloc s = (0, s)" by (rule kalloc_empty)
  show "\<exists>s'. kalloc s = (p, s') \<and> kmem_wf s' \<and> free_list s' = ps \<and> ram_page s' = ram_page s
      \<and> same_outside {p} (mem s) (mem s')" if "kmem_wf s" "free_list s = p # ps"
    using that by (rule kalloc_refines) (auto simp: fun_eq_iff ram_page_def)
  show "\<exists>s'. kfree p s = Ret s' \<and> kmem_wf s' \<and> free_list s' = p # free_list s \<and> ram_page s' = ram_page s
      \<and> same_outside {p} (mem s) (mem s')" if "kmem_wf s" "ram_page s p" "p \<notin> set (free_list s)"
    using that by (rule kfree_refines) (auto simp: fun_eq_iff ram_page_def)
  show "\<not> is_Ret (kfree p s)" if "\<not> ram_page s p" using that by (simp add: kfree_Ret_iff)
  show "distinct (free_list s)" if "kmem_wf s" using kmem_wfD(2) [OF that] .
  show "ram_page s p" if "kmem_wf s" "p \<in> set (free_list s)" using kmem_wfD(3) [OF that] .
  show "p \<noteq> 0 \<and> page_aligned p" if "kmem_wf s" "ram_page s p"
    using kmem_wfD(4) [OF that(1)] that(2) ram_page_not_0 ram_page_aligned by blast
  show "kmem_wf (s\<lparr>mem := m\<rparr>) \<and> free_list (s\<lparr>mem := m\<rparr>) = free_list s \<and>
      ram_page (s\<lparr>mem := m\<rparr>) = ram_page s \<and> mem (s\<lparr>mem := m\<rparr>) = m"
    if "kmem_wf s" "same_outside qs (mem s) m" "qs \<inter> set (free_list s) = {}" for qs
    using kmem_write [OF that] by (simp add: fun_eq_iff ram_page_def)
qed


section \<open>Boot: every page above the kernel becomes free\<close>

lemma freerange_loop_frees:
  assumes "kmem_wf s" and "page_aligned p" and "kernel_end s \<le> p" and "p \<le> RAMSTOP"
    and "\<forall>q \<in> set (free_list s). q < p"
  shows "\<exists>s'. freerange_loop p RAMSTOP s = Ret s' \<and> kmem_wf s' \<and> kernel_end s' = kernel_end s \<and>
    set (free_list s') = set (free_list s) \<union> {q. page_aligned q \<and> p \<le> q \<and> q < RAMSTOP}"
  using assms
proof (induction p "RAMSTOP :: u64" s rule: freerange_loop.induct)
  case (1 p s)
  show ?case
  proof (cases "p < RAMSTOP")
    case False
    with "1.prems"(4) have p: "p = RAMSTOP" by simp
    then have "freerange_loop p RAMSTOP s = Ret s" by (subst freerange_loop.simps) simp
    moreover have "{q. page_aligned q \<and> p \<le> q \<and> q < RAMSTOP} = {}" by (auto simp: p)
    ultimately show ?thesis using "1.prems"(1) by auto
  next
    case True
    have al: "unat p mod 4096 = 0" using "1.prems"(2) by (simp add: page_simps)
    have le: "unat p + 4096 \<le> unat RAMSTOP"
      using page_aligned_less [OF "1.prems"(2) _ True] by (simp add: page_aligned_def)
    then have nowrap: "unat p + 4096 < 2 ^ 64" by simp
    then have up: "unat (p + PGSIZE) = unat p + 4096" by (simp add: unat_word_ariths)
    have step: "p + PGSIZE \<le> RAMSTOP" using le up unfolding word_le_nat_alt by simp
    have "ram_page s p" "p \<notin> set (free_list s)" using "1.prems" True by (auto simp: ram_page_def)
    from kfree_refines [OF "1.prems"(1) this] obtain s1 where s1: "kfree p s = Ret s1" "kmem_wf s1"
      "free_list s1 = p # free_list s" "kernel_end s1 = kernel_end s" by metis
    have lt: "p < p + PGSIZE" using up unfolding word_less_nat_alt by simp
    have "\<forall>q \<in> set (free_list s1). q < p + PGSIZE" using "1.prems"(5) lt s1(3) by auto
    moreover have "page_aligned (p + PGSIZE)" using al up unfolding page_simps by simp
    moreover have "kernel_end s1 \<le> p + PGSIZE" using "1.prems"(3) lt s1(4) by simp
    ultimately obtain s' where s': "freerange_loop (p + PGSIZE) RAMSTOP s1 = Ret s'" "kmem_wf s'"
      "kernel_end s' = kernel_end s" 
      "set (free_list s') = set (free_list s1) \<union> {q. page_aligned q \<and> p + PGSIZE \<le> q \<and> q < RAMSTOP}"
      using "1.hyps" [OF step s1(1)] s1(2,4) step by auto
    have "freerange_loop p RAMSTOP s = Ret s'"
      using step s1(1) s'(1) by (subst freerange_loop.simps) simp
    moreover have "set (free_list s') = set (free_list s) \<union> {q. page_aligned q \<and> p \<le> q \<and> q < RAMSTOP}"
      using page_aligned_add_iff [OF "1.prems"(2) nowrap] s'(4) s1(3) True by auto
    ultimately show ?thesis using s'(2,3) by blast
  qed
qed


lemma kinit_frees:
  assumes "RAMBASE \<le> kernel_end s" and "kernel_end s \<le> RAMSTOP"
  shows "\<exists>s'. kinit s = Ret s' \<and> kmem_wf s' \<and> kernel_end s' = kernel_end s \<and>
    set (free_list s') = {p. ram_page s p}"
proof -
  let ?s = "s\<lparr>freelist := 0, npage := 0\<rparr>"
  let ?p = "PGROUNDUP (kernel_end s)"
  have w: "kmem_wf ?s" "free_list ?s = []"
    by (rule kmem_wfI [of ?s "[]"]; use assms(1) in simp)+
  have "unat (kernel_end s) + 4095 < 2 ^ 64" using assms(2) by (simp add: word_le_nat_alt)
  note up = PGROUNDUP_props [OF this]
  have "?p \<le> RAMSTOP" using up(3) [of RAMSTOP] assms(2) by (simp add: page_aligned_def)
  from freerange_loop_frees [OF w(1) up(1) _ this] up(2) w(2) obtain s' where
    s': "freerange_loop ?p RAMSTOP ?s = Ret s'" "kmem_wf s'" "kernel_end s' = kernel_end s"
      "set (free_list s') = {q. page_aligned q \<and> ?p \<le> q \<and> q < RAMSTOP}" by auto
  have "page_aligned q \<and> ?p \<le> q \<and> q < RAMSTOP \<longleftrightarrow> ram_page s q" for q
    using up(2) up(3) [of q] by (auto simp: ram_page_def)
  then show ?thesis using s' by (auto simp: kinit_def freerange_def)
qed

section \<open>Properties\<close>

text \<open>A run of the allocator: clients allocate pages, write to pages they own, and free pages
  they own. \<open>own\<close> is the set of pages handed out.\<close>

inductive kmem_run :: "kstate \<Rightarrow> kstate \<Rightarrow> u64 set \<Rightarrow> bool" for s0 where
  boot: "kmem_run s0 s0 {}"
| alloc: "kmem_run s0 s own \<Longrightarrow> kalloc s = (p, s') \<Longrightarrow> p \<noteq> 0 \<Longrightarrow> kmem_run s0 s' (insert p own)"
| alloc_fail: "kmem_run s0 s own \<Longrightarrow> kalloc s = (0, s') \<Longrightarrow> kmem_run s0 s' own"
| store: "kmem_run s0 s own \<Longrightarrow> same_outside own (mem s) m \<Longrightarrow> kmem_run s0 (s\<lparr>mem := m\<rparr>) own"
| free: "kmem_run s0 s own \<Longrightarrow> p \<in> own \<Longrightarrow> kfree p s = Ret s' \<Longrightarrow> kmem_run s0 s' (own - {p})"

text \<open>A state with the last page of RAM as its only free page, for concrete instances.\<close>

definition one_page :: kstate where
  "one_page = \<lparr>mem = (\<lambda>_. 0), freelist = 0x9000000097FFF000, npage = 1,
     kernel_end = 0x9000000097FFF000\<rparr>"

lemma le_word_zeros [simp]: "le_word (replicate n 0) = 0"
  by (induction n) auto

lemma load64_zero [simp]: "load64 (\<lambda>_. 0) a = 0"
  by (simp add: load64_def read_bytes_def map_replicate_const)

lemma one_page_wf: "kmem_wf one_page" "free_list one_page = [0x9000000097FFF000]"
  by (rule kmem_wfI [of one_page "[0x9000000097FFF000]"];
      simp add: one_page_def ram_page_def page_aligned_def)+

text \<open>(C1) The allocator neither loses a page nor hands one out twice: in every run from a
  well-formed state the free list stays well formed, no page handed out is in it, and the pages
  handed out together with the free pages are exactly the pages that were free at the start.\<close>

theorem kmem_conservation:
  assumes "kmem_run s0 s own" and "kmem_wf s0"
  shows "kmem_wf s \<and> own \<inter> set (free_list s) = {} \<and> own \<union> set (free_list s) = set (free_list s0)"
  using assms
proof (induction rule: kmem_run.induct)
  case (alloc s own p s')
  then have "kmem_wf s" "own \<inter> set (free_list s) = {}" by auto
  with alloc ka.alloc_partition [of s p s' own] show ?case
    by (metis ka.alloc_cases)
next
  case (alloc_fail s own s')
  then show ?case by (metis ka.alloc_cases)
next
  case (store s own m)
  then show ?case using ka.update_pool [of s own m] by simp
next
  case (free s own p s')
  then have "p \<notin> set (free_list s)" "kmem_wf s" by auto
  with free ka.free_partition [of s p s' own] ka.free_Ret(1) [of s p s'] show ?case by simp
qed simp

theorem kmem_conservation_witness:
  "kmem_run one_page (snd (kalloc one_page)) {0x9000000097FFF000} \<and> kmem_wf (snd (kalloc one_page))
    \<and> free_list (snd (kalloc one_page)) = []"
proof -
  from kalloc_refines [OF one_page_wf] obtain s' where s': "kalloc one_page = (0x9000000097FFF000, s')"
    "free_list s' = []" by metis
  then have run: "kmem_run one_page s' {0x9000000097FFF000}"
    using kmem_run.alloc [OF kmem_run.boot s'(1)] by simp
  from kmem_conservation [OF run one_page_wf(1)] s' run show ?thesis by simp
qed

text \<open>(C10) \<^verbatim>\<open>kinit\<close> does not panic and makes exactly the pages between the end of
  the kernel image and the end of RAM free, once each.\<close>

theorem kinit_ok:
  assumes "RAMBASE \<le> kernel_end s" and "kernel_end s \<le> RAMSTOP"
  shows "\<exists>s'. kinit s = Ret s' \<and> kmem_wf s' \<and> set (free_list s') = {p. ram_page s p}
     \<and> unat (npage s') = card {p. ram_page s p}"
proof -
  from kinit_frees [OF assms] obtain s' where s': "kinit s = Ret s'" "kmem_wf s'"
    "set (free_list s') = {p. ram_page s p}" by blast
  have "unat (npage s') = card {p. ram_page s p}"
    using kmem_wfD(2,5) [OF s'(2)] distinct_card [of "free_list s'"] s'(3) by simp
  with s' show ?thesis by blast
qed

theorem kinit_ok_witness:
  "\<exists>s'. kinit one_page = Ret s' \<and> kmem_wf s' \<and> set (free_list s') = {p. ram_page one_page p}
     \<and> unat (npage s') = card {p. ram_page one_page p}"
  using kinit_ok [of one_page] by (simp add: one_page_def)

text \<open>(C11) \<^verbatim>\<open>kfree\<close> panics exactly on an address that is not a page of RAM above
  the kernel; otherwise freeing and allocating again returns that page, filled with the junk
  byte 5, and leaves the rest of memory as it was.\<close>

theorem kfree_kalloc:
  assumes "kmem_wf s" and "p \<notin> set (free_list s)"
  shows "(if ram_page s p
     then \<exists>s1 s2. kfree p s = Ret s1 \<and> kalloc s1 = (p, s2) \<and> free_list s2 = free_list s \<and>
       (\<forall>a. mem s2 a = (if PGROUNDDOWN a = p then 5 else mem s a))
     else kfree p s = Panic ''kfree'')"
proof (cases "ram_page s p")
  case True
  from kfree_refines [OF assms(1) True assms(2)] obtain s1 where s1: "kfree p s = Ret s1" "kmem_wf s1"
    "free_list s1 = p # free_list s" "same_outside {p} (mem s) (mem s1)" by metis
  from kalloc_refines [OF s1(2,3)] obtain s2 where s2: "kalloc s1 = (p, s2)"
    "free_list s2 = free_list s" "same_outside {p} (mem s1) (mem s2)"
    "\<And>a. PGROUNDDOWN a = p \<Longrightarrow> mem s2 a = 5" by metis
  then show ?thesis using True s1 s2 by (auto simp: same_outside_def)
next
  case False
  then show ?thesis using kfree_Ret_iff [of p s] by (auto simp: kfree_def Let_def split: if_splits)
qed


theorem kfree_kalloc_witness:
  "kmem_wf one_page \<and> 4096 \<notin> set (free_list one_page) \<and> kfree 4096 one_page = Panic ''kfree''"
  using kfree_kalloc [of one_page 4096] one_page_wf by (simp add: ram_page_def one_page_def)

end
