(* ===== verification/Vm.thy ===== *)
theory Vm
  imports Kalloc
begin

text \<open>
  \<^verbatim>\<open>kernel/vm.c\<close>: four-level page tables held in the pages of the allocator, and the
  copies between user and kernel memory. A page table is the address of its root page in the
  direct mapped window; every page table access is a load or store of the byte memory of
  \<^verbatim>\<open>kstate\<close>.

  A kernel buffer (\<^verbatim>\<open>char *\<close> on the kernel stack or in kernel data) that user memory is
  copied to or from is a list of bytes; \<open>copyout\<close> also takes its address, which it checks.
  Output of \<^verbatim>\<open>printf\<close> is not modelled, nor are the control registers
  (\<^verbatim>\<open>tlbinit\<close>, \<^verbatim>\<open>kvminithart\<close>).
\<close>

section \<open>Walking the page table\<close>

primrec walk_loop :: "nat \<Rightarrow> u64 \<Rightarrow> u64 \<Rightarrow> bool \<Rightarrow> kstate \<Rightarrow> u64 \<times> kstate" where
  "walk_loop 0 pagetable va alloc s = (pagetable + 8 * PX 0 va, s)"
| "walk_loop (Suc l) pagetable va alloc s =
     (let pte = pagetable + 8 * PX (Suc l) va; e = load64 (mem s) pte in
      if e AND PTE_V \<noteq> 0 then walk_loop l (PTE2PA e OR DMWIN_MASK) va alloc s
      else if \<not> alloc then (0, s)
      else case kalloc s of (p, s1) \<Rightarrow>
        if p = 0 then (0, s1)
        else
          let s2 = s1\<lparr>mem := memset (mem s1) p 0 4096\<rparr>;
              s3 = s2\<lparr>mem := store64 (mem s2) pte (PA2PTE p OR PTE_V OR DMWIN_MASK)\<rparr>
          in walk_loop l p va alloc s3)"

definition walk :: "u64 \<Rightarrow> u64 \<Rightarrow> bool \<Rightarrow> kstate \<Rightarrow> (u64 \<times> kstate) res" where
  "walk pagetable va alloc s =
     (if va AND DMWIN_MASK \<noteq> 0 then Ret (va, s)
      else if va \<ge> MAXVA then Panic ''walk''
      else Ret (walk_loop 3 pagetable va alloc s))"

text \<open>A \<^verbatim>\<open>walk\<close> that does not allocate does not change the state.\<close>

definition walkaddr :: "u64 \<Rightarrow> u64 \<Rightarrow> kstate \<Rightarrow> u64 res" where
  "walkaddr pagetable va s =
     (if va AND DMWIN_MASK \<noteq> 0 then Ret va
      else if va \<ge> MAXVA then Ret 0
      else bind_res (walk pagetable va False s) (\<lambda>(pte, _).
        if pte = 0 then Ret 0
        else let e = load64 (mem s) pte in
          if e AND PTE_V = 0 then Ret 0
          else if e AND PTE_PLV3 = 0 then Ret 0
          else Ret (PTE2PA e)))"

definition kwalkaddr :: "u64 \<Rightarrow> u64 \<Rightarrow> kstate \<Rightarrow> u64 res" where
  "kwalkaddr kpt va s =
     (let off = va mod PGSIZE in
      bind_res (walk kpt va False s) (\<lambda>(pte, _).
        if pte = 0 then Panic ''kvmpa''
        else let e = load64 (mem s) pte in
          if e AND PTE_V = 0 then Panic ''kvmpa''
          else Ret (PTE2PA e + off)))"

definition kvmpa :: "u64 \<Rightarrow> u64 \<Rightarrow> kstate \<Rightarrow> u64 res" where
  "kvmpa kernel_pagetable va s = kwalkaddr kernel_pagetable va s"

section \<open>Mapping and unmapping\<close>

definition leaf_pte :: "u64 \<Rightarrow> u32 \<Rightarrow> u64" where
  "leaf_pte pa perm = PA2PTE pa OR scast perm OR PTE_V OR PTE_MAT OR PTE_D"

text \<open>The endless loop of \<^verbatim>\<open>mappages\<close> leaves when \<^verbatim>\<open>a == last\<close>; its counter here is
  the number of pages from \<^verbatim>\<open>a\<close> to \<^verbatim>\<open>last\<close>, which is 0 exactly then.\<close>

primrec mappages_loop :: "nat \<Rightarrow> u64 \<Rightarrow> u64 \<Rightarrow> u64 \<Rightarrow> u32 \<Rightarrow> kstate \<Rightarrow> (int \<times> kstate) res" where
  "mappages_loop 0 pagetable a pa perm s =
     bind_res (walk pagetable a True s) (\<lambda>(pte, s1).
       if pte = 0 then Ret (-1, s1)
       else if load64 (mem s1) pte AND PTE_V \<noteq> 0 then Panic ''remap''
       else Ret (0, s1\<lparr>mem := store64 (mem s1) pte (leaf_pte pa perm)\<rparr>))"
| "mappages_loop (Suc k) pagetable a pa perm s =
     bind_res (walk pagetable a True s) (\<lambda>(pte, s1).
       if pte = 0 then Ret (-1, s1)
       else if load64 (mem s1) pte AND PTE_V \<noteq> 0 then Panic ''remap''
       else mappages_loop k pagetable (a + PGSIZE) (pa + PGSIZE) perm
              (s1\<lparr>mem := store64 (mem s1) pte (leaf_pte pa perm)\<rparr>))"

definition mappages :: "u64 \<Rightarrow> u64 \<Rightarrow> u64 \<Rightarrow> u64 \<Rightarrow> u32 \<Rightarrow> kstate \<Rightarrow> (int \<times> kstate) res" where
  "mappages pagetable va sz pa perm s =
     (if sz = 0 then Panic ''mappages: size == 0''
      else let a = PGROUNDDOWN va; last = PGROUNDDOWN (va + sz - 1) in
        mappages_loop (unat ((last - a) div PGSIZE)) pagetable a pa perm s)"

definition kvmmap :: "u64 \<Rightarrow> u64 \<Rightarrow> u64 \<Rightarrow> u64 \<Rightarrow> u32 \<Rightarrow> kstate \<Rightarrow> kstate res" where
  "kvmmap kernel_pagetable va pa sz perm s =
     bind_res (mappages kernel_pagetable va sz pa perm s) (\<lambda>(r, s1).
       if r \<noteq> 0 then Panic ''kvmmap'' else Ret s1)"

text \<open>The counter of \<open>vmunmap_loop\<close> is the number of steps of size \<^verbatim>\<open>PGSIZE\<close> from
  \<^verbatim>\<open>va\<close> to \<^verbatim>\<open>va + npages * PGSIZE\<close>.\<close>

primrec vmunmap_loop :: "nat \<Rightarrow> u64 \<Rightarrow> u64 \<Rightarrow> bool \<Rightarrow> kstate \<Rightarrow> kstate res" where
  "vmunmap_loop 0 pagetable a do_free s = Ret s"
| "vmunmap_loop (Suc k) pagetable a do_free s =
     bind_res (walk pagetable a False s) (\<lambda>(pte, _).
       if pte = 0 then Panic ''vmunmap: walk''
       else let e = load64 (mem s) pte in
         if e AND PTE_V = 0 then Panic ''vmunmap: not mapped''
         else if PTE_FLAGS e = PTE_V then Panic ''vmunmap: not a leaf''
         else bind_res (if do_free then kfree (PTE2PA e OR DMWIN_MASK) s else Ret s) (\<lambda>s1.
           vmunmap_loop k pagetable (a + PGSIZE) do_free (s1\<lparr>mem := store64 (mem s1) pte 0\<rparr>)))"

definition vmunmap :: "u64 \<Rightarrow> u64 \<Rightarrow> u64 \<Rightarrow> bool \<Rightarrow> kstate \<Rightarrow> kstate res" where
  "vmunmap pagetable va npages do_free s =
     (if va mod PGSIZE \<noteq> 0 then Panic ''vmunmap: not aligned''
      else let stop = va + npages * PGSIZE in
        vmunmap_loop (if va < stop then unat ((stop - va) div PGSIZE) else 0) pagetable va do_free s)"

definition uvmcreate :: "kstate \<Rightarrow> u64 \<times> kstate" where
  "uvmcreate s =
     (case kalloc s of (p, s1) \<Rightarrow>
        if p = 0 then (0, s1) else (p, s1\<lparr>mem := memset (mem s1) p 0 4096\<rparr>))"

section \<open>User memory\<close>

definition uvm_perm :: u32 where
  "uvm_perm = ucast (PTE_P OR PTE_PLV3 OR PTE_W OR PTE_D OR PTE_MAT)"

primrec uvminit_loop :: "nat \<Rightarrow> u64 \<Rightarrow> u64 \<Rightarrow> u64 \<Rightarrow> kstate \<Rightarrow> kstate res" where
  "uvminit_loop 0 pagetable src i s = Ret s"
| "uvminit_loop (Suc k) pagetable src i s =
     (case kalloc s of (p, s1) \<Rightarrow>
        bind_res (mappages pagetable i PGSIZE p uvm_perm (s1\<lparr>mem := memset (mem s1) p 0 4096\<rparr>))
          (\<lambda>(_, s2). uvminit_loop k pagetable src (i + PGSIZE)
             (s2\<lparr>mem := memmove (mem s2) p (src + i) 4096\<rparr>)))"

text \<open>The loop of \<^verbatim>\<open>uvminit\<close> runs while \<^verbatim>\<open>i + PGSIZE < sz\<close>, that is
  \<open>(sz - 1) div PGSIZE\<close> times.\<close>

definition uvminit :: "u64 \<Rightarrow> u64 \<Rightarrow> u32 \<Rightarrow> kstate \<Rightarrow> kstate res" where
  "uvminit pagetable src sz s =
     (let k = (unat sz - 1) div 4096; i = of_nat (k * 4096) in
      bind_res (uvminit_loop k pagetable src 0 s) (\<lambda>s0.
        case kalloc s0 of (p, s1) \<Rightarrow>
          bind_res (mappages pagetable i PGSIZE p uvm_perm (s1\<lparr>mem := memset (mem s1) p 0 4096\<rparr>))
            (\<lambda>(_, s2). Ret (s2\<lparr>mem := memmove (mem s2) p (src + i) (sz mod 4096)\<rparr>))))"

text \<open>\<^verbatim>\<open>int npages\<close>: the number of pages is truncated to 32 bits and sign extended
  when it is passed on.\<close>

definition int_npages :: "u64 \<Rightarrow> u64" where
  "int_npages n = scast (ucast n :: u32)"

definition uvmdealloc :: "u64 \<Rightarrow> u64 \<Rightarrow> u64 \<Rightarrow> kstate \<Rightarrow> (u64 \<times> kstate) res" where
  "uvmdealloc pagetable oldsz newsz s =
     (if newsz \<ge> oldsz then Ret (oldsz, s)
      else if PGROUNDUP newsz < PGROUNDUP oldsz
      then let npages = int_npages ((PGROUNDUP oldsz - PGROUNDUP newsz) div PGSIZE) in
        bind_res (vmunmap pagetable (PGROUNDUP newsz) npages True s) (\<lambda>s1. Ret (newsz, s1))
      else Ret (newsz, s))"

definition uvmdealloc1 :: "u64 \<Rightarrow> u64 \<Rightarrow> u64 \<Rightarrow> kstate \<Rightarrow> (u64 \<times> kstate) res" where
  "uvmdealloc1 pagetable start stop s =
     (if start \<ge> stop then Ret (-1, s)
      else if PGROUNDUP start \<le> PGROUNDUP stop
      then let npages = int_npages ((PGROUNDUP stop - PGROUNDUP start) div PGSIZE) in
        bind_res (vmunmap pagetable (PGROUNDUP start) npages True s) (\<lambda>s1. Ret (0, s1))
      else Ret (0, s))"

text \<open>The loops of \<^verbatim>\<open>uvmalloc\<close> and \<^verbatim>\<open>uvmalloc1\<close> run while \<^verbatim>\<open>a\<close> is below the
  limit; a limit within a page of $2^{64}$ would make \<^verbatim>\<open>a += PGSIZE\<close> wrap, but
  \<open>mappages\<close> panics long before that, at \<^verbatim>\<open>MAXVA\<close>. The counters are the numbers of pages
  below the limit.\<close>

definition pages_below :: "u64 \<Rightarrow> u64 \<Rightarrow> nat" where
  "pages_below a limit = (if a < limit then (unat (limit - a) + 4095) div 4096 else 0)"

primrec uvmalloc_loop ::
  "nat \<Rightarrow> u64 \<Rightarrow> u64 \<Rightarrow> u64 \<Rightarrow> u64 \<Rightarrow> u32 \<Rightarrow> kstate \<Rightarrow> (u64 \<times> kstate) res" where
  "uvmalloc_loop 0 pagetable a oldsz newsz perm s = Ret (newsz, s)"
| "uvmalloc_loop (Suc k) pagetable a oldsz newsz perm s =
     (case kalloc s of (p, s1) \<Rightarrow>
        if p = 0 then bind_res (uvmdealloc pagetable a oldsz s1) (\<lambda>(_, s2). Ret (0, s2))
        else bind_res (mappages pagetable a PGSIZE p (perm OR ucast PTE_PLV3)
                         (s1\<lparr>mem := memset (mem s1) p 0 4096\<rparr>))
          (\<lambda>(r, s2).
             if r \<noteq> 0
             then bind_res (kfree p s2) (\<lambda>s3.
                    bind_res (uvmdealloc pagetable a oldsz s3) (\<lambda>(_, s4). Ret (0, s4)))
             else uvmalloc_loop k pagetable (a + PGSIZE) oldsz newsz perm s2))"

definition uvmalloc :: "u64 \<Rightarrow> u64 \<Rightarrow> u64 \<Rightarrow> u32 \<Rightarrow> kstate \<Rightarrow> (u64 \<times> kstate) res" where
  "uvmalloc pagetable oldsz newsz perm s =
     (if newsz < oldsz then Ret (oldsz, s)
      else let oldsz = PGROUNDUP oldsz in
        uvmalloc_loop (pages_below oldsz newsz) pagetable oldsz oldsz newsz perm s)"

primrec uvmalloc1_loop ::
  "nat \<Rightarrow> u64 \<Rightarrow> u64 \<Rightarrow> u64 \<Rightarrow> u32 \<Rightarrow> kstate \<Rightarrow> (u64 \<times> kstate) res" where
  "uvmalloc1_loop 0 pagetable a start perm s = Ret (0, s)"
| "uvmalloc1_loop (Suc k) pagetable a start perm s =
     (case kalloc s of (p, s1) \<Rightarrow>
        if p = 0 then bind_res (uvmdealloc1 pagetable start a s1) (\<lambda>(_, s2). Ret (-1, s2))
        else bind_res (mappages pagetable a PGSIZE p perm (s1\<lparr>mem := memset (mem s1) p 0 4096\<rparr>))
          (\<lambda>(r, s2).
             if r \<noteq> 0
             then bind_res (kfree p s2) (\<lambda>s3.
                    bind_res (uvmdealloc1 pagetable start a s3) (\<lambda>(_, s4). Ret (-1, s4)))
             else uvmalloc1_loop k pagetable (a + PGSIZE) start perm s2))"

definition uvmalloc1 :: "u64 \<Rightarrow> u64 \<Rightarrow> u64 \<Rightarrow> u32 \<Rightarrow> kstate \<Rightarrow> (u64 \<times> kstate) res" where
  "uvmalloc1 pagetable start stop perm s =
     (if start \<ge> stop then Ret (-1, s)
      else uvmalloc1_loop (pages_below start stop) pagetable start start perm s)"

text \<open>The recursion of \<^verbatim>\<open>freewalk\<close> follows the page table; its depth is bounded by the first
  argument, and the result is \<open>Stuck\<close> when the bound is reached. Four levels need the bound 4.\<close>

primrec freewalk_loop :: "nat \<Rightarrow> nat \<Rightarrow> (u64 \<Rightarrow> kstate \<Rightarrow> kstate res) \<Rightarrow> u64 \<Rightarrow> kstate \<Rightarrow> kstate res" where
  "freewalk_loop 0 i rec pagetable s = Ret s"
| "freewalk_loop (Suc k) i rec pagetable s =
     (let slot = pagetable + 8 * of_nat i; pte = load64 (mem s) slot in
      if pte AND PTE_V \<noteq> 0 \<and> PTE_FLAGS pte = PTE_V
      then bind_res (rec (PTE2PA pte OR DMWIN_MASK) s) (\<lambda>s1.
        freewalk_loop k (i + 1) rec pagetable (s1\<lparr>mem := store64 (mem s1) slot 0\<rparr>))
      else freewalk_loop k (i + 1) rec pagetable s)"

primrec freewalk :: "nat \<Rightarrow> u64 \<Rightarrow> kstate \<Rightarrow> kstate res" where
  "freewalk 0 pagetable s = Stuck"
| "freewalk (Suc d) pagetable s =
     bind_res (freewalk_loop 512 0 (freewalk d) pagetable s) (kfree pagetable)"

definition uvmfree :: "u64 \<Rightarrow> u64 \<Rightarrow> kstate \<Rightarrow> kstate res" where
  "uvmfree pagetable sz s =
     bind_res (if sz > 0 then vmunmap pagetable 0 (PGROUNDUP sz div PGSIZE) True s else Ret s)
       (freewalk 4 pagetable)"

text \<open>\<^verbatim>\<open>uint flags\<close>: the flags of the copied entry are truncated to 32 bits.\<close>

primrec uvmcopy_loop :: "nat \<Rightarrow> u64 \<Rightarrow> u64 \<Rightarrow> u64 \<Rightarrow> kstate \<Rightarrow> (int \<times> kstate) res" where
  "uvmcopy_loop 0 old new i s = Ret (0, s)"
| "uvmcopy_loop (Suc k) old new i s =
     bind_res (walk old i False s) (\<lambda>(pte, _).
       if pte = 0 then Panic ''uvmcopy: pte should exist''
       else let e = load64 (mem s) pte in
         if e AND PTE_V = 0 then Panic ''uvmcopy: page not present''
         else let pa = PTE2PA e; flags = ucast (PTE_FLAGS e) :: u32 in
           case kalloc s of (p, s1) \<Rightarrow>
             if p = 0
             then bind_res (vmunmap new 0 (i div PGSIZE) True s1) (\<lambda>s2. Ret (-1, s2))
             else bind_res (mappages new i PGSIZE p flags
                             (s1\<lparr>mem := memmove (mem s1) p (pa OR DMWIN_MASK) 4096\<rparr>))
               (\<lambda>(r, s2).
                  if r \<noteq> 0
                  then bind_res (kfree p s2) (\<lambda>s3.
                         bind_res (vmunmap new 0 (i div PGSIZE) True s3) (\<lambda>s4. Ret (-1, s4)))
                  else uvmcopy_loop k old new (i + PGSIZE) s2))"

definition uvmcopy :: "u64 \<Rightarrow> u64 \<Rightarrow> u64 \<Rightarrow> kstate \<Rightarrow> (int \<times> kstate) res" where
  "uvmcopy old new sz s = uvmcopy_loop (pages_below 0 sz) old new 0 s"

definition uvmclear :: "u64 \<Rightarrow> u64 \<Rightarrow> kstate \<Rightarrow> kstate res" where
  "uvmclear pagetable va s =
     bind_res (walk pagetable va False s) (\<lambda>(pte, _).
       if pte = 0 then Panic ''uvmclear''
       else Ret (s\<lparr>mem := store64 (mem s) pte (load64 (mem s) pte AND NOT PTE_PLV3)\<rparr>))"

definition experm :: "u64 \<Rightarrow> u64 \<Rightarrow> u64 \<Rightarrow> kstate \<Rightarrow> (u64 \<times> kstate) res" where
  "experm pagetable va perm s =
     (if va \<ge> MAXVA then Ret (0, s)
      else bind_res (walk pagetable va False s) (\<lambda>(pte, _).
        if pte = 0 then Ret (0, s)
        else let e = load64 (mem s) pte in
          if e AND PTE_V = 0 then Ret (0, s)
          else if e AND PTE_PLV3 = 0 then Ret (0, s)
          else Ret (PTE2PA (e OR perm), s\<lparr>mem := store64 (mem s) pte (e OR perm)\<rparr>)))"

section \<open>Copies between user and kernel memory\<close>

definition page_chunk :: "u64 \<Rightarrow> u64 \<Rightarrow> u64" where
  "page_chunk va len =
     (let va0 = PGROUNDDOWN va; n = PGSIZE - (va - va0) in if n > len then len else n)"

lemma page_chunk_pos: "len > 0 \<Longrightarrow> page_chunk va len > 0"
proof -
  have "va - PGROUNDDOWN va < 4096" by (simp add: PGROUNDDOWN_offset(1))
  then have "4096 - (va - PGROUNDDOWN va) > 0" by uint_arith
  then show "len > 0 \<Longrightarrow> page_chunk va len > 0" by (simp add: page_chunk_def Let_def)
qed

lemma page_chunk_le: "page_chunk va len \<le> len"
  by (auto simp: page_chunk_def Let_def not_less)

lemmas chunk_decreases = word_diff_less_u64 [OF page_chunk_pos page_chunk_le]

function copyout_loop :: "u64 \<Rightarrow> u64 \<Rightarrow> u8 list \<Rightarrow> u64 \<Rightarrow> kstate \<Rightarrow> (int \<times> kstate) res" where
  "copyout_loop pagetable dstva src len s =
     (if len > 0
      then let va0 = PGROUNDDOWN dstva in
        bind_res (walkaddr pagetable va0 s) (\<lambda>pa0.
          if pa0 = 0 then Ret (-1, s)
          else let n = page_chunk dstva len;
                   d = (pa0 + (dstva - va0)) OR DMWIN_MASK in
            copyout_loop pagetable (va0 + PGSIZE) (drop (unat n) src) (len - n)
              (s\<lparr>mem := write_bytes (mem s) d (take (unat n) src)\<rparr>))
      else Ret (0, s))"
  by pat_completeness auto
termination
  by (relation "measure (\<lambda>(pt, d, src, len, s). unat len)")
    (auto simp: chunk_decreases word_less_nat_alt [symmetric])

declare copyout_loop.simps [simp del]

text \<open>\<^verbatim>\<open>src\<close> is compared with the lowest kernel stack before anything is copied.\<close>

definition copyout :: "u64 \<Rightarrow> u64 \<Rightarrow> u64 \<Rightarrow> u8 list \<Rightarrow> u64 \<Rightarrow> kstate \<Rightarrow> (int \<times> kstate) res" where
  "copyout pagetable dstva src bytes len s =
     (if dstva > MAXVA then Panic ''copyout: dstva > MAXVA''
      else if src < PROCVKSTACK (NPROC - 1) then Panic ''copyout: src < KSTACK''
      else copyout_loop pagetable dstva bytes len s)"

function copyin_loop :: "u64 \<Rightarrow> u64 \<Rightarrow> u64 \<Rightarrow> u8 list \<Rightarrow> kstate \<Rightarrow> (int \<times> u8 list) res" where
  "copyin_loop pagetable srcva len dst s =
     (if len > 0
      then let va0 = PGROUNDDOWN srcva in
        bind_res (walkaddr pagetable va0 s) (\<lambda>pa0.
          if pa0 = 0 then Ret (-1, dst)
          else let n = page_chunk srcva len;
                   a = (pa0 + (srcva - va0)) OR DMWIN_MASK in
            copyin_loop pagetable (va0 + PGSIZE) (len - n) (dst @ read_bytes (mem s) a (unat n)) s)
      else Ret (0, dst))"
  by pat_completeness auto
termination
  by (relation "measure (\<lambda>(pt, a, len, d, s). unat len)")
    (auto simp: chunk_decreases word_less_nat_alt [symmetric])

declare copyin_loop.simps [simp del]

definition copyin :: "u64 \<Rightarrow> u64 \<Rightarrow> u64 \<Rightarrow> kstate \<Rightarrow> (int \<times> u8 list) res" where
  "copyin pagetable srcva len s =
     (if srcva > MAXVA \<and> srcva AND DMWIN_MASK \<noteq> 0
      then Panic ''copyin: srcva > MAXVA & srcva is not in 0x9000(x)''
      else copyin_loop pagetable srcva len [] s)"

primrec copyinstr_page :: "nat \<Rightarrow> u64 \<Rightarrow> u8 list \<Rightarrow> kstate \<Rightarrow> bool \<times> u8 list" where
  "copyinstr_page 0 p dst s = (False, dst)"
| "copyinstr_page (Suc n) p dst s =
     (if mem s p = 0 then (True, dst @ [0]) else copyinstr_page n (p + 1) (dst @ [mem s p]) s)"

function copyinstr_loop :: "u64 \<Rightarrow> u64 \<Rightarrow> u64 \<Rightarrow> u8 list \<Rightarrow> kstate \<Rightarrow> (int \<times> u8 list) res" where
  "copyinstr_loop pagetable srcva max_len dst s =
     (if max_len > 0
      then let va0 = PGROUNDDOWN srcva in
        bind_res (walkaddr pagetable va0 s) (\<lambda>pa0.
          if pa0 = 0 then Ret (-1, dst)
          else let n = page_chunk srcva max_len;
                   p = (pa0 + (srcva - va0)) OR DMWIN_MASK in
            case copyinstr_page (unat n) p dst s of (got_null, dst') \<Rightarrow>
              if got_null then Ret (0, dst')
              else copyinstr_loop pagetable (va0 + PGSIZE) (max_len - n) dst' s)
      else Ret (-1, dst))"
  by pat_completeness auto
termination
  by (relation "measure (\<lambda>(pt, a, len, d, s). unat len)")
    (auto simp: chunk_decreases word_less_nat_alt [symmetric])

declare copyinstr_loop.simps [simp del]

definition copyinstr :: "u64 \<Rightarrow> u64 \<Rightarrow> u64 \<Rightarrow> kstate \<Rightarrow> (int \<times> u8 list) res" where
  "copyinstr pagetable srcva max_len s = copyinstr_loop pagetable srcva max_len [] s"

text \<open>\<^verbatim>\<open>either_copyout\<close> and \<^verbatim>\<open>either_copyin\<close> of \<^verbatim>\<open>kernel/proc.c\<close>, with the page table of the current
  process as an argument.\<close>

definition either_copyout ::
  "u64 \<Rightarrow> bool \<Rightarrow> u64 \<Rightarrow> u64 \<Rightarrow> u8 list \<Rightarrow> u64 \<Rightarrow> kstate \<Rightarrow> (int \<times> kstate) res" where
  "either_copyout pagetable user_dst dst src bytes len s =
     (if user_dst then copyout pagetable dst src bytes len s
      else Ret (0, s\<lparr>mem := write_bytes (mem s) dst (take (unat len) bytes)\<rparr>))"

definition either_copyin :: "u64 \<Rightarrow> bool \<Rightarrow> u64 \<Rightarrow> u64 \<Rightarrow> kstate \<Rightarrow> (int \<times> u8 list) res" where
  "either_copyin pagetable user_src src len s =
     (if user_src then copyin pagetable src len s
      else Ret (0, read_bytes (mem s) src (unat len)))"

section \<open>The kernel page table\<close>

text \<open>The loop of \<^verbatim>\<open>proc_mapstacks\<close> (\<^verbatim>\<open>kernel/proc.c\<close>) over the six pages of one kernel stack.
  \<^verbatim>\<open>PTE_NX\<close> does not fit in the \<^verbatim>\<open>int perm\<close> of \<open>mappages\<close> and is lost.\<close>

definition kstack_perm :: u32 where
  "kstack_perm = ucast (PTE_NX OR PTE_P OR PTE_W OR PTE_MAT OR PTE_D OR PTE_PLV3)"

primrec map_kstack :: "nat \<Rightarrow> nat \<Rightarrow> u64 \<Rightarrow> u64 \<Rightarrow> kstate \<Rightarrow> kstate res" where
  "map_kstack 0 i kpgtbl va s = Ret s"
| "map_kstack (Suc k) i kpgtbl va s =
     (case kalloc s of (pa, s1) \<Rightarrow>
        if pa = 0 then Panic ''kalloc''
        else bind_res (mappages kpgtbl (va + of_nat i * PGSIZE) PGSIZE pa kstack_perm
                         (s1\<lparr>mem := memset (mem s1) pa 0 4096\<rparr>))
          (\<lambda>(r, s2). if r \<noteq> 0 then Panic ''kvmmap'' else map_kstack k (i + 1) kpgtbl va s2))"

primrec proc_mapstacks_loop :: "nat \<Rightarrow> nat \<Rightarrow> u64 \<Rightarrow> kstate \<Rightarrow> kstate res" where
  "proc_mapstacks_loop 0 n kpgtbl s = Ret s"
| "proc_mapstacks_loop (Suc k) n kpgtbl s =
     bind_res (map_kstack (unat (KSTACKSIZE div PGSIZE)) 0 kpgtbl (PROCVKSTACK n) s)
       (\<lambda>s1. proc_mapstacks_loop k (n + 1) kpgtbl s1)"

definition proc_mapstacks :: "u64 \<Rightarrow> kstate \<Rightarrow> kstate res" where
  "proc_mapstacks kpgtbl s = proc_mapstacks_loop NPROC 0 kpgtbl s"

text \<open>\<^verbatim>\<open>trampoline\<close> and \<^verbatim>\<open>signalTrampoline\<close> are symbols of the assembly sources.\<close>

definition kvminit :: "u64 \<Rightarrow> u64 \<Rightarrow> kstate \<Rightarrow> (u64 \<times> kstate) res" where
  "kvminit trampoline signalTrampoline s =
     (case kalloc s of (kpt, s1) \<Rightarrow>
        let perm = ucast (PTE_MAT OR PTE_D OR PTE_P) in
        bind_res (kvmmap kpt TRAMPOLINE trampoline PGSIZE perm
                    (s1\<lparr>mem := memset (mem s1) kpt 0 4096\<rparr>)) (\<lambda>s2.
          bind_res (kvmmap kpt SIGTRAMPOLINE signalTrampoline PGSIZE perm s2) (\<lambda>s3.
            bind_res (proc_mapstacks kpt s3) (\<lambda>s4. Ret (kpt, s4)))))"

end
