(* ===== verification/Pagetable.thy ===== *)
theory Pagetable
  imports Vm
begin

text \<open>
  The page table invariant and the refinement of \<^verbatim>\<open>kernel/vm.c\<close> by an abstract map.
  \<open>pt_pages\<close> is the set of pages a table occupies and \<open>pt_tree\<close> says that they form a tree
  without sharing; \<open>leaf\<close> is the abstract content: the leaf entry of a virtual address, 0 when
  the path to it does not exist. \<open>walk\<close> with allocation keeps the content, a store into a
  leaf slot changes it at one page, and from these follow the laws of the mapping operations.
\<close>

section \<open>Invariant and abstraction\<close>

definition pte_at :: "memory \<Rightarrow> u64 \<Rightarrow> u64 \<Rightarrow> u64" where
  "pte_at m pt i = load64 m (pt + 8 * i)"

definition pvalid :: "u64 \<Rightarrow> bool" where
  "pvalid e \<longleftrightarrow> e AND PTE_V \<noteq> 0"

primrec pt_pages :: "nat \<Rightarrow> memory \<Rightarrow> u64 \<Rightarrow> u64 set" where
  "pt_pages 0 m pt = {pt}"
| "pt_pages (Suc l) m pt =
     insert pt (\<Union>i \<in> {i. i < 512 \<and> pvalid (pte_at m pt i)}. pt_pages l m (PTE2PA (pte_at m pt i)))"

primrec pt_tree :: "nat \<Rightarrow> memory \<Rightarrow> u64 \<Rightarrow> bool" where
  "pt_tree 0 m pt \<longleftrightarrow> page_aligned pt"
| "pt_tree (Suc l) m pt \<longleftrightarrow> page_aligned pt
     \<and> (\<forall>i < 512. pvalid (pte_at m pt i) \<longrightarrow>
          pt_tree l m (PTE2PA (pte_at m pt i)) \<and> pt \<notin> pt_pages l m (PTE2PA (pte_at m pt i)))
     \<and> (\<forall>i < 512. \<forall>j < 512. i \<noteq> j \<longrightarrow> pvalid (pte_at m pt i) \<longrightarrow> pvalid (pte_at m pt j) \<longrightarrow>
          pt_pages l m (PTE2PA (pte_at m pt i)) \<inter> pt_pages l m (PTE2PA (pte_at m pt j)) = {})"

primrec slot :: "nat \<Rightarrow> memory \<Rightarrow> u64 \<Rightarrow> u64 \<Rightarrow> u64 option" where
  "slot 0 m pt va = Some (pt + 8 * PX 0 va)"
| "slot (Suc l) m pt va =
     (let e = pte_at m pt (PX (Suc l) va) in if pvalid e then slot l m (PTE2PA e) va else None)"

definition leaf :: "nat \<Rightarrow> memory \<Rightarrow> u64 \<Rightarrow> u64 \<Rightarrow> u64" where
  "leaf l m pt va = (case slot l m pt va of None \<Rightarrow> 0 | Some a \<Rightarrow> load64 m a)"

definition same_path :: "nat \<Rightarrow> u64 \<Rightarrow> u64 \<Rightarrow> bool" where
  "same_path l va vb \<longleftrightarrow> (\<forall>k \<le> l. PX k va = PX k vb)"

section \<open>Entries of one page\<close>

lemma PTE2PA_dmw [simp]: "PTE2PA e OR DMWIN_MASK = PTE2PA e"
  by (simp add: PTE2PA_def or.assoc del: DMWIN_MASK_def)

lemmas PTE2PA_window [simp] = PTE2PA_dmw [unfolded DMWIN_MASK_def]

lemma entry_offset:
  fixes i :: u64
  assumes "i < 512"
  shows "8 * i < 4096" "(8 * i) mod 8 = 0" "unat (8 * i) = 8 * unat i"
proof -
  have i: "unat i < 512" using assms by (simp add: word_less_nat_alt)
  then show u: "unat (8 * i) = 8 * unat i" by (simp add: unat_word_ariths)
  then show "8 * i < 4096" using i by (simp add: word_less_nat_alt)
  show "(8 * i) mod 8 = 0" by (simp add: word_unat_eq_iff unat_mod_distrib u)
qed

lemma entry_distinct:
  fixes i j :: u64
  assumes "i < 512" and "j < 512" and "i \<noteq> j"
  shows "8 \<le> 8 * j - 8 * i"
proof -
  have ij: "unat i < 512" "unat j < 512" "unat i \<noteq> unat j"
    using assms by (auto simp: word_less_nat_alt word_unat_eq_iff)
  then show ?thesis
    using entry_offset(3) [OF assms(1)] entry_offset(3) [OF assms(2)]
    by (auto simp: word_le_nat_alt unat_sub_if_size word_size)
qed

lemma pte_at_store:
  assumes "i < 512" and "j < 512"
  shows "pte_at (store64 m (pt + 8 * i) v) pt j = (if i = j then v else pte_at m pt j)"
  using entry_distinct [OF assms] entry_distinct [OF assms(2,1)]
  by (auto simp: pte_at_def intro!: load64_store64_other)

lemma pte_at_same_outside:
  "same_outside ps m m' \<Longrightarrow> page_aligned pt \<Longrightarrow> pt \<notin> ps \<Longrightarrow> i < 512 \<Longrightarrow> pte_at m' pt i = pte_at m pt i"
  by (simp add: pte_at_def load64_same_outside entry_offset)

lemma same_outside_entry:
  "page_aligned pt \<Longrightarrow> i < 512 \<Longrightarrow> same_outside {pt} m (store64 m (pt + 8 * i) v)"
  by (simp add: same_outside_store64 entry_offset)

section \<open>Structure of the tree\<close>

lemma root_in_pt_pages [simp]: "pt \<in> pt_pages l m pt"
  by (cases l) auto

lemma pt_tree_aligned: "pt_tree l m pt \<Longrightarrow> page_aligned pt"
  by (cases l) auto

lemma pt_tree_child:
  "pt_tree (Suc l) m pt \<Longrightarrow> i < 512 \<Longrightarrow> pvalid (pte_at m pt i) \<Longrightarrow>
     pt_tree l m (PTE2PA (pte_at m pt i)) \<and> pt \<notin> pt_pages l m (PTE2PA (pte_at m pt i))
     \<and> pt_pages l m (PTE2PA (pte_at m pt i)) \<subseteq> pt_pages (Suc l) m pt"
  by auto

lemma pt_pages_aligned: "pt_tree l m pt \<Longrightarrow> p \<in> pt_pages l m pt \<Longrightarrow> page_aligned p"
  by (induction l arbitrary: pt) auto

lemma pt_frame:
  assumes "same_outside ps m m'" and "pt_tree l m pt" and "pt_pages l m pt \<inter> ps = {}"
  shows "pt_pages l m' pt = pt_pages l m pt \<and> pt_tree l m' pt \<and> (\<forall>va. slot l m' pt va = slot l m pt va)"
  using assms
proof (induction l arbitrary: pt)
  case (Suc l)
  have al: "page_aligned pt" "pt \<notin> ps" using Suc.prems by auto
  note e = pte_at_same_outside [OF Suc.prems(1) al]
  have c: "pt_pages l m' (PTE2PA (pte_at m pt i)) = pt_pages l m (PTE2PA (pte_at m pt i))
      \<and> pt_tree l m' (PTE2PA (pte_at m pt i))
      \<and> (\<forall>va. slot l m' (PTE2PA (pte_at m pt i)) va = slot l m (PTE2PA (pte_at m pt i)) va)"
    if "i < 512" "pvalid (pte_at m pt i)" for i
    using pt_tree_child [OF Suc.prems(2) that] Suc.prems(3) by (intro Suc.IH [OF Suc.prems(1)]) blast+
  have "pt_pages (Suc l) m' pt = pt_pages (Suc l) m pt" using c by (auto simp: e)
  moreover have "pt_tree (Suc l) m' pt" using c Suc.prems(2) by (simp add: e)
  moreover have "slot (Suc l) m' pt va = slot (Suc l) m pt va" for va
    using c by (simp add: e Let_def)
  ultimately show ?case by blast
qed simp

lemma slot_page:
  "slot l m pt va = Some a \<Longrightarrow> \<exists>p \<in> pt_pages l m pt. a = p + 8 * PX 0 va"
proof (induction l arbitrary: pt)
  case (Suc l)
  then have v: "pvalid (pte_at m pt (PX (Suc l) va))" by (auto simp: Let_def split: if_splits)
  with Suc obtain p where "p \<in> pt_pages l m (PTE2PA (pte_at m pt (PX (Suc l) va)))" "a = p + 8 * PX 0 va"
    by (auto simp: Let_def)
  with v show ?case by auto
qed simp

lemma slot_in_page:
  "pt_tree l m pt \<Longrightarrow> slot l m pt va = Some a \<Longrightarrow>
     PGROUNDDOWN a \<in> pt_pages l m pt \<and> same_outside {PGROUNDDOWN a} m (store64 m a v)"
  using slot_page [of l m pt va a] pt_pages_aligned [of l m pt]
  by (auto simp: PGROUNDDOWN_add entry_offset same_outside_entry)

lemma leaf_frame:
  assumes "same_outside ps m m'" and "pt_tree l m pt" and "pt_pages l m pt \<inter> ps = {}"
  shows "leaf l m' pt va = leaf l m pt va"
proof (cases "slot l m pt va")
  case None
  then show ?thesis using pt_frame [OF assms] by (simp add: leaf_def)
next
  case (Some a)
  then obtain p where p: "p \<in> pt_pages l m pt" "a = p + 8 * PX 0 va" using slot_page by blast
  then have "page_aligned p" "p \<notin> ps" using assms(3) pt_pages_aligned [OF assms(2)] by auto
  then have "load64 m' a = load64 m a"
    using pte_at_same_outside [OF assms(1), of p "PX 0 va"] p(2) by (simp add: pte_at_def)
  then show ?thesis using Some pt_frame [OF assms] by (simp add: leaf_def)
qed


lemma leaf_0: "leaf 0 m pt va = pte_at m pt (PX 0 va)"
  by (simp add: leaf_def pte_at_def)

lemma leaf_Suc:
  "leaf (Suc l) m pt va =
     (let e = pte_at m pt (PX (Suc l) va) in if pvalid e then leaf l m (PTE2PA e) va else 0)"
  by (simp add: leaf_def Let_def)

lemma same_path_0 [simp]: "same_path 0 va vb \<longleftrightarrow> PX 0 va = PX 0 vb"
  by (simp add: same_path_def)

lemma same_path_Suc: "same_path (Suc l) va vb \<longleftrightarrow> PX (Suc l) va = PX (Suc l) vb \<and> same_path l va vb"
  by (auto simp: same_path_def le_Suc_eq)

lemma same_path_3: "va < MAXVA \<Longrightarrow> vb < MAXVA \<Longrightarrow> same_path 3 va vb \<longleftrightarrow> PGROUNDDOWN va = PGROUNDDOWN vb"
  by (simp only: same_path_def PX_all_eq_iff)

section \<open>Replacing one subtree\<close>

text \<open>The pages of the subtrees below \<open>pt\<close> other than the one of index \<open>i\<close>.\<close>

definition siblings :: "nat \<Rightarrow> memory \<Rightarrow> u64 \<Rightarrow> u64 \<Rightarrow> u64 set" where
  "siblings l m pt i =
     (\<Union>j \<in> {j. j < 512 \<and> j \<noteq> i \<and> pvalid (pte_at m pt j)}. pt_pages l m (PTE2PA (pte_at m pt j)))"

lemma pt_pages_split:
  "i < 512 \<Longrightarrow> pt_pages (Suc l) m pt = insert pt (siblings l m pt i \<union>
     (if pvalid (pte_at m pt i) then pt_pages l m (PTE2PA (pte_at m pt i)) else {}))"
  by (auto simp: siblings_def)

lemma siblings_disjoint:
  "pt_tree (Suc l) m pt \<Longrightarrow> i < 512 \<Longrightarrow> pvalid (pte_at m pt i) \<Longrightarrow>
     siblings l m pt i \<inter> pt_pages l m (PTE2PA (pte_at m pt i)) = {}"
  by (fastforce simp: siblings_def)

lemma graft:
  assumes tree: "pt_tree (Suc l) m pt" and i: "i < 512" and so: "same_outside ps m m'"
    and e: "\<And>j. j < 512 \<Longrightarrow> j \<noteq> i \<Longrightarrow> pte_at m' pt j = pte_at m pt j"
    and sib: "siblings l m pt i \<inter> ps = {}"
    and v: "pvalid (pte_at m' pt i)" and c: "PTE2PA (pte_at m' pt i) = c"
    and tc: "pt_tree l m' c" and pc: "pt \<notin> pt_pages l m' c" "pt_pages l m' c \<subseteq> ps"
  shows "pt_tree (Suc l) m' pt"
    and "pt_pages (Suc l) m' pt = insert pt (siblings l m pt i \<union> pt_pages l m' c)"
    and "slot (Suc l) m' pt vb =
           (if PX (Suc l) vb = i then slot l m' c vb else slot (Suc l) m pt vb)"
    and "leaf (Suc l) m' pt vb =
           (if PX (Suc l) vb = i then leaf l m' c vb else leaf (Suc l) m pt vb)"
proof -
  let ?c = "\<lambda>j. PTE2PA (pte_at m pt j)"
  have other: "pt_pages l m' (?c j) = pt_pages l m (?c j)" "pt_tree l m' (?c j)"
    "\<And>vb. slot l m' (?c j) vb = slot l m (?c j) vb" "\<And>vb. leaf l m' (?c j) vb = leaf l m (?c j) vb"
    "pt_pages l m (?c j) \<inter> ps = {}"
    if j: "j < 512" "j \<noteq> i" "pvalid (pte_at m pt j)" for j
  proof -
    have t: "pt_tree l m (?c j)" using pt_tree_child [OF tree j(1,3)] by simp
    show d: "pt_pages l m (?c j) \<inter> ps = {}" using sib j by (auto simp: siblings_def)
    show "pt_pages l m' (?c j) = pt_pages l m (?c j)" "pt_tree l m' (?c j)"
      "\<And>vb. slot l m' (?c j) vb = slot l m (?c j) vb" "\<And>vb. leaf l m' (?c j) vb = leaf l m (?c j) vb"
      using pt_frame [OF so t d] leaf_frame [OF so t d] by auto
  qed
  have "siblings l m' pt i = siblings l m pt i" using other(1) by (auto simp: siblings_def e)
  then show "pt_pages (Suc l) m' pt = insert pt (siblings l m pt i \<union> pt_pages l m' c)"
    using pt_pages_split [OF i, of l m' pt] v c by simp
  show "slot (Suc l) m' pt vb = (if PX (Suc l) vb = i then slot l m' c vb else slot (Suc l) m pt vb)"
    using v c other(3) by (simp add: e Let_def)
  show "leaf (Suc l) m' pt vb = (if PX (Suc l) vb = i then leaf l m' c vb else leaf (Suc l) m pt vb)"
    using v c other(4) by (simp add: e leaf_Suc Let_def)
  have entry: "pt_tree l m' (PTE2PA (pte_at m' pt j)) \<and> pt \<notin> pt_pages l m' (PTE2PA (pte_at m' pt j))"
    if "j < 512" "pvalid (pte_at m' pt j)" for j
    using that other(1,2) tree tc pc(1) c by (cases "j = i") (auto simp: e)
  have disj: "pt_pages l m' (PTE2PA (pte_at m' pt j)) \<inter> pt_pages l m' (PTE2PA (pte_at m' pt k)) = {}"
    if jk: "j < 512" "k < 512" "j \<noteq> k" "pvalid (pte_at m' pt j)" "pvalid (pte_at m' pt k)" for j k
  proof -
    have *: "pt_pages l m' (PTE2PA (pte_at m' pt j)) \<inter> ps = {}" if "j < 512" "j \<noteq> i" "pvalid (pte_at m' pt j)" for j
      using that other(1,5) by (simp add: e)
    show ?thesis
    proof (cases "j = i \<or> k = i")
      case True
      then show ?thesis using * [of j] * [of k] jk c pc(2) by blast
    next
      case False
      then show ?thesis using jk other(1) tree by (simp add: e)
    qed
  qed
  show "pt_tree (Suc l) m' pt"
    using pt_tree_aligned [OF tree] entry disj by simp
qed

section \<open>Stores into a leaf slot\<close>

lemma store_leaf:
  assumes "pt_tree l m pt" and "slot l m pt va = Some a" and m'_def: "m' = store64 m a v"
  shows "pt_pages l m' pt = pt_pages l m pt \<and> pt_tree l m' pt
    \<and> (\<forall>vb. slot l m' pt vb = slot l m pt vb)
    \<and> (\<forall>vb. leaf l m' pt vb = (if same_path l va vb then v else leaf l m pt vb))"
  using assms(1,2)
proof (induction l arbitrary: pt)
  case 0
  then show ?case by (auto simp: m'_def leaf_0 pte_at_store)
next
  case (Suc l)
  let ?i = "PX (Suc l) va" and ?c = "PTE2PA (pte_at m pt (PX (Suc l) va))"
  have v: "pvalid (pte_at m pt ?i)" and s: "slot l m ?c va = Some a"
    using Suc.prems(2) by (auto simp: Let_def split: if_splits)
  have t: "pt_tree l m ?c" "pt \<notin> pt_pages l m ?c" using pt_tree_child [OF Suc.prems(1) _ v] by auto
  note IH = Suc.IH [OF t(1) s]
  let ?q = "PGROUNDDOWN a"
  have q: "?q \<in> pt_pages l m ?c" and so: "same_outside {?q} m m'"
    using slot_in_page [OF t(1) s] unfolding m'_def by auto
  have e: "pte_at m' pt j = pte_at m pt j" if "j < 512" for j
    using pte_at_same_outside [OF so] pt_tree_aligned [OF Suc.prems(1)] q t(2) that by auto
  have so': "same_outside (pt_pages l m ?c) m m'" using so q by (auto intro: same_outside_mono)
  have g: "pt_tree (Suc l) m' pt"
    "pt_pages (Suc l) m' pt = insert pt (siblings l m pt ?i \<union> pt_pages l m' ?c)"
    "\<And>vb. slot (Suc l) m' pt vb = (if PX (Suc l) vb = ?i then slot l m' ?c vb else slot (Suc l) m pt vb)"
    "\<And>vb. leaf (Suc l) m' pt vb = (if PX (Suc l) vb = ?i then leaf l m' ?c vb else leaf (Suc l) m pt vb)"
    using graft [OF Suc.prems(1) PX_less so' e siblings_disjoint [OF Suc.prems(1) PX_less v]]
      IH t(2) v e [OF PX_less] by auto
  moreover have "pt_pages (Suc l) m' pt = pt_pages (Suc l) m pt"
    using g(2) IH pt_pages_split [OF PX_less [of "Suc l" va], of l m pt] v by simp
  moreover have "slot (Suc l) m' pt vb = slot (Suc l) m pt vb" for vb
    using g(3) [of vb] IH v by (auto simp: Let_def)
  moreover have "leaf (Suc l) m' pt vb = (if same_path (Suc l) va vb then v else leaf (Suc l) m pt vb)" for vb
    using g(4) [of vb] IH v by (auto simp: leaf_Suc same_path_Suc)
  ultimately show ?case by blast
qed

section \<open>Walking\<close>

lemma walk_loop_lookup:
  "walk_loop l pt va False s = (case slot l (mem s) pt va of None \<Rightarrow> 0 | Some a \<Rightarrow> a, s)"
  by (induction l arbitrary: pt) (auto simp: Let_def pte_at_def pvalid_def)

lemma zero_page_tree:
  assumes "page_aligned p" and "\<And>i. i < 512 \<Longrightarrow> pte_at m p i = 0"
  shows "pt_tree l m p \<and> pt_pages l m p = {p} \<and> (\<forall>va. leaf l m p va = 0)"
proof -
  have "\<not> pvalid 0" by (simp add: pvalid_def)
  then show ?thesis using assms by (cases l) (auto simp: leaf_0 leaf_Suc)
qed


declare pt_pages.simps(2) [simp del] and pt_tree.simps(2) [simp del]

text \<open>\<open>pt_ok l s pt\<close>: a table with \<open>l\<close> levels below its root, in pages of RAM that are not free.\<close>

definition pt_ok :: "nat \<Rightarrow> kstate \<Rightarrow> u64 \<Rightarrow> bool" where
  "pt_ok l s pt \<longleftrightarrow> kmem_wf s \<and> pt_tree l (mem s) pt
     \<and> pt_pages l (mem s) pt \<inter> set (free_list s) = {} \<and> (\<forall>p \<in> pt_pages l (mem s) pt. ram_page s p)"

lemma pt_okD:
  assumes "pt_ok l s pt"
  shows "kmem_wf s" "pt_tree l (mem s) pt" "pt_pages l (mem s) pt \<inter> set (free_list s) = {}"
    "p \<in> pt_pages l (mem s) pt \<Longrightarrow> ram_page s p" "page_aligned pt" "RAMBASE \<le> kernel_end s"
  using assms kmem_wfD(4) pt_tree_aligned unfolding pt_ok_def by blast+

lemma slot_not_0: "pt_ok l s pt \<Longrightarrow> slot l (mem s) pt va \<noteq> Some 0"
proof
  assume ok: "pt_ok l s pt" and "slot l (mem s) pt va = Some 0"
  then obtain p where p: "p \<in> pt_pages l (mem s) pt" "0 = p + 8 * PX 0 va" using slot_page by blast
  have "unat (p + 8 * PX 0 va) = unat p + unat (8 * PX 0 va)"
    using pt_okD(4) [OF ok p(1)] by (intro unat_add_page) (auto simp: ram_page_def entry_offset)
  then have "unat p = 0" using p(2) by simp
  then show False using ram_page_not_0 [OF pt_okD(6) [OF ok] pt_okD(4) [OF ok p(1)]] by (simp add: unat_eq_0)
qed

text \<open>What \<^verbatim>\<open>walk\<close> does to a table: it may take pages from the free list and add them to the
  table, but the content of the table stays the same.\<close>

definition pt_grow :: "nat \<Rightarrow> u64 \<Rightarrow> kstate \<Rightarrow> kstate \<Rightarrow> u64 list \<Rightarrow> bool" where
  "pt_grow l pt s s' new \<longleftrightarrow> free_list s = new @ free_list s' \<and> kernel_end s' = kernel_end s
     \<and> pt_ok l s' pt \<and> pt_pages l (mem s') pt = pt_pages l (mem s) pt \<union> set new
     \<and> (\<forall>vb. leaf l (mem s') pt vb = leaf l (mem s) pt vb)
     \<and> same_outside (pt_pages l (mem s) pt \<union> set new) (mem s) (mem s')"

lemma pt_grow_refl: "pt_ok l s pt \<Longrightarrow> pt_grow l pt s s []"
  by (simp add: pt_grow_def)

lemma new_table_page:
  assumes ok: "pt_ok (Suc l) s pt" and i: "i < 512" and inv: "\<not> pvalid (pte_at (mem s) pt i)"
    and ka: "kalloc s = (p, s1)" "p \<noteq> 0"
    and m3: "m3 = store64 (memset (mem s1) p 0 4096) (pt + 8 * i) (PA2PTE p OR PTE_V OR DMWIN_MASK)"
  shows "pt_ok l (s1\<lparr>mem := m3\<rparr>) p" "pt_pages l m3 p = {p}" "leaf l m3 p vb = 0"
    "free_list s = p # free_list (s1\<lparr>mem := m3\<rparr>)" "kernel_end s1 = kernel_end s"
    "same_outside {p, pt} (mem s) m3" "p \<noteq> pt"
    "pte_at m3 pt i = PA2PTE p OR PTE_V OR DMWIN_MASK"
    "\<And>j. j < 512 \<Longrightarrow> j \<noteq> i \<Longrightarrow> pte_at m3 pt j = pte_at (mem s) pt j"
proof -
  note k = pt_okD [OF ok]
  have fl: "free_list s = p # free_list s1" and wf1: "kmem_wf s1" and pn: "p \<notin> set (free_list s1)"
    and so1: "same_outside {p} (mem s) (mem s1)" and ram: "ram_page s p" and al: "page_aligned p"
    using ka.alloc_cases [OF k(1) ka(1)] ka(2) by metis+
  obtain s1' where "kalloc s = (p, s1')" "kernel_end s1' = kernel_end s"
    using kalloc_refines [OF k(1) fl] by metis
  then show ke: "kernel_end s1 = kernel_end s" using ka(1) by simp
  show ne: "p \<noteq> pt" using k(3) fl by (metis Int_iff empty_iff list.set_intros(1) root_in_pt_pages)
  let ?m2 = "memset (mem s1) p 0 4096"
  have so2: "same_outside {p} (mem s1) ?m2" by (rule same_outside_memset [OF al])
  have so3: "same_outside {pt} ?m2 m3" using same_outside_entry [OF k(5) i] by (simp add: m3)
  have so12: "same_outside {p} (mem s) ?m2" using same_outside_trans [OF so1 so2] by simp
  show so: "same_outside {p, pt} (mem s) m3" using same_outside_trans [OF so12 so3] by (simp add: insert_commute)
  have so13: "same_outside {p, pt} (mem s1) m3" using same_outside_trans [OF so2 so3] by (simp add: insert_commute)
  have "pt \<notin> set (free_list s)" using k(3) root_in_pt_pages by blast
  then have "{p, pt} \<inter> set (free_list s1) = {}" using fl pn by auto
  then have up: "kmem_wf (s1\<lparr>mem := m3\<rparr>)" "free_list (s1\<lparr>mem := m3\<rparr>) = free_list s1"
    using ka.update_pool [OF wf1 so13] by auto
  then show "free_list s = p # free_list (s1\<lparr>mem := m3\<rparr>)" using fl by simp
  have zero: "pte_at m3 p j = 0" if "j < 512" for j
  proof -
    have "pte_at m3 p j = pte_at ?m2 p j" using pte_at_same_outside [OF so3 al] ne that by simp
    also have "\<dots> = load64 (\<lambda>_. 0) (p + 8 * j)" unfolding pte_at_def
    proof (rule load64_cong)
      fix n :: nat assume "n < 8"
      then have "PGROUNDDOWN (p + 8 * j + of_nat n) = p"
        by (intro page_slot_in_page [OF al] entry_offset [OF that])
      then show "?m2 (p + 8 * j + of_nat n) = 0"
        using al by (simp add: memset_eq in_page_iff word_less_nat_alt)
    qed
    finally show ?thesis by simp
  qed
  note z = zero_page_tree [OF al zero, of l]
  show "pt_pages l m3 p = {p}" "leaf l m3 p vb = 0" using z by auto
  show "pt_ok l (s1\<lparr>mem := m3\<rparr>) p"
    using z up pn ram ke by (simp add: pt_ok_def ram_page_def)
  show "pte_at m3 pt i = PA2PTE p OR PTE_V OR DMWIN_MASK" by (simp add: m3 pte_at_store [OF i i])
  show "pte_at m3 pt j = pte_at (mem s) pt j" if "j < 512" "j \<noteq> i" for j
    using pte_at_same_outside [OF so12 k(5)] ne that by (simp add: m3 pte_at_store [OF i])
qed

lemma table_pte:
  assumes "dmw_page p"
  shows "PTE2PA (PA2PTE p OR PTE_V OR DMWIN_MASK) = p" "pvalid (PA2PTE p OR PTE_V OR DMWIN_MASK)"
proof -
  show "PTE2PA (PA2PTE p OR PTE_V OR DMWIN_MASK) = p"
    using PTE2PA_PA2PTE [OF assms, of "PTE_V OR DMWIN_MASK"] by (simp add: or.assoc)
  have "bit (PA2PTE p OR PTE_V OR DMWIN_MASK) 0" by (simp add: bit_simps)
  then show "pvalid (PA2PTE p OR PTE_V OR DMWIN_MASK)"
    unfolding pvalid_def by (metis PTE_V_def and_one_eq bit_0 odd_iff_mod_2_eq_one zero_neq_one)
qed


lemma pt_ok_child:
  assumes ok: "pt_ok (Suc l) s pt" and i: "i < 512" and v: "pvalid (pte_at (mem s) pt i)"
  shows "pt_ok l s (PTE2PA (pte_at (mem s) pt i))" "pt \<notin> pt_pages l (mem s) (PTE2PA (pte_at (mem s) pt i))"
  using pt_okD(1,3,4) [OF ok] pt_tree_child [OF pt_okD(2) [OF ok] i v] by (auto simp: pt_ok_def)

text \<open>A grown subtree makes the whole table grow.\<close>

lemma pt_grow_graft:
  assumes ok: "pt_ok (Suc l) s pt" and i: "i < 512"
    and fl: "free_list s = pre @ free_list s1" and ke: "kernel_end s1 = kernel_end s"
    and v: "pvalid (pte_at (mem s1) pt i)" and c: "PTE2PA (pte_at (mem s1) pt i) = c"
    and e: "\<And>j. j < 512 \<Longrightarrow> j \<noteq> i \<Longrightarrow> pte_at (mem s1) pt j = pte_at (mem s) pt j"
    and so: "same_outside (insert pt (set pre)) (mem s) (mem s1)"
    and old: "(if pvalid (pte_at (mem s) pt i)
               then pre = [] \<and> s1 = s else pt_pages l (mem s1) c = set pre \<and> (\<forall>vb. leaf l (mem s1) c vb = 0))"
    and pt: "pt \<notin> pt_pages l (mem s1) c"
    and gr: "pt_grow l c s1 s' new"
  shows "pt_grow (Suc l) pt s s' (pre @ new)"
    and "PX (Suc l) va = i \<Longrightarrow> slot (Suc l) (mem s') pt va = slot l (mem s') c va"
proof -
  note k = pt_okD [OF ok]
  let ?ps = "pt_pages l (mem s1) c \<union> set new"
  have g: "free_list s1 = new @ free_list s'" "kernel_end s' = kernel_end s1" "pt_ok l s' c"
    "pt_pages l (mem s') c = ?ps" "\<And>vb. leaf l (mem s') c vb = leaf l (mem s1) c vb"
    "same_outside ?ps (mem s1) (mem s')"
    using gr by (auto simp: pt_grow_def)
  have "pt \<notin> set (free_list s)" using k(3) root_in_pt_pages by blast
  then have ptn: "pt \<notin> ?ps" using fl g(1) pt by auto
  have e': "pte_at (mem s') pt j = pte_at (mem s1) pt j" if "j < 512" for j
    using pte_at_same_outside [OF g(6) k(5) ptn that] .
  let ?qs = "insert pt (set pre) \<union> ?ps"
  have so': "same_outside ?qs (mem s) (mem s')" by (rule same_outside_trans [OF so g(6)])
  have sib_free: "siblings l (mem s) pt i \<inter> (set pre \<union> set new) = {}"
    using k(3) fl g(1) pt_pages_split [OF i, of l "mem s" pt] by auto
  have sib_pt: "pt \<notin> siblings l (mem s) pt i" using k(2) by (auto simp: siblings_def pt_tree.simps)
  have sib_c: "siblings l (mem s) pt i \<inter> pt_pages l (mem s1) c = {}"
    using siblings_disjoint [OF k(2) i] old c sib_free by (auto split: if_splits)
  have sib: "siblings l (mem s) pt i \<inter> ?qs = {}" using sib_free sib_pt sib_c by blast
  have v': "pvalid (pte_at (mem s') pt i)" and c': "PTE2PA (pte_at (mem s') pt i) = c"
    using v c e' [OF i] by auto
  have ej: "pte_at (mem s') pt j = pte_at (mem s) pt j" if "j < 512" "j \<noteq> i" for j
    using that e e' by simp
  note gf = graft [OF k(2) i so' ej sib v' c' pt_okD(2) [OF g(3)]]
  have "pt_pages l (mem s') c \<subseteq> ?qs" "pt \<notin> pt_pages l (mem s') c" using g(4) ptn by auto
  note gf = gf [OF _ _ this(2) this(1)]
  have pages: "pt_pages (Suc l) (mem s') pt = pt_pages (Suc l) (mem s) pt \<union> set (pre @ new)"
    using gf(2) g(4) pt_pages_split [OF i, of l "mem s" pt] old c by (auto split: if_splits)
  have lf: "leaf (Suc l) (mem s') pt vb = leaf (Suc l) (mem s) pt vb" for vb
    using gf(4) [of vb] g(5) [of vb] old c by (auto simp: leaf_Suc Let_def split: if_splits)
  have "set (pre @ new) \<subseteq> set (free_list s)" using fl g(1) by auto
  then have ram: "\<forall>p \<in> pt_pages (Suc l) (mem s') pt. ram_page s' p"
    using pages k(4) kmem_wfD(3) [OF k(1)] g(2) ke by (auto simp: ram_page_def)
  have "distinct (free_list s)" using kmem_wfD(2) [OF k(1)] .
  then have "pt_pages (Suc l) (mem s') pt \<inter> set (free_list s') = {}"
    using pages k(3) fl g(1) by auto
  then have "pt_ok (Suc l) s' pt"
    using gf(1) ram pt_okD(1) [OF g(3)] by (simp add: pt_ok_def)
  moreover have "?qs \<subseteq> pt_pages (Suc l) (mem s) pt \<union> set (pre @ new)"
    using pages gf(2) g(4) by (auto split: if_splits)
  ultimately show "pt_grow (Suc l) pt s s' (pre @ new)"
    using fl g(1,2) ke pages lf so' same_outside_mono by (auto simp: pt_grow_def)
  show "slot (Suc l) (mem s') pt va = slot l (mem s') c va" if "PX (Suc l) va = i"
    using gf(3) [of va] that by simp
qed

lemma walk_loop_grow:
  assumes "pt_ok l s pt" and "walk_loop l pt va True s = (a, s')"
  shows "\<exists>new. pt_grow l pt s s' new
    \<and> (if a = 0 then free_list s' = [] \<and> length new < l
       else slot l (mem s') pt va = Some a \<and> length new \<le> l)"
  using assms
proof (induction l arbitrary: pt s)
  case 0
  then show ?case using slot_not_0 [OF 0(1), of va] pt_grow_refl [OF 0(1)] by auto
next
  case (Suc l)
  let ?i = "PX (Suc l) va"
  let ?e = "pte_at (mem s) pt ?i"
  note k = pt_okD [OF Suc.prems(1)]
  show ?case
  proof (cases "pvalid ?e")
    case True
    then have w: "walk_loop l (PTE2PA ?e) va True s = (a, s')"
      using Suc.prems(2) by (simp add: Let_def pte_at_def pvalid_def)
    note ch = pt_ok_child [OF Suc.prems(1) PX_less True]
    from Suc.IH [OF ch(1) w] obtain new where g: "pt_grow l (PTE2PA ?e) s s' new"
      and a: "if a = 0 then free_list s' = [] \<and> length new < l
        else slot l (mem s') (PTE2PA ?e) va = Some a \<and> length new \<le> l" by blast
    note gg = pt_grow_graft [OF Suc.prems(1) PX_less, of "[]" s, OF _ _ True refl _ _ _ ch(2) g]
    show ?thesis using gg(1) gg(2) [of va] a True by (intro exI [of _ new]) (auto split: if_splits)
  next
    case False
    obtain p s1 where ka: "kalloc s = (p, s1)" by (cases "kalloc s")
    show ?thesis
    proof (cases "p = 0")
      case True
      then have "s1 = s" "free_list s = []" using ka.alloc_cases [OF k(1) ka] by metis+
      moreover have "a = 0" "s' = s1"
        using Suc.prems(2) False True ka by (auto simp: Let_def pte_at_def pvalid_def)
      ultimately show ?thesis using pt_grow_refl [OF Suc.prems(1)] by auto
    next
      case pn: False
      define m3 where m3: "m3 = store64 (memset (mem s1) p 0 4096) (pt + 8 * ?i) (PA2PTE p OR PTE_V OR DMWIN_MASK)"
      let ?s3 = "s1\<lparr>mem := m3\<rparr>"
      have w: "walk_loop l p va True ?s3 = (a, s')"
        using Suc.prems(2) False pn ka by (auto simp: Let_def pte_at_def pvalid_def m3)
      note n = new_table_page [OF Suc.prems(1) PX_less False ka pn m3]
      have "ram_page s p" using n(4) kmem_wfD(3) [OF k(1)] by simp
      then have "dmw_page p" by (rule ram_page_dmw [OF k(6)])
      note tp = table_pte [OF this]
      from Suc.IH [OF n(1) w] obtain new where g: "pt_grow l p ?s3 s' new"
        and a: "if a = 0 then free_list s' = [] \<and> length new < l
          else slot l (mem s') p va = Some a \<and> length new \<le> l" by blast
      have so: "same_outside (insert pt (set [p])) (mem s) (mem ?s3)" using n(6) by (simp add: insert_commute)
      have old: "if pvalid ?e then [p] = [] \<and> ?s3 = s
          else pt_pages l (mem ?s3) p = set [p] \<and> (\<forall>vb. leaf l (mem ?s3) p vb = 0)"
        using False n(2,3) by simp
      have fl: "free_list s = [p] @ free_list ?s3" and ke: "kernel_end ?s3 = kernel_end s" using n(4,5) by auto
      have v: "pvalid (pte_at (mem ?s3) pt ?i)" "PTE2PA (pte_at (mem ?s3) pt ?i) = p"
        using n(8) tp by simp_all
      have ptn: "pt \<notin> pt_pages l (mem ?s3) p" using n(2,7) by simp
      have e: "\<And>j. j < 512 \<Longrightarrow> j \<noteq> ?i \<Longrightarrow> pte_at (mem ?s3) pt j = pte_at (mem s) pt j" using n(9) by simp
      note gg = pt_grow_graft [OF Suc.prems(1) PX_less fl ke v e so old ptn g]
      show ?thesis using gg(1) gg(2) [of va] a by (intro exI [of _ "[p] @ new"]) (auto split: if_splits)
    qed
  qed
qed

end
