(* ===== verification/Vmspec.thy ===== *)
theory Vmspec
  imports Pagetable
begin

text \<open>
  The laws of the operations of \<^verbatim>\<open>kernel/vm.c\<close> over the abstract content of a page table,
  \<open>pte_of s pt va\<close>: mapping, unmapping, growing, shrinking and copying address spaces, and
  the copies to and from user memory.
\<close>

section \<open>Page tables as maps\<close>

definition pt_inv :: "kstate \<Rightarrow> u64 \<Rightarrow> bool" where
  "pt_inv s pt \<longleftrightarrow> pt_ok 3 s pt"

definition pte_of :: "kstate \<Rightarrow> u64 \<Rightarrow> u64 \<Rightarrow> u64" where
  "pte_of s pt va = leaf 3 (mem s) pt va"

definition table_pages :: "kstate \<Rightarrow> u64 \<Rightarrow> u64 set" where
  "table_pages s pt = pt_pages 3 (mem s) pt"

text \<open>\<open>pt_step pt s s' new\<close>: from \<open>s\<close> to \<open>s'\<close> the pages \<open>new\<close> moved from the free list into
  the table \<open>pt\<close>, and no other memory changed.\<close>

definition pt_step :: "u64 \<Rightarrow> kstate \<Rightarrow> kstate \<Rightarrow> u64 list \<Rightarrow> bool" where
  "pt_step pt s s' new \<longleftrightarrow> free_list s = new @ free_list s' \<and> kernel_end s' = kernel_end s
     \<and> pt_inv s' pt \<and> table_pages s' pt = table_pages s pt \<union> set new
     \<and> same_outside (table_pages s pt \<union> set new) (mem s) (mem s')"

lemma pt_step_refl: "pt_inv s pt \<Longrightarrow> pt_step pt s s []"
  by (simp add: pt_step_def)

lemma pt_step_trans:
  assumes "pt_step pt s s1 new1" and "pt_step pt s1 s2 new2"
  shows "pt_step pt s s2 (new1 @ new2)"
proof -
  have "same_outside ((table_pages s pt \<union> set new1) \<union> (table_pages s pt \<union> set new1 \<union> set new2)) (mem s) (mem s2)"
    using assms same_outside_trans unfolding pt_step_def by metis
  moreover have "(table_pages s pt \<union> set new1) \<union> (table_pages s pt \<union> set new1 \<union> set new2)
      = table_pages s pt \<union> set (new1 @ new2)" by auto
  ultimately show ?thesis using assms unfolding pt_step_def by auto
qed

lemma low_va: assumes "va < MAXVA" shows "va AND DMWIN_MASK = 0"
proof -
  have "unat va < 2 ^ 46" using assms by (simp add: word_less_nat_alt)
  then have "take_bit 46 va = va" by (simp add: word_unat_eq_iff unsigned_take_bit_eq take_bit_nat_eq_self)
  then have "va AND DMWIN_MASK = va AND (mask 46 AND DMWIN_MASK)" by (metis and.assoc take_bit_eq_mask)
  also have "mask 46 AND DMWIN_MASK = 0" by (simp add: mask_eq_exp_minus_1)
  finally show ?thesis by simp
qed

lemma walk_lookup:
  "va < MAXVA \<Longrightarrow> walk pt va False s = Ret (case slot 3 (mem s) pt va of None \<Rightarrow> 0 | Some a \<Rightarrow> a, s)"
  by (simp add: walk_def low_va [unfolded DMWIN_MASK_def] walk_loop_lookup not_le)

lemma pt_grow_step:
  "pt_grow 3 pt s s' new \<Longrightarrow> pt_step pt s s' new \<and> (\<forall>vb. pte_of s' pt vb = pte_of s pt vb)"
  by (auto simp: pt_grow_def pt_step_def pt_inv_def pte_of_def table_pages_def)

lemma walk_alloc:
  assumes "pt_inv s pt" and "va < MAXVA"
  obtains a s' new where "walk pt va True s = Ret (a, s')" "pt_step pt s s' new"
    "\<And>vb. pte_of s' pt vb = pte_of s pt vb"
    "if a = 0 then free_list s' = [] \<and> length new < 3 else slot 3 (mem s') pt va = Some a \<and> length new \<le> 3"
proof -
  obtain a s' where w: "walk_loop 3 pt va True s = (a, s')" by (cases "walk_loop 3 pt va True s")
  then have "walk pt va True s = Ret (a, s')"
    using assms(2) low_va [OF assms(2)] by (simp add: walk_def not_le)
  with walk_loop_grow [OF assms(1) [unfolded pt_inv_def] w] pt_grow_step that show ?thesis by blast
qed

lemma store_slot:
  assumes inv: "pt_inv s pt" and sl: "slot 3 (mem s) pt va = Some a" and va: "va < MAXVA"
  shows "pt_step pt s (s\<lparr>mem := store64 (mem s) a v\<rparr>) []"
    and "vb < MAXVA \<Longrightarrow> pte_of (s\<lparr>mem := store64 (mem s) a v\<rparr>) pt vb =
      (if PGROUNDDOWN vb = PGROUNDDOWN va then v else pte_of s pt vb)"
    and "same_outside {PGROUNDDOWN a} (mem s) (store64 (mem s) a v)" "PGROUNDDOWN a \<in> table_pages s pt"
proof -
  let ?s = "s\<lparr>mem := store64 (mem s) a v\<rparr>"
  have ok: "pt_ok 3 s pt" using inv by (simp add: pt_inv_def)
  note k = pt_okD [OF ok]
  show q: "PGROUNDDOWN a \<in> table_pages s pt"
    and so: "same_outside {PGROUNDDOWN a} (mem s) (store64 (mem s) a v)"
    using slot_in_page [OF k(2) sl, of v] by (auto simp: table_pages_def)
  note st = store_leaf [OF k(2) sl refl, of v]
  have "{PGROUNDDOWN a} \<inter> set (free_list s) = {}" using q k(3) by (auto simp: table_pages_def)
  then have up: "kmem_wf ?s" "free_list ?s = free_list s" using ka.update_pool [OF k(1) so] by auto
  have "pt_ok 3 ?s pt" using st up k(3,4) by (auto simp: pt_ok_def ram_page_def)
  then show "pt_step pt s ?s []"
    using up st q so by (auto simp: pt_step_def pt_inv_def table_pages_def intro: same_outside_mono)
  show "pte_of ?s pt vb = (if PGROUNDDOWN vb = PGROUNDDOWN va then v else pte_of s pt vb)" if "vb < MAXVA"
    using st same_path_3 [OF va that] by (auto simp: pte_of_def)
qed

lemma pte_of_same_outside:
  "pt_inv s pt \<Longrightarrow> same_outside ps (mem s) (mem s') \<Longrightarrow> table_pages s pt \<inter> ps = {} \<Longrightarrow>
     pte_of s' pt va = pte_of s pt va \<and> table_pages s' pt = table_pages s pt
     \<and> pt_tree 3 (mem s') pt \<and> slot 3 (mem s') pt va = slot 3 (mem s) pt va"
  using leaf_frame [of ps "mem s" "mem s'" 3 pt va] pt_frame [of ps "mem s" "mem s'" 3 pt] pt_okD(2) [of 3 s pt]
  by (auto simp: pt_inv_def pte_of_def table_pages_def)

lemma pte_of_slot: "slot 3 (mem s) pt va = Some a \<Longrightarrow> load64 (mem s) a = pte_of s pt va"
  by (simp add: pte_of_def leaf_def)

lemma pvalid_slot: "pvalid (pte_of s pt va) \<Longrightarrow> \<exists>a. slot 3 (mem s) pt va = Some a"
  by (auto simp: pte_of_def leaf_def pvalid_def split: option.splits)

lemma walk_pvalid:
  assumes "pt_inv s pt" and "va < MAXVA" and "pvalid (pte_of s pt va)"
  obtains a where "walk pt va False s = Ret (a, s)" "a \<noteq> 0" "slot 3 (mem s) pt va = Some a"
    "load64 (mem s) a = pte_of s pt va"
proof -
  obtain a where a: "slot 3 (mem s) pt va = Some a" using pvalid_slot [OF assms(3)] by blast
  moreover have "a \<noteq> 0" using slot_not_0 [of 3 s pt va] assms(1) a by (auto simp: pt_inv_def)
  ultimately show ?thesis using that walk_lookup [OF assms(2)] pte_of_slot [OF a] by simp
qed

section \<open>Mapping a range of pages\<close>

definition in_pages :: "u64 \<Rightarrow> nat \<Rightarrow> u64 \<Rightarrow> bool" where
  "in_pages a n vb \<longleftrightarrow> unat a \<le> unat vb \<and> unat vb < unat a + 4096 * n"

lemma in_pages_0 [simp]: "\<not> in_pages a 0 vb"
  by (simp add: in_pages_def)

lemma in_pages_Suc:
  assumes "page_aligned a" and "unat a + 4096 < 2 ^ 64"
  shows "in_pages a (Suc n) vb \<longleftrightarrow> PGROUNDDOWN vb = a \<or> in_pages (a + PGSIZE) n vb"
proof -
  have u: "unat (a + PGSIZE) = unat a + 4096" using assms(2) by (simp add: unat_word_ariths)
  have "PGROUNDDOWN vb = a \<longleftrightarrow> unat a \<le> unat vb \<and> unat vb < unat a + 4096"
    using assms unfolding in_page_iff [OF assms(1)] word_less_nat_alt
    by (auto simp: unat_sub_if_size word_size)
  then show ?thesis using u by (auto simp: in_pages_def)
qed

lemma leaf_pte_valid: "pvalid (leaf_pte pa perm)"
proof -
  have "bit (leaf_pte pa perm) 0" by (simp add: leaf_pte_def bit_simps)
  then show ?thesis
    unfolding pvalid_def by (metis PTE_V_def and_one_eq bit_0 odd_iff_mod_2_eq_one zero_neq_one)
qed

lemma va_step:
  assumes "page_aligned a" and "unat a + 4096 * Suc k \<le> 2 ^ 46"
  shows "a < MAXVA" "unat a + 4096 < 2 ^ 64" "unat (a + PGSIZE) = unat a + 4096" "page_aligned (a + PGSIZE)"
    "k > 0 \<Longrightarrow> a + PGSIZE < MAXVA"
proof -
  show n: "unat a + 4096 < 2 ^ 64" using assms(2) by simp
  then show u: "unat (a + PGSIZE) = unat a + 4096" by (simp add: unat_word_ariths)
  show "page_aligned (a + PGSIZE)" using assms(1) by (simp only: page_simps u) simp
  show "a < MAXVA" using assms(2) by (simp add: word_less_nat_alt)
  show "a + PGSIZE < MAXVA" if "k > 0"
    using assms(2) that u unfolding word_less_nat_alt by simp
qed


lemma map_one:
  assumes inv: "pt_inv s pt" and a: "page_aligned a" "a < MAXVA" and un: "\<not> pvalid (pte_of s pt a)"
  obtains pte s1 new where "walk pt a True s = Ret (pte, s1)" "pt_step pt s s1 new"
    "pte = 0" "free_list s1 = []" "length new < 3" "\<And>vb. pte_of s1 pt vb = pte_of s pt vb"
  | pte s1 new where "walk pt a True s = Ret (pte, s1)" "pte \<noteq> 0" "load64 (mem s1) pte AND PTE_V = 0"
    "\<And>v. pt_step pt s (s1\<lparr>mem := store64 (mem s1) pte v\<rparr>) new"
    "\<And>v vb. vb < MAXVA \<Longrightarrow> pte_of (s1\<lparr>mem := store64 (mem s1) pte v\<rparr>) pt vb =
        (if PGROUNDDOWN vb = a then v else pte_of s pt vb)" "length new \<le> 3"
proof -
  obtain pte s1 new where w: "walk pt a True s = Ret (pte, s1)" "pt_step pt s s1 new"
    "\<And>vb. pte_of s1 pt vb = pte_of s pt vb"
    "if pte = 0 then free_list s1 = [] \<and> length new < 3 else slot 3 (mem s1) pt a = Some pte \<and> length new \<le> 3"
    using walk_alloc [OF inv a(2)] by metis
  show ?thesis
  proof (cases "pte = 0")
    case True
    then show ?thesis using w that(1) by auto
  next
    case False
    then have sl: "slot 3 (mem s1) pt a = Some pte" and len: "length new \<le> 3" using w(4) by auto
    have inv1: "pt_inv s1 pt" using w(2) by (simp add: pt_step_def)
    have "load64 (mem s1) pte AND PTE_V = 0"
      using pte_of_slot [OF sl] w(3) [of a] un by (simp add: pvalid_def)
    moreover have "pt_step pt s (s1\<lparr>mem := store64 (mem s1) pte v\<rparr>) new" for v
      using pt_step_trans [OF w(2) store_slot(1) [OF inv1 sl a(2)]] by simp
    moreover have "pte_of (s1\<lparr>mem := store64 (mem s1) pte v\<rparr>) pt vb =
        (if PGROUNDDOWN vb = a then v else pte_of s pt vb)" if "vb < MAXVA" for v vb
      using store_slot(2) [OF inv1 sl a(2) that] a(1) w(3) by simp
    ultimately show ?thesis using that(2) [OF w(1) False] len by blast
  qed
qed

text \<open>The content of a table after the first \<open>n\<close> pages from \<open>a\<close> have been mapped to the pages from
  \<open>pa\<close>.\<close>

definition mapped_pte :: "u64 \<Rightarrow> u64 \<Rightarrow> u32 \<Rightarrow> u64 \<Rightarrow> u64" where
  "mapped_pte a pa perm vb = leaf_pte (pa + (PGROUNDDOWN vb - a)) perm"

definition mapped :: "kstate \<Rightarrow> kstate \<Rightarrow> u64 \<Rightarrow> u64 \<Rightarrow> nat \<Rightarrow> u64 \<Rightarrow> u32 \<Rightarrow> bool" where
  "mapped s s' pt a n pa perm \<longleftrightarrow> (\<forall>vb < MAXVA. pte_of s' pt vb =
     (if in_pages a n vb then mapped_pte a pa perm vb else pte_of s pt vb))"

lemma mapped_Suc:
  assumes "page_aligned a" "unat a + 4096 < 2 ^ 64"
    and one: "\<And>vb. vb < MAXVA \<Longrightarrow> pte_of s1 pt vb = (if PGROUNDDOWN vb = a then leaf_pte pa perm else pte_of s pt vb)"
    and rest: "mapped s1 s' pt (a + PGSIZE) n (pa + PGSIZE) perm"
  shows "mapped s s' pt a (Suc n) pa perm"
proof -
  have "unat (a + PGSIZE) = unat a + 4096" using assms(2) by (simp add: unat_word_ariths)
  then have "\<not> in_pages (a + PGSIZE) n vb" if "PGROUNDDOWN vb = a" for vb
    using that in_page_iff [OF assms(1), of vb]
    by (auto simp: in_pages_def word_less_nat_alt unat_sub_if_size word_size split: if_splits)
  then show ?thesis
    using one rest
    by (auto simp: mapped_def in_pages_Suc [OF assms(1,2)] mapped_pte_def simp del: MAXVA_def)
qed

lemma mappages_loop_spec:
  assumes "pt_inv s pt" and "page_aligned a" and "unat a + 4096 * Suc k \<le> 2 ^ 46"
    and "\<And>vb. vb < MAXVA \<Longrightarrow> in_pages a (Suc k) vb \<Longrightarrow> \<not> pvalid (pte_of s pt vb)"
  shows "\<exists>r s' new n. mappages_loop k pt a pa perm s = Ret (r, s') \<and> pt_step pt s s' new
    \<and> mapped s s' pt a n pa perm \<and> (r = 0 \<and> n = Suc k \<and> length new \<le> 3 * Suc k
      \<or> r = -1 \<and> n \<le> k \<and> free_list s' = [] \<and> length new < 3 * Suc k)"
  using assms
proof (induction k arbitrary: a pa s)
  case 0
  note v = va_step [OF 0(2,3)]
  have "in_pages a (Suc 0) a" by (simp add: in_pages_def)
  with 0(4) v(1) have un: "\<not> pvalid (pte_of s pt a)" by blast
  from 0(1,2) v(1) un show ?case
  proof (cases rule: map_one)
    case (1 pte s1 new)
    then show ?thesis by (intro exI [of _ "-1"] exI [of _ s1] exI [of _ new] exI [of _ 0]) (auto simp: mapped_def)
  next
    case (2 pte s1 new)
    have "mapped s (s1\<lparr>mem := store64 (mem s1) pte (leaf_pte pa perm)\<rparr>) pt a (Suc 0) pa perm"
      by (rule mapped_Suc [OF 0(2) v(2) 2(5)]) (auto simp: mapped_def)
    then show ?thesis using 2(1-4,6) by (intro exI [of _ 0] exI [of _ new] exI [of _ "Suc 0"] exI) auto
  qed
next
  case (Suc k)
  have r: "unat a + 4096 * Suc (Suc k) \<le> 2 ^ 46" by fact
  note v = va_step [OF Suc.prems(2) r]
  have "in_pages a (Suc (Suc k)) a" by (simp add: in_pages_def)
  with Suc.prems(4) v(1) have un: "\<not> pvalid (pte_of s pt a)" by blast
  from Suc.prems(1,2) v(1) un show ?case
  proof (cases rule: map_one)
    case (1 pte s1 new)
    then show ?thesis by (intro exI [of _ "-1"] exI [of _ s1] exI [of _ new] exI [of _ 0]) (auto simp: mapped_def)
  next
    case (2 pte s1 new)
    let ?s2 = "s1\<lparr>mem := store64 (mem s1) pte (leaf_pte pa perm)\<rparr>"
    have inv: "pt_inv ?s2 pt" using 2(4) [of "leaf_pte pa perm"] by (simp add: pt_step_def)
    have "\<not> pvalid (pte_of ?s2 pt vb)" if "vb < MAXVA" "in_pages (a + PGSIZE) (Suc k) vb" for vb
    proof -
      have "PGROUNDDOWN vb \<noteq> a"
        using that(2) v(3) in_page_iff [OF Suc.prems(2), of vb]
        by (auto simp: in_pages_def word_less_nat_alt unat_sub_if_size word_size split: if_splits)
      then show ?thesis
        using 2(5) [OF that(1)] Suc.prems(4) [OF that(1)] that(2)
        by (simp add: in_pages_Suc [OF Suc.prems(2) v(2), of "Suc k"])
    qed
    moreover have "unat (a + PGSIZE) + 4096 * Suc k \<le> 2 ^ 46" using r v(3) by simp
    ultimately obtain r s' new' n where IH:
      "mappages_loop k pt (a + PGSIZE) (pa + PGSIZE) perm ?s2 = Ret (r, s')" "pt_step pt ?s2 s' new'"
      "mapped ?s2 s' pt (a + PGSIZE) n (pa + PGSIZE) perm"
      "r = 0 \<and> n = Suc k \<and> length new' \<le> 3 * Suc k
       \<or> r = -1 \<and> n \<le> k \<and> free_list s' = [] \<and> length new' < 3 * Suc k"
      using Suc.IH [OF inv v(4)] by blast
    have "mappages_loop (Suc k) pt a pa perm s = Ret (r, s')" using 2(1-3) IH(1) by simp
    moreover have "mapped s s' pt a (Suc n) pa perm"
      by (rule mapped_Suc [OF Suc.prems(2) v(2) 2(5) IH(3)])
    ultimately show ?thesis using pt_step_trans [OF 2(4) IH(2)] IH(4) 2(6)
      by (intro exI [of _ r] exI [of _ s'] exI [of _ "new @ new'"] exI [of _ "Suc n"]) auto
  qed
qed


lemma walkaddr_eq:
  assumes "pt_inv s pt" and "va < MAXVA"
  shows "walkaddr pt va s =
    Ret (if pvalid (pte_of s pt va) \<and> pte_of s pt va AND PTE_PLV3 \<noteq> 0 then PTE2PA (pte_of s pt va) else 0)"
proof (cases "slot 3 (mem s) pt va")
  case None
  then have "pte_of s pt va = 0" by (simp add: pte_of_def leaf_def)
  with None show ?thesis
    using assms(2) low_va [OF assms(2)] by (simp add: walkaddr_def walk_lookup pvalid_def)
next
  case (Some a)
  then have "a \<noteq> 0" using slot_not_0 [of 3 s pt va] assms(1) by (auto simp: pt_inv_def)
  with Some show ?thesis
    using assms(2) low_va [OF assms(2)] pte_of_slot [OF Some]
    by (auto simp: walkaddr_def walk_lookup pvalid_def Let_def)
qed

section \<open>Preservation\<close>

lemma pt_invD:
  assumes "pt_inv s pt"
  shows "kmem_wf s" "table_pages s pt \<inter> set (free_list s) = {}" "p \<in> table_pages s pt \<Longrightarrow> ram_page s p"
    "RAMBASE \<le> kernel_end s"
  using pt_okD [of 3 s pt] assms by (auto simp: pt_inv_def table_pages_def)

lemma pt_inv_frame:
  assumes inv: "pt_inv s pt" and so: "same_outside ps (mem s) (mem s')" "table_pages s pt \<inter> ps = {}"
    and wf: "kmem_wf s'" "kernel_end s' = kernel_end s" "table_pages s pt \<inter> set (free_list s') = {}"
  shows "pt_inv s' pt" "pte_of s' pt va = pte_of s pt va" "table_pages s' pt = table_pages s pt"
    "slot 3 (mem s') pt va = slot 3 (mem s) pt va"
proof -
  note f = pte_of_same_outside [OF inv so]
  then show "pte_of s' pt va = pte_of s pt va" "table_pages s' pt = table_pages s pt"
    "slot 3 (mem s') pt va = slot 3 (mem s) pt va" by auto
  show "pt_inv s' pt"
    using f wf pt_invD(3) [OF inv] unfolding pt_inv_def pt_ok_def table_pages_def
    by (auto simp: ram_page_def)
qed

lemma pt_inv_kfree:
  assumes inv: "pt_inv s pt" and q: "ram_page s q" "q \<notin> set (free_list s)" "q \<notin> table_pages s pt"
  obtains s' where "kfree q s = Ret s'" "free_list s' = q # free_list s" "kernel_end s' = kernel_end s"
    "same_outside {q} (mem s) (mem s')" "pt_inv s' pt" "\<And>va. pte_of s' pt va = pte_of s pt va"
    "table_pages s' pt = table_pages s pt" "\<And>va. slot 3 (mem s') pt va = slot 3 (mem s) pt va"
proof -
  from kfree_refines [OF pt_invD(1) [OF inv] q(1,2)] obtain s' where s': "kfree q s = Ret s'" "kmem_wf s'"
    "free_list s' = q # free_list s" "same_outside {q} (mem s) (mem s')" "kernel_end s' = kernel_end s" by metis
  note f = pt_inv_frame [OF inv s'(4) _ s'(2,5)]
  show ?thesis using that [OF s'(1,3,5,4)] f s'(3) q(3) pt_invD(2) [OF inv] by simp
qed

section \<open>Unmapping a range of pages\<close>

text \<open>The physical pages behind \<open>k\<close> pages from \<open>a\<close>.\<close>

primrec frames :: "nat \<Rightarrow> kstate \<Rightarrow> u64 \<Rightarrow> u64 \<Rightarrow> u64 list" where
  "frames 0 s pt a = []"
| "frames (Suc k) s pt a = PTE2PA (pte_of s pt a) # frames k s pt (a + PGSIZE)"

text \<open>\<open>leaves k s pt a\<close>: each of the \<open>k\<close> pages from \<open>a\<close> is mapped to a page of its own, which is
  neither free nor part of the table.\<close>

definition leaves :: "nat \<Rightarrow> kstate \<Rightarrow> u64 \<Rightarrow> u64 \<Rightarrow> bool" where
  "leaves k s pt a \<longleftrightarrow>
     (\<forall>vb < MAXVA. in_pages a k vb \<longrightarrow> pvalid (pte_of s pt vb) \<and> PTE_FLAGS (pte_of s pt vb) \<noteq> PTE_V)
     \<and> distinct (frames k s pt a) \<and> (\<forall>q \<in> set (frames k s pt a). ram_page s q)
     \<and> set (frames k s pt a) \<inter> (set (free_list s) \<union> table_pages s pt) = {}"

lemma frames_cong:
  "(\<And>vb. vb < MAXVA \<Longrightarrow> in_pages a k vb \<Longrightarrow> pte_of s' pt vb = pte_of s pt vb) \<Longrightarrow> page_aligned a \<Longrightarrow>
     unat a + 4096 * k \<le> 2 ^ 46 \<Longrightarrow> frames k s' pt a = frames k s pt a"
proof (induction k arbitrary: a)
  case (Suc k)
  note v = va_step [OF Suc.prems(2,3)]
  have "pte_of s' pt a = pte_of s pt a" using Suc.prems(1) [of a] v(1) by (simp add: in_pages_def)
  moreover have "frames k s' pt (a + PGSIZE) = frames k s pt (a + PGSIZE)"
    using Suc.prems v by (intro Suc.IH) (auto simp: in_pages_Suc simp del: PGSIZE_def MAXVA_def)
  ultimately show ?case by simp
qed simp

lemma not_in_next_pages:
  assumes "page_aligned a" and "unat (a + PGSIZE) = unat a + 4096" and "PGROUNDDOWN vb = a"
  shows "\<not> in_pages (a + PGSIZE) n vb"
  using assms(2,3) in_page_iff [OF assms(1), of vb]
  by (auto simp: in_pages_def word_less_nat_alt unat_sub_if_size word_size split: if_splits)

lemma vmunmap_loop_spec:
  assumes "pt_inv s pt" and "page_aligned a" and "unat a + 4096 * k \<le> 2 ^ 46" and "leaves k s pt a"
  shows "\<exists>s'. vmunmap_loop k pt a True s = Ret s' \<and> free_list s' = rev (frames k s pt a) @ free_list s
    \<and> pt_inv s' pt \<and> table_pages s' pt = table_pages s pt \<and> kernel_end s' = kernel_end s
    \<and> (\<forall>vb < MAXVA. pte_of s' pt vb = (if in_pages a k vb then 0 else pte_of s pt vb))
    \<and> same_outside (table_pages s pt \<union> set (frames k s pt a)) (mem s) (mem s')"
  using assms
proof (induction k arbitrary: a s)
  case 0
  then show ?case by auto
next
  case (Suc k)
  note v = va_step [OF Suc.prems(2,3)]
  let ?e = "pte_of s pt a" let ?q = "PTE2PA ?e"
  have e: "pvalid ?e" "PTE_FLAGS ?e \<noteq> PTE_V"
    using Suc.prems(4) v(1) by (auto simp: leaves_def in_pages_def)
  obtain pte where w: "walk pt a False s = Ret (pte, s)" "pte \<noteq> 0" "slot 3 (mem s) pt a = Some pte"
    "load64 (mem s) pte = ?e" using walk_pvalid [OF Suc.prems(1) v(1) e(1)] by metis
  have q: "ram_page s ?q" "?q \<notin> set (free_list s)" "?q \<notin> table_pages s pt"
    using Suc.prems(4) by (auto simp: leaves_def)
  obtain s1 where s1: "kfree ?q s = Ret s1" "free_list s1 = ?q # free_list s" "kernel_end s1 = kernel_end s"
    "same_outside {?q} (mem s) (mem s1)" "pt_inv s1 pt" "\<And>va. pte_of s1 pt va = pte_of s pt va"
    "table_pages s1 pt = table_pages s pt" "slot 3 (mem s1) pt a = Some pte"
    using pt_inv_kfree [OF Suc.prems(1) q] w(3) by metis
  let ?s2 = "s1\<lparr>mem := store64 (mem s1) pte 0\<rparr>"
  note st = store_slot(1,2,3) [OF s1(5,8) v(1), where v = 0] store_slot(4) [OF s1(5,8) v(1)]
  have step: "pt_step pt s1 ?s2 []" by (rule st(1))
  then have inv2: "pt_inv ?s2 pt" and fl2: "free_list ?s2 = ?q # free_list s"
    and tp2: "table_pages ?s2 pt = table_pages s pt" using s1(2,7) by (auto simp: pt_step_def)
  have ke2: "kernel_end ?s2 = kernel_end s" using s1(3) by simp
  have p2: "pte_of ?s2 pt vb = (if PGROUNDDOWN vb = a then 0 else pte_of s pt vb)" if "vb < MAXVA" for vb
    using st(2) [OF that] s1(6) Suc.prems(2) by simp
  have keep: "pte_of ?s2 pt vb = pte_of s pt vb" if "vb < MAXVA" "in_pages (a + PGSIZE) k vb" for vb
    using p2 [OF that(1)] not_in_next_pages [OF Suc.prems(2) v(3)] that(2) by metis
  have r: "unat (a + PGSIZE) + 4096 * k \<le> 2 ^ 46" using Suc.prems(3) v(3) by simp
  have fr: "frames k ?s2 pt (a + PGSIZE) = frames k s pt (a + PGSIZE)"
    by (rule frames_cong [OF keep v(4) r])
  have "leaves k ?s2 pt (a + PGSIZE)"
    using Suc.prems(4) keep fr fl2 tp2 ke2
    by (auto simp: leaves_def in_pages_Suc [OF Suc.prems(2) v(2)] ram_page_def simp del: PGSIZE_def MAXVA_def)
  from Suc.IH [OF inv2 v(4) r this] obtain s' where s': "vmunmap_loop k pt (a + PGSIZE) True ?s2 = Ret s'"
    "free_list s' = rev (frames k s pt (a + PGSIZE)) @ ?q # free_list s" "pt_inv s' pt"
    "table_pages s' pt = table_pages s pt" "kernel_end s' = kernel_end s"
    "\<forall>vb < MAXVA. pte_of s' pt vb = (if in_pages (a + PGSIZE) k vb then 0 else pte_of ?s2 pt vb)"
    "same_outside (table_pages s pt \<union> set (frames k s pt (a + PGSIZE))) (mem ?s2) (mem s')"
    using fr fl2 tp2 ke2 by auto
  have "vmunmap_loop (Suc k) pt a True s = Ret s'"
    using w s1(1) s'(1) e by (simp add: Let_def pvalid_def)
  moreover have "pte_of s' pt vb = (if in_pages a (Suc k) vb then 0 else pte_of s pt vb)" if "vb < MAXVA" for vb
    using s'(6) p2 [OF that] that in_pages_Suc [OF Suc.prems(2) v(2), of k vb] by auto
  moreover have "same_outside (table_pages s pt \<union> set (frames (Suc k) s pt a)) (mem s) (mem s')"
  proof -
    have "same_outside (insert ?q (table_pages s pt)) (mem s) (mem ?s2)"
      using same_outside_trans [OF s1(4) st(3)] st(4) s1(7) by (auto intro: same_outside_mono)
    from same_outside_trans [OF this s'(7)] show ?thesis by (rule same_outside_mono) auto
  qed
  ultimately show ?case using s' by auto
qed

end
