(* ===== verification/Uvm.thy ===== *)
theory Uvm
  imports Vmspec
begin

text \<open>
  Address spaces: the laws of \<^verbatim>\<open>uvmalloc\<close>, \<^verbatim>\<open>uvmalloc1\<close>, \<^verbatim>\<open>uvmdealloc\<close>,
  \<^verbatim>\<open>uvmcopy\<close> and of the copies between user and kernel memory. \<open>filled\<close> is the
  invariant their loops share: a range of fresh pages has been mapped, and the
  free pages, the new pages and the pages of the table still account for every page.
\<close>

section \<open>Filling a range with fresh pages\<close>

definition page_bytes :: "kstate \<Rightarrow> u64 \<Rightarrow> u64 \<Rightarrow> u8" where
  "page_bytes s p off = mem s (p + off)"

definition page_no :: "u64 \<Rightarrow> nat \<Rightarrow> u64" where
  "page_no base i = base + of_nat i * PGSIZE"

definition filled ::
  "kstate \<Rightarrow> kstate \<Rightarrow> u64 \<Rightarrow> u64 \<Rightarrow> nat \<Rightarrow> (nat \<Rightarrow> u32) \<Rightarrow> (nat \<Rightarrow> u64 \<Rightarrow> u8) \<Rightarrow> bool" where
  "filled s0 s pt base j fl cont \<longleftrightarrow>
     pt_inv s pt \<and> kernel_end s = kernel_end s0 \<and> leaves j s pt base
     \<and> (\<forall>vb < MAXVA. \<not> in_pages base j vb \<longrightarrow> pte_of s pt vb = pte_of s0 pt vb)
     \<and> (\<forall>i < j. pte_of s pt (page_no base i) = leaf_pte (frames j s pt base ! i) (fl i)
          \<and> (\<forall>off < PGSIZE. page_bytes s (frames j s pt base ! i) off = cont i off))
     \<and> set (free_list s) \<union> set (frames j s pt base) \<union> table_pages s pt
         = set (free_list s0) \<union> table_pages s0 pt
     \<and> same_outside (set (free_list s0) \<union> table_pages s0 pt) (mem s0) (mem s)"

lemma filled_0:
  "pt_inv s pt \<Longrightarrow> filled s s pt base 0 fl cont"
  by (auto simp: filled_def leaves_def)

lemma length_frames [simp]: "length (frames k s pt a) = k"
  by (induction k arbitrary: a) auto

lemma frames_snoc: "frames (Suc k) s pt a = frames k s pt a @ [PTE2PA (pte_of s pt (page_no a k))]"
proof (induction k arbitrary: a)
  case (Suc k)
  have "page_no (a + PGSIZE) k = page_no a (Suc k)" by (simp add: page_no_def algebra_simps)
  then show ?case using Suc [of "a + PGSIZE"] by simp
qed (simp add: page_no_def)

lemma nth_frames: "i < k \<Longrightarrow> frames k s pt a ! i = PTE2PA (pte_of s pt (page_no a i))"
proof (induction k)
  case (Suc k)
  then show ?case by (cases "i = k") (auto simp: frames_snoc nth_append simp del: frames.simps)
qed simp

lemma unat_page_no:
  assumes "unat base + 4096 * j \<le> 2 ^ 46"
  shows "unat (page_no base j) = unat base + 4096 * j"
proof -
  have "4096 * j < 2 ^ 64" using assms by simp
  then have "unat (of_nat j * PGSIZE :: u64) = 4096 * j"
    by (simp add: unat_word_ariths unat_of_nat)
  then show ?thesis using assms by (simp add: page_no_def unat_word_ariths)
qed

lemma page_no_props:
  assumes "page_aligned base" and "unat base + 4096 * Suc j \<le> 2 ^ 46"
  shows "page_aligned (page_no base j)" "page_no base j < MAXVA"
    "in_pages base (Suc j) vb \<longleftrightarrow> in_pages base j vb \<or> PGROUNDDOWN vb = page_no base j"
    "PGROUNDDOWN vb = page_no base j \<Longrightarrow> \<not> in_pages base j vb"
proof -
  have u: "unat (page_no base j) = unat base + 4096 * j" using assms(2) by (intro unat_page_no) simp
  show al: "page_aligned (page_no base j)" using assms(1) by (simp only: page_simps u) simp
  show "page_no base j < MAXVA" using assms(2) u by (simp add: word_less_nat_alt)
  have "PGROUNDDOWN vb = page_no base j \<longleftrightarrow>
      unat (page_no base j) \<le> unat vb \<and> unat vb < unat (page_no base j) + 4096"
    using in_page_iff [OF al, of vb] assms(2) u
    by (auto simp: word_less_nat_alt unat_sub_if_size word_size)
  then show "in_pages base (Suc j) vb \<longleftrightarrow> in_pages base j vb \<or> PGROUNDDOWN vb = page_no base j"
    "PGROUNDDOWN vb = page_no base j \<Longrightarrow> \<not> in_pages base j vb"
    by (auto simp: in_pages_def u)
qed

lemma in_pages_page_no: "i < j \<Longrightarrow> unat base + 4096 * j \<le> 2 ^ 46 \<Longrightarrow> in_pages base j (page_no base i)"
  using unat_page_no [of base i] by (simp add: in_pages_def)

text \<open>Permissions that fit in the low 12 bits of an entry.\<close>

definition perm_ok :: "u32 \<Rightarrow> bool" where
  "perm_ok perm \<longleftrightarrow> perm < 4096"

lemma leaf_pte_props:
  assumes "dmw_page p" and "perm_ok perm"
  shows "PTE2PA (leaf_pte p perm) = p" "PTE_FLAGS (leaf_pte p perm) \<noteq> PTE_V"
proof -
  have pm: "unat perm < 2 ^ 12" using assms(2) by (simp add: perm_ok_def word_less_nat_alt)
  then have "take_bit 12 perm = perm" by (simp add: word_unat_eq_iff unsigned_take_bit_eq take_bit_nat_eq_self)
  then have hi: "\<not> bit perm n" if "n \<ge> 12" for n using that by (metis bit_take_bit_iff not_le)
  have "\<not> bit (scast perm :: u64) n" if "n \<ge> 12" for n
    using that hi by (auto simp: bit_simps bit_signed_iff split: if_splits)
  moreover have "bit PAMASK n \<Longrightarrow> n \<ge> 12" for n
    by (rule ccontr) (simp add: bit_push_bit_iff del: push_bit_numeral push_bit_of_1)
  ultimately have "scast perm AND PAMASK = 0"
    by (auto simp: word_bits_eq_iff bit_and_iff simp del: PAMASK_def)
  then have "(scast perm OR PTE_V OR PTE_MAT OR PTE_D) AND PAMASK = 0"
    by (simp add: bit.conj_disj_distrib2)
  from PTE2PA_PA2PTE [OF assms(1) this] show "PTE2PA (leaf_pte p perm) = p"
    by (simp add: leaf_pte_def or.assoc)
  have "bit (PTE_FLAGS (leaf_pte p perm)) 4"
    by (simp add: PTE_FLAGS_def leaf_pte_def bit_simps)
  moreover have "\<not> bit PTE_V 4" by simp
  ultimately show "PTE_FLAGS (leaf_pte p perm) \<noteq> PTE_V" by metis
qed


lemma mappages_page:
  "page_aligned a \<Longrightarrow> mappages pt a PGSIZE pa perm s = mappages_loop 0 pt a pa perm s"
  using PGROUNDDOWN_add [of a 4095] by (simp add: mappages_def add_diff_eq [symmetric])

lemma pte_of_page: "vb < MAXVA \<Longrightarrow> pte_of s pt (PGROUNDDOWN vb) = pte_of s pt vb"
proof -
  assume vb: "vb < MAXVA"
  then have "PGROUNDDOWN vb < MAXVA" using PGROUNDDOWN_le [of vb] by (rule order_le_less_trans [rotated])
  then have "same_path l (PGROUNDDOWN vb) vb" if "l \<le> 3" for l
    using vb same_path_3 [of "PGROUNDDOWN vb" vb] that by (auto simp: same_path_def)
  moreover have "same_path l va vb \<Longrightarrow> slot l m pt va = slot l m pt vb" for l m pt va
    by (induction l arbitrary: pt) (auto simp: same_path_Suc Let_def)
  ultimately show ?thesis unfolding pte_of_def leaf_def by simp
qed

text \<open>Writing a fresh page keeps the table.\<close>

lemma fresh_page:
  assumes inv: "pt_inv s pt" and ka: "kalloc s = (p, s1)" "p \<noteq> 0" and so: "same_outside {p} (mem s1) m2"
  shows "free_list s = p # free_list (s1\<lparr>mem := m2\<rparr>)" "pt_inv (s1\<lparr>mem := m2\<rparr>) pt"
    "pte_of (s1\<lparr>mem := m2\<rparr>) pt va = pte_of s pt va" "table_pages (s1\<lparr>mem := m2\<rparr>) pt = table_pages s pt"
    "same_outside {p} (mem s) m2" "kernel_end s1 = kernel_end s" "p \<notin> set (free_list (s1\<lparr>mem := m2\<rparr>))"
    "ram_page s p" "p \<notin> table_pages s pt"
proof -
  let ?s2 = "s1\<lparr>mem := m2\<rparr>"
  note k = pt_invD [OF inv]
  have fl: "free_list s = p # free_list s1" and wf1: "kmem_wf s1" and pn: "p \<notin> set (free_list s1)"
    and so1: "same_outside {p} (mem s) (mem s1)" and ram: "ram_page s p"
    using ka.alloc_cases [OF k(1) ka(1)] ka(2) by metis+
  obtain s1' where "kalloc s = (p, s1')" "kernel_end s1' = kernel_end s"
    using kalloc_refines [OF k(1) fl] by metis
  then show ke: "kernel_end s1 = kernel_end s" using ka(1) by simp
  show so2: "same_outside {p} (mem s) m2" using same_outside_trans [OF so1 so] by simp
  have up: "kmem_wf ?s2" "free_list ?s2 = free_list s1"
    using ka.update_pool [OF wf1 so] pn by auto
  show "free_list s = p # free_list ?s2" "p \<notin> set (free_list ?s2)" "ram_page s p"
    using fl up pn ram by auto
  show np: "p \<notin> table_pages s pt" using k(2) fl by auto
  have "table_pages s pt \<inter> {p} = {}" "table_pages s pt \<inter> set (free_list ?s2) = {}"
    using k(2) fl up by auto
  note f = pt_inv_frame [of s pt "{p}" ?s2, OF inv _ this(1) up(1) _ this(2)]
  show "pt_inv ?s2 pt" "pte_of ?s2 pt va = pte_of s pt va" "table_pages ?s2 pt = table_pages s pt"
    using f so2 ke by simp_all
qed

lemma filled_frames_kept:
  assumes "filled s0 s pt base j fl cont" and "\<And>q. q \<in> set (frames j s pt base) \<Longrightarrow> q \<notin> ps"
    and "same_outside ps (mem s) (mem s')" and "i < j" and "off < PGSIZE"
  shows "page_bytes s' (frames j s pt base ! i) off = cont i off"
proof -
  let ?q = "frames j s pt base ! i"
  have q: "?q \<in> set (frames j s pt base)" using assms(4) by simp
  then have "page_aligned ?q" using assms(1) by (auto simp: filled_def leaves_def ram_page_def)
  then have "PGROUNDDOWN (?q + off) = ?q" using assms(5) by (simp add: PGROUNDDOWN_add)
  then have "mem s' (?q + off) = mem s (?q + off)"
    using assms(2) [OF q] assms(3) by (simp add: same_outside_def)
  then show ?thesis using assms(1,4,5) by (simp add: filled_def page_bytes_def)
qed


lemma filledD:
  assumes "filled s0 s pt base j fl cont"
  shows "pt_inv s pt" "kernel_end s = kernel_end s0" "leaves j s pt base"
    "vb < MAXVA \<Longrightarrow> \<not> in_pages base j vb \<Longrightarrow> pte_of s pt vb = pte_of s0 pt vb"
    "i < j \<Longrightarrow> pte_of s pt (page_no base i) = leaf_pte (frames j s pt base ! i) (fl i)"
    "set (free_list s) \<union> set (frames j s pt base) \<union> table_pages s pt = set (free_list s0) \<union> table_pages s0 pt"
    "same_outside (set (free_list s0) \<union> table_pages s0 pt) (mem s0) (mem s)"
    "set (frames j s pt base) \<inter> (set (free_list s) \<union> table_pages s pt) = {}"
  using assms unfolding filled_def leaves_def by auto

lemma filled_outside_trans:
  assumes "filled s0 s pt base j fl cont" and "same_outside (set (free_list s) \<union> table_pages s pt) (mem s) m"
  shows "same_outside (set (free_list s0) \<union> table_pages s0 pt) (mem s0) m"
  using same_outside_trans [OF filledD(7) [OF assms(1)] assms(2)] filledD(6) [OF assms(1)]
  by (auto elim!: same_outside_mono)

lemma filled_cong:
  assumes F: "filled s0 s pt base j fl cont" and base: "page_aligned base" "unat base + 4096 * j \<le> 2 ^ 46"
    and inv: "pt_inv s' pt" and ke: "kernel_end s' = kernel_end s"
    and pte: "\<And>vb. vb < MAXVA \<Longrightarrow> pte_of s' pt vb = pte_of s pt vb"
    and acc: "set (free_list s') \<union> table_pages s' pt = set (free_list s) \<union> table_pages s pt"
    and so: "same_outside (set (free_list s) \<union> table_pages s pt) (mem s) (mem s')"
  shows "filled s0 s' pt base j fl cont"
proof -
  note D = filledD [OF F]
  have fr: "frames j s' pt base = frames j s pt base" using frames_cong [OF _ base] pte by blast
  have lv: "leaves j s' pt base"
    using D(3) D(8) pte ke acc unfolding leaves_def fr by (auto simp: ram_page_def simp del: MAXVA_def)
  have pg: "page_no base i < MAXVA" if "i < j" for i
    using that base(2) unat_page_no [of base i] by (simp add: word_less_nat_alt)
  have bytes: "page_bytes s' (frames j s pt base ! i) off = cont i off" if "i < j" "off < PGSIZE" for i off
    using filled_frames_kept [OF F _ so that] D(8) by auto
  show ?thesis unfolding filled_def fr
    using inv ke D(2,4,5,6) lv pte pg acc bytes filled_outside_trans [OF F so] by auto
qed

lemma filled_snoc:
  assumes F: "filled s0 s pt base j fl cont" and base: "page_aligned base" "unat base + 4096 * Suc j \<le> 2 ^ 46"
    and inv: "pt_inv s' pt" and ke: "kernel_end s' = kernel_end s"
    and pte: "\<And>vb. vb < MAXVA \<Longrightarrow> pte_of s' pt vb =
      (if PGROUNDDOWN vb = page_no base j then leaf_pte p (fl j) else pte_of s pt vb)"
    and acc: "insert p (set (free_list s') \<union> table_pages s' pt) = set (free_list s) \<union> table_pages s pt"
    and p: "p \<notin> set (free_list s') \<union> table_pages s' pt" "ram_page s p" "perm_ok (fl j)"
    and so: "same_outside (set (free_list s) \<union> table_pages s pt) (mem s) (mem s')"
    and cont: "\<And>off. off < PGSIZE \<Longrightarrow> page_bytes s' p off = cont j off"
  shows "filled s0 s' pt base (Suc j) fl cont"
proof -
  note D = filledD [OF F]
  have b: "unat base + 4096 * j \<le> 2 ^ 46" using base(2) by simp
  note pn = page_no_props [OF base]
  have dmw: "dmw_page p" using p(2) pt_invD(4) [OF D(1)] by (rule ram_page_dmw [rotated])
  note lp = leaf_pte_props [OF dmw p(3)]
  have old: "pte_of s' pt vb = pte_of s pt vb" if "vb < MAXVA" "in_pages base j vb" for vb
    using pte [OF that(1)] pn(4) that(2) by auto
  have new: "pte_of s' pt (page_no base j) = leaf_pte p (fl j)" using pte [OF pn(2)] pn(1) by simp
  have fr: "frames (Suc j) s' pt base = frames j s pt base @ [p]"
    using frames_cong [OF old base(1) b] new lp(1) by (simp add: frames_snoc del: frames.simps)
  have "pvalid (pte_of s' pt vb) \<and> PTE_FLAGS (pte_of s' pt vb) \<noteq> PTE_V"
    if "vb < MAXVA" "in_pages base (Suc j) vb" for vb
    using that(2) pn(3) D(3) old [OF that(1)] pte [OF that(1)] lp(2) leaf_pte_valid that(1)
    unfolding leaves_def by auto
  then have lv: "leaves (Suc j) s' pt base"
    using D(3) D(8) acc p ke unfolding leaves_def fr by (auto simp: ram_page_def simp del: MAXVA_def)
  have pg: "page_no base i < MAXVA" "in_pages base j (page_no base i)" if "i < j" for i
    using that b unat_page_no [of base i] in_pages_page_no [of i j base] by (auto simp: word_less_nat_alt)
  have bytes: "page_bytes s' (frames j s pt base ! i) off = cont i off" if "i < j" "off < PGSIZE" for i off
    using filled_frames_kept [OF F _ so that] D(8) by auto
  have ent: "pte_of s' pt (page_no base i) = leaf_pte ((frames j s pt base @ [p]) ! i) (fl i)
      \<and> (\<forall>off < PGSIZE. page_bytes s' ((frames j s pt base @ [p]) ! i) off = cont i off)" if "i < Suc j" for i
    using that D(5) old pg bytes new cont by (cases "i = j") (auto simp: nth_append simp del: MAXVA_def PGSIZE_def)
  have rest: "pte_of s' pt vb = pte_of s0 pt vb" if "vb < MAXVA" "\<not> in_pages base (Suc j) vb" for vb
    using pte [OF that(1)] D(4) [OF that(1)] that(2) pn(3) by simp
  show ?thesis unfolding filled_def fr
    using inv ke D(2,6) lv rest ent acc filled_outside_trans [OF F so] by auto
qed

lemma filled_step:
  assumes F: "filled s0 s pt base j fl cont" and base: "page_aligned base" "unat base + 4096 * Suc j \<le> 2 ^ 46"
    and un: "pte_of s0 pt (page_no base j) = 0" and perm: "perm_ok (fl j)"
    and ka: "kalloc s = (p, s1)" "p \<noteq> 0" and so: "same_outside {p} (mem s1) m2"
    and cont: "\<And>off. off < PGSIZE \<Longrightarrow> m2 (p + off) = cont j off"
  shows "\<exists>r s2. mappages pt (page_no base j) PGSIZE p (fl j) (s1\<lparr>mem := m2\<rparr>) = Ret (r, s2)
    \<and> (r = 0 \<and> filled s0 s2 pt base (Suc j) fl cont \<and> length (free_list s) \<le> length (free_list s2) + 4
       \<or> r = -1 \<and> (\<exists>s3. kfree p s2 = Ret s3 \<and> filled s0 s3 pt base j fl cont) \<and> length (free_list s) < 4)"
proof -
  note D = filledD [OF F] and pn = page_no_props [OF base]
  let ?sm = "s1\<lparr>mem := m2\<rparr>" and ?a = "page_no base j"
  note f = fresh_page [OF D(1) ka so]
  have unm: "\<not> pvalid (pte_of ?sm pt vb)" if "vb < MAXVA" "in_pages ?a (Suc 0) vb" for vb
  proof -
    have "PGROUNDDOWN vb = ?a"
      using that(2) in_page_iff [OF pn(1), of vb] by (auto simp: in_pages_def word_less_nat_alt unat_sub_if_size)
    then have "pte_of ?sm pt vb = 0"
      using pte_of_page [OF that(1), of s pt] f(3) D(4) [OF pn(2)] pn(4) [of ?a] pn(1) un by simp
    then show ?thesis by (simp add: pvalid_def)
  qed
  have "unat ?a + 4096 * Suc 0 \<le> 2 ^ 46" using base(2) unat_page_no [of base j] by simp
  from mappages_loop_spec [OF f(2) pn(1) this unm, where pa = p and perm = "fl j"]
  obtain r s2 new n where m: "mappages_loop 0 pt ?a p (fl j) ?sm = Ret (r, s2)" "pt_step pt ?sm s2 new"
    "mapped ?sm s2 pt ?a n p (fl j)"
    "r = 0 \<and> n = Suc 0 \<and> length new \<le> 3 \<or> r = -1 \<and> n = 0 \<and> free_list s2 = [] \<and> length new < 3" by auto
  have st: "free_list s = p # new @ free_list s2" "table_pages s2 pt = table_pages s pt \<union> set new"
    "pt_inv s2 pt" "kernel_end s2 = kernel_end s" "same_outside (table_pages s pt \<union> set new) m2 (mem s2)"
    using m(2) f by (auto simp: pt_step_def)
  have dist: "distinct (p # new @ free_list s2)" using st(1) kmem_wfD(2) [OF pt_invD(1) [OF D(1)]] by metis
  have psn: "p \<notin> table_pages s pt \<union> set new" using dist f(9) by auto
  have so2: "same_outside (insert p (table_pages s pt \<union> set new)) (mem s) (mem s2)"
    using same_outside_trans [OF f(5) st(5)] by simp
  then have so2': "same_outside (set (free_list s) \<union> table_pages s pt) (mem s) (mem s2)"
    using st(1) by (auto elim!: same_outside_mono)
  have acc: "insert p (set (free_list s2) \<union> table_pages s2 pt) = set (free_list s) \<union> table_pages s pt"
    using st(1,2) by auto
  have pfree: "p \<notin> set (free_list s2) \<union> table_pages s2 pt" using dist psn st(2) by auto
  have mp: "mappages pt ?a PGSIZE p (fl j) ?sm = Ret (r, s2)" using m(1) mappages_page [OF pn(1)] by simp
  show ?thesis
  proof (cases "r = 0")
    case True
    then have n: "n = Suc 0" using m(4) by auto
    have pte: "pte_of s2 pt vb = (if PGROUNDDOWN vb = ?a then leaf_pte p (fl j) else pte_of s pt vb)"
      if "vb < MAXVA" for vb
    proof -
      have "in_pages ?a (Suc 0) vb \<longleftrightarrow> PGROUNDDOWN vb = ?a"
        using in_pages_Suc [OF pn(1), of 0 vb] pn(2) by (simp add: word_less_nat_alt)
      then show ?thesis using m(3) that f(3) unfolding mapped_def n mapped_pte_def by simp
    qed
    have "page_bytes s2 p off = cont j off" if "off < PGSIZE" for off
    proof -
      have "PGROUNDDOWN (p + off) = p" using that f(8) by (simp add: PGROUNDDOWN_add ram_page_def)
      then have "mem s2 (p + off) = m2 (p + off)" using st(5) psn by (simp add: same_outside_def)
      then show ?thesis using cont [OF that] by (simp add: page_bytes_def)
    qed
    from filled_snoc [OF F base st(3,4) pte acc pfree f(8) perm so2' this]
    show ?thesis using mp True m(4) st(1) by auto
  next
    case False
    then have r: "r = -1" "n = 0" using m(4) by auto
    have ram2: "ram_page s2 p" using f(8) st(4) by (simp add: ram_page_def)
    from pfree obtain s3 where s3: "kfree p s2 = Ret s3" "free_list s3 = p # free_list s2"
      "kernel_end s3 = kernel_end s2" "same_outside {p} (mem s2) (mem s3)" "pt_inv s3 pt"
      "\<And>va. pte_of s3 pt va = pte_of s2 pt va" "table_pages s3 pt = table_pages s2 pt"
      using pt_inv_kfree [OF st(3) ram2] by (metis UnCI)
    have so3: "same_outside (set (free_list s) \<union> table_pages s pt) (mem s) (mem s3)"
      using same_outside_trans [OF so2' s3(4)] st(1) by (auto elim!: same_outside_mono)
    have pte: "pte_of s3 pt vb = pte_of s pt vb" if "vb < MAXVA" for vb
      using m(3) that f(3) s3(6) unfolding mapped_def r(2) by simp
    have acc3: "set (free_list s3) \<union> table_pages s3 pt = set (free_list s) \<union> table_pages s pt"
      using acc s3(2,7) by simp
    have "unat base + 4096 * j \<le> 2 ^ 46" using base(2) by simp
    from filled_cong [OF F base(1) this s3(5) _ pte acc3 so3] s3(3) st(4)
    have "filled s0 s3 pt base j fl cont" by simp
    then show ?thesis using mp r(1) s3(1) m(4) st(1) by auto
  qed
qed


section \<open>Undoing a partial fill\<close>

text \<open>\<open>restored s0 s pt\<close>: the table has its content of \<open>s0\<close> again and no page was lost; page table
  pages that were added stay in the table.\<close>

definition restored :: "kstate \<Rightarrow> kstate \<Rightarrow> u64 \<Rightarrow> bool" where
  "restored s0 s pt \<longleftrightarrow> pt_inv s pt \<and> kernel_end s = kernel_end s0
     \<and> (\<forall>vb < MAXVA. pte_of s pt vb = pte_of s0 pt vb)
     \<and> set (free_list s) \<union> table_pages s pt = set (free_list s0) \<union> table_pages s0 pt
     \<and> same_outside (set (free_list s0) \<union> table_pages s0 pt) (mem s0) (mem s)"

text \<open>\<open>unmapped s pt base n\<close>: the entries of \<open>n\<close> pages from \<open>base\<close> are empty.\<close>

definition unmapped :: "kstate \<Rightarrow> u64 \<Rightarrow> u64 \<Rightarrow> nat \<Rightarrow> bool" where
  "unmapped s pt base n \<longleftrightarrow> (\<forall>vb < MAXVA. in_pages base n vb \<longrightarrow> pte_of s pt vb = 0)"

lemma unmapped_mono: "unmapped s pt base n \<Longrightarrow> k \<le> n \<Longrightarrow> unmapped s pt base k"
  by (auto simp: unmapped_def in_pages_def)

lemma filled_rollback:
  assumes F: "filled s0 s pt base j fl cont" and base: "page_aligned base" "unat base + 4096 * j \<le> 2 ^ 46"
    and un: "unmapped s0 pt base j"
  shows "\<exists>s'. vmunmap_loop j pt base True s = Ret s' \<and> restored s0 s' pt"
proof -
  note D = filledD [OF F]
  from vmunmap_loop_spec [OF D(1) base D(3)] obtain s' where s': "vmunmap_loop j pt base True s = Ret s'"
    "free_list s' = rev (frames j s pt base) @ free_list s" "pt_inv s' pt"
    "table_pages s' pt = table_pages s pt" "kernel_end s' = kernel_end s"
    "\<And>vb. vb < MAXVA \<Longrightarrow> pte_of s' pt vb = (if in_pages base j vb then 0 else pte_of s pt vb)"
    "same_outside (table_pages s pt \<union> set (frames j s pt base)) (mem s) (mem s')" by blast
  have "pte_of s' pt vb = pte_of s0 pt vb" if "vb < MAXVA" for vb
    using s'(6) [OF that] D(4) [OF that] un that by (auto simp: unmapped_def)
  moreover have "set (free_list s') \<union> table_pages s' pt = set (free_list s0) \<union> table_pages s0 pt"
    using s'(2,4) D(6) by auto
  moreover have "same_outside (set (free_list s0) \<union> table_pages s0 pt) (mem s0) (mem s')"
    using same_outside_trans [OF D(7) s'(7)] D(6) by (auto elim!: same_outside_mono)
  ultimately show ?thesis using s'(1,3,5) D(2) by (auto simp: restored_def)
qed

lemma vmunmap_eq:
  assumes "page_aligned base" and "unat base + 4096 * j \<le> 2 ^ 46"
  shows "vmunmap pt base (of_nat j) do_free s = vmunmap_loop j pt base do_free s"
proof -
  have u: "unat (page_no base j) = unat base + 4096 * j" by (rule unat_page_no [OF assms(2)])
  have "base < page_no base j \<longleftrightarrow> j \<noteq> 0" using u by (simp add: word_less_nat_alt)
  moreover have "unat ((page_no base j - base) div PGSIZE) = j"
  proof -
    have "unat (page_no base j - base) = 4096 * j"
      using u by (simp add: unat_sub word_le_nat_alt)
    then show ?thesis by (simp add: unat_div_distrib)
  qed
  ultimately show ?thesis
    using assms(1) by (simp add: vmunmap_def page_aligned_def page_no_def Let_def)
qed

lemma frames_bound:
  assumes "pt_inv s pt" and "leaves j s pt base"
  shows "j \<le> 32768"
proof -
  have "distinct (frames j s pt base)" "\<forall>x \<in> set (frames j s pt base). ram_page s x"
    using assms(2) by (auto simp: leaves_def)
  from ram_pages_bound [OF pt_invD(4) [OF assms(1)] this] show ?thesis by simp
qed

lemma int_npages_id:
  assumes "j < 2 ^ 31"
  shows "int_npages (of_nat j) = of_nat j"
proof -
  let ?w = "of_nat j :: u32"
  have uc: "ucast (of_nat j :: u64) = ?w"
    using assms by (simp add: word_unat_eq_iff unsigned_ucast_eq unsigned_of_nat take_bit_nat_eq_self)
  have "take_bit 31 ?w = ?w"
    using assms by (simp add: word_unat_eq_iff unsigned_take_bit_eq unsigned_of_nat take_bit_nat_eq_self)
  then have hi: "\<not> bit ?w n" if "31 \<le> n" for n using that by (metis bit_take_bit_iff not_le)
  have "scast w = (ucast w :: u64)" if "\<And>n. 31 \<le> n \<Longrightarrow> \<not> bit w n" for w :: u32
    using that by (intro bit_word_eqI, rename_tac n, case_tac "n < 31") (auto simp: bit_simps bit_signed_iff min_def)
  then have "scast ?w = (ucast ?w :: u64)" using hi by blast
  also have "\<dots> = of_nat j"
    using assms by (simp add: word_unat_eq_iff unsigned_ucast_eq unsigned_of_nat take_bit_nat_eq_self)
  finally show ?thesis by (simp add: int_npages_def uc)
qed

lemma PGROUNDUP_aligned: "page_aligned a \<Longrightarrow> unat a + 4095 < 2 ^ 64 \<Longrightarrow> PGROUNDUP a = a"
  using PGROUNDUP_props(2,3) [of a] by (metis order_antisym order_refl)


lemma page_count:
  assumes "page_aligned base" and "unat base + 4096 * j \<le> 2 ^ 46" and "j < 2 ^ 31"
  shows "PGROUNDUP base = base" "PGROUNDUP (page_no base j) = page_no base j"
    "base < page_no base j \<longleftrightarrow> 0 < j" "int_npages ((page_no base j - base) div PGSIZE) = of_nat j"
proof -
  have u: "unat (page_no base j) = unat base + 4096 * j" by (rule unat_page_no [OF assms(2)])
  have "page_aligned (page_no base j)" using assms(1) by (simp only: page_simps u) simp
  then show "PGROUNDUP (page_no base j) = page_no base j"
    using u assms(2) by (intro PGROUNDUP_aligned) auto
  show "PGROUNDUP base = base" using assms(1,2) by (intro PGROUNDUP_aligned) auto
  show "base < page_no base j \<longleftrightarrow> 0 < j" using u by (simp add: word_less_nat_alt)
  have "unat (page_no base j - base) = 4096 * j" using u by (simp add: unat_sub word_le_nat_alt)
  then have "(page_no base j - base) div PGSIZE = of_nat j"
    using assms(3) by (simp add: word_unat_eq_iff unat_div_distrib unsigned_of_nat take_bit_nat_eq_self)
  then show "int_npages ((page_no base j - base) div PGSIZE) = of_nat j"
    using int_npages_id [OF assms(3)] by simp
qed

lemma uvmdealloc_rollback:
  assumes F: "filled s0 s pt base j fl cont" and base: "page_aligned base" "unat base + 4096 * j \<le> 2 ^ 46"
    and un: "unmapped s0 pt base j"
  shows "\<exists>r s'. uvmdealloc pt (page_no base j) base s = Ret (r, s') \<and> restored s0 s' pt"
    and "\<exists>r s'. uvmdealloc1 pt base (page_no base j) s = Ret (r, s') \<and> restored s0 s' pt"
proof -
  have "j < 2 ^ 31" using frames_bound [OF filledD(1) [OF F] filledD(3) [OF F]] by simp
  note pc = page_count [OF base this]
  from filled_rollback [OF F base un] obtain s' where
    s': "vmunmap_loop j pt base True s = Ret s'" "restored s0 s' pt" by blast
  then have v: "vmunmap pt base (of_nat j) True s = Ret s'" by (simp add: vmunmap_eq [OF base])
  have z: "s' = s" if "\<not> 0 < j" using that s'(1) by simp
  show "\<exists>r s'. uvmdealloc pt (page_no base j) base s = Ret (r, s') \<and> restored s0 s' pt"
    using pc v s'(2) z by (cases "0 < j") (auto simp: uvmdealloc_def not_le)
  show "\<exists>r s'. uvmdealloc1 pt base (page_no base j) s = Ret (r, s') \<and> restored s0 s' pt"
    using pc v s'(2) z by (cases "0 < j") (auto simp: uvmdealloc1_def not_le)
qed

section \<open>uvmalloc\<close>

lemma page_no_Suc: "page_no base j + PGSIZE = page_no base (Suc j)"
  by (simp add: page_no_def algebra_simps)

lemma unmapped_page:
  assumes "unmapped s pt base n" and "j < n" and "page_aligned base" and "unat base + 4096 * n \<le> 2 ^ 46"
  shows "pte_of s pt (page_no base j) = 0"
proof -
  have "page_no base j < MAXVA" using assms(2,4) unat_page_no [of base j] by (simp add: word_less_nat_alt)
  then show ?thesis using assms in_pages_page_no [of j n base] by (auto simp: unmapped_def)
qed

lemma kalloc_fail: "pt_inv s pt \<Longrightarrow> kalloc s = (0, s1) \<Longrightarrow> s1 = s \<and> free_list s = []"
  using ka.alloc_cases [OF pt_invD(1)] by metis

lemma zeroed_page:
  assumes "page_aligned p"
  shows "same_outside {p} m (memset m p 0 4096)" "off < PGSIZE \<Longrightarrow> memset m p 0 4096 (p + off) = 0"
  using same_outside_memset [OF assms] by (auto simp: memset_eq word_less_nat_alt)

text \<open>One round of the loops of \<^verbatim>\<open>uvmalloc\<close> and \<^verbatim>\<open>uvmalloc1\<close>: no page is left, or the page is mapped, or mapping it fails
  and it is given back.\<close>

lemma grow_round:
  assumes F: "filled s0 s pt base j (\<lambda>_. perm) (\<lambda>_ _. 0)" and base: "page_aligned base" "unat base + 4096 * n \<le> 2 ^ 46"
    and un: "unmapped s0 pt base n" "j < n" and perm: "perm_ok perm" and ka: "kalloc s = (p, s1)"
  obtains (none) "p = 0" "s1 = s" "free_list s = []"
  | (mapped) s2 where "p \<noteq> 0" "mappages pt (page_no base j) PGSIZE p perm (s1\<lparr>mem := memset (mem s1) p 0 4096\<rparr>) = Ret (0, s2)"
      "filled s0 s2 pt base (Suc j) (\<lambda>_. perm) (\<lambda>_ _. 0)" "length (free_list s) \<le> length (free_list s2) + 4"
  | (failed) s2 s3 where "p \<noteq> 0" "mappages pt (page_no base j) PGSIZE p perm (s1\<lparr>mem := memset (mem s1) p 0 4096\<rparr>) = Ret (-1, s2)"
      "kfree p s2 = Ret s3" "filled s0 s3 pt base j (\<lambda>_. perm) (\<lambda>_ _. 0)" "length (free_list s) < 4"
proof (cases "p = 0")
  case True
  then show ?thesis using none kalloc_fail [OF filledD(1) [OF F]] ka by auto
next
  case False
  have al: "page_aligned p" using fresh_page(8) [OF filledD(1) [OF F] ka False same_outside_refl] by (rule ram_page_aligned)
  have z: "pte_of s0 pt (page_no base j) = 0" by (rule unmapped_page [OF un base])
  have "4096 * Suc j \<le> 4096 * n" using un(2) by (intro mult_le_mono2) simp
  then have b: "unat base + 4096 * Suc j \<le> 2 ^ 46" using base(2) by linarith
  show ?thesis using filled_step [OF F base(1) b z perm ka False zeroed_page [OF al]] mapped failed False by blast
qed

lemma uvmalloc_loop_spec:
  assumes "filled s0 s pt base j (\<lambda>_. perm OR 12) (\<lambda>_ _. 0)" and "page_aligned base"
    and "unat base + 4096 * (j + k) \<le> 2 ^ 46" and "unmapped s0 pt base (j + k)" and "perm_ok (perm OR 12)"
  shows "\<exists>r s'. uvmalloc_loop k pt (page_no base j) base newsz perm s = Ret (r, s')
    \<and> (r = newsz \<and> filled s0 s' pt base (j + k) (\<lambda>_. perm OR 12) (\<lambda>_ _. 0)
      \<or> r = 0 \<and> restored s0 s' pt \<and> length (free_list s) < 4 * k)"
  using assms
proof (induction k arbitrary: j s)
  case (Suc k)
  note F = Suc.prems(1)
  have b: "unat base + 4096 * j \<le> 2 ^ 46" using Suc.prems(3) by simp
  note rb = uvmdealloc_rollback(1) [OF _ Suc.prems(2) b unmapped_mono [OF Suc.prems(4), of j]]
  obtain p s1 where ka: "kalloc s = (p, s1)" by (cases "kalloc s")
  have j: "j < j + Suc k" by simp
  from F Suc.prems(2-4) j Suc.prems(5) ka show ?case
  proof (cases rule: grow_round)
    case none
    moreover obtain r s' where "uvmdealloc pt (page_no base j) base s = Ret (r, s')" "restored s0 s' pt"
      using rb [OF F] by auto
    ultimately show ?thesis using ka by auto
  next
    case (mapped s2)
    have "unat base + 4096 * (Suc j + k) \<le> 2 ^ 46" "unmapped s0 pt base (Suc j + k)" using Suc.prems(3,4) by auto
    from Suc.IH [OF mapped(3) Suc.prems(2) this Suc.prems(5)] show ?thesis
      using ka mapped(1,2,4) by (fastforce simp: page_no_Suc simp del: PGSIZE_def)
  next
    case (failed s2 s3)
    moreover obtain r' s' where "uvmdealloc pt (page_no base j) base s3 = Ret (r', s')" "restored s0 s' pt"
      using rb [OF failed(4)] by auto
    ultimately show ?thesis using ka by auto
  qed
qed auto

lemma uvmalloc1_loop_spec:
  assumes "filled s0 s pt base j (\<lambda>_. perm) (\<lambda>_ _. 0)" and "page_aligned base"
    and "unat base + 4096 * (j + k) \<le> 2 ^ 46" and "unmapped s0 pt base (j + k)" and "perm_ok perm"
  shows "\<exists>r s'. uvmalloc1_loop k pt (page_no base j) base perm s = Ret (r, s')
    \<and> (r = 0 \<and> filled s0 s' pt base (j + k) (\<lambda>_. perm) (\<lambda>_ _. 0)
      \<or> r = -1 \<and> restored s0 s' pt \<and> length (free_list s) < 4 * k)"
  using assms
proof (induction k arbitrary: j s)
  case (Suc k)
  note F = Suc.prems(1)
  have b: "unat base + 4096 * j \<le> 2 ^ 46" using Suc.prems(3) by simp
  note rb = uvmdealloc_rollback(2) [OF _ Suc.prems(2) b unmapped_mono [OF Suc.prems(4), of j]]
  obtain p s1 where ka: "kalloc s = (p, s1)" by (cases "kalloc s")
  have j: "j < j + Suc k" by simp
  from F Suc.prems(2-4) j Suc.prems(5) ka show ?case
  proof (cases rule: grow_round)
    case none
    moreover obtain r s' where "uvmdealloc1 pt base (page_no base j) s = Ret (r, s')" "restored s0 s' pt"
      using rb [OF F] by auto
    ultimately show ?thesis using ka by auto
  next
    case (mapped s2)
    have "unat base + 4096 * (Suc j + k) \<le> 2 ^ 46" "unmapped s0 pt base (Suc j + k)" using Suc.prems(3,4) by auto
    from Suc.IH [OF mapped(3) Suc.prems(2) this Suc.prems(5)] show ?thesis
      using ka mapped(1,2,4) by (fastforce simp: page_no_Suc simp del: PGSIZE_def)
  next
    case (failed s2 s3)
    moreover obtain r' s' where "uvmdealloc1 pt base (page_no base j) s3 = Ret (r', s')" "restored s0 s' pt"
      using rb [OF failed(4)] by auto
    ultimately show ?thesis using ka by auto
  qed
qed auto

lemma pages_below_bound:
  assumes "page_aligned base" and "unat limit \<le> 2 ^ 46" and "unat base \<le> 2 ^ 46"
  shows "unat base + 4096 * pages_below base limit \<le> 2 ^ 46"
proof (cases "base < limit")
  case True
  let ?x = "unat limit - unat base"
  obtain q where q: "unat base = 4096 * q" using assms(1) by (auto simp: page_simps)
  have "unat base \<le> unat limit" using True by (simp add: word_less_nat_alt)
  then have "pages_below base limit = (?x + 4095) div 4096"
    using True by (simp add: pages_below_def unat_sub word_le_nat_alt)
  then have "4096 * pages_below base limit \<le> ?x + 4095" by simp
  then have "4096 * (q + pages_below base limit) \<le> 2 ^ 46 + 4095"
    using q assms(2) \<open>unat base \<le> unat limit\<close> by (simp add: distrib_left)
  then have "q + pages_below base limit \<le> 2 ^ 34" by simp
  then show ?thesis using q by (simp add: distrib_left)
qed (use assms in \<open>simp add: pages_below_def\<close>)

section \<open>uvmcopy\<close>

text \<open>What the child of a \<^verbatim>\<open>fork\<close> gets for page \<open>i\<close>: the low flags of the parent's entry and the
  bytes of the parent's page.\<close>

definition copy_flags :: "kstate \<Rightarrow> u64 \<Rightarrow> nat \<Rightarrow> u32" where
  "copy_flags s old i = ucast (PTE_FLAGS (pte_of s old (page_no 0 i)))"

definition copy_bytes :: "kstate \<Rightarrow> u64 \<Rightarrow> nat \<Rightarrow> u64 \<Rightarrow> u8" where
  "copy_bytes s old i off = mem s (PTE2PA (pte_of s old (page_no 0 i)) + off)"

text \<open>\<open>separate s old new n\<close>: the two tables share no page, and the first \<open>n\<close> pages of \<open>old\<close> are
  mapped to pages of RAM that are neither free nor pages of \<open>new\<close>.\<close>

definition separate :: "kstate \<Rightarrow> u64 \<Rightarrow> u64 \<Rightarrow> nat \<Rightarrow> bool" where
  "separate s old new n \<longleftrightarrow> pt_inv s old \<and> pt_inv s new \<and> table_pages s old \<inter> table_pages s new = {}
     \<and> (\<forall>i < n. pvalid (pte_of s old (page_no 0 i)) \<and> ram_page s (PTE2PA (pte_of s old (page_no 0 i)))
          \<and> PTE2PA (pte_of s old (page_no 0 i)) \<notin> set (free_list s) \<union> table_pages s new)"

lemma copy_flags_ok: "perm_ok (copy_flags s old i)"
proof -
  let ?e = "pte_of s old (page_no 0 i)"
  have "copy_flags s old i = ucast ?e AND ucast (0xE0000000000001FF :: u64)"
    unfolding copy_flags_def PTE_FLAGS_def by (rule bit_word_eqI) (auto simp: bit_simps)
  moreover have "ucast (0xE0000000000001FF :: u64) = (0x1FF :: u32)" by simp
  ultimately have "copy_flags s old i \<le> 0x1FF" using word_and_le1 by metis
  then show ?thesis by (simp add: perm_ok_def word_le_nat_alt word_less_nat_alt)
qed

lemma old_table_kept:
  assumes F: "filled s0 s new 0 j fl cont" and sep: "separate s0 old new n"
  shows "pt_inv s old" "pte_of s old va = pte_of s0 old va"
    "i < n \<Longrightarrow> off < PGSIZE \<Longrightarrow> copy_bytes s old i off = copy_bytes s0 old i off"
proof -
  note D = filledD [OF F]
  have o: "pt_inv s0 old" "table_pages s0 old \<inter> table_pages s0 new = {}" using sep by (auto simp: separate_def)
  have disj: "table_pages s0 old \<inter> (set (free_list s0) \<union> table_pages s0 new) = {}"
    using o pt_invD(2) [OF o(1)] by auto
  then have "table_pages s0 old \<inter> set (free_list s) = {}" using D(6) by auto
  note f = pt_inv_frame [OF o(1) D(7) disj pt_invD(1) [OF D(1)] D(2) this]
  show "pt_inv s old" and pte: "pte_of s old va = pte_of s0 old va" for va by (rule f)+
  show "copy_bytes s old i off = copy_bytes s0 old i off" if "i < n" "off < PGSIZE"
  proof -
    let ?q = "PTE2PA (pte_of s0 old (page_no 0 i))"
    have "ram_page s0 ?q" "?q \<notin> set (free_list s0) \<union> table_pages s0 new" using sep that(1) by (auto simp: separate_def)
    moreover from this(1) have "PGROUNDDOWN (?q + off) = ?q"
      using that(2) by (simp add: PGROUNDDOWN_add ram_page_def)
    ultimately show ?thesis using D(7) pte by (simp add: copy_bytes_def same_outside_def)
  qed
qed

lemma copied_page:
  assumes "ram_page s0 p" and "ram_page s0 q" and "off < PGSIZE"
  shows "same_outside {p} m (memmove m p q 4096)" "memmove m p q 4096 (p + off) = m (q + off)"
proof -
  have b: "unat q + unat (4096 :: u32) < 2 ^ 64" "unat p + unat (4096 :: u32) < 2 ^ 64"
    using assms(1,2) by (auto simp: ram_page_def word_less_nat_alt)
  show "same_outside {p} m (memmove m p q 4096)"
    using assms(1) by (auto simp: same_outside_def memmove_eq [OF b] in_page_iff ram_page_def word_less_nat_alt)
  show "memmove m p q 4096 (p + off) = m (q + off)"
    using assms(3) by (simp add: memmove_eq [OF b] word_less_nat_alt)
qed


lemma uvmcopy_loop_spec:
  assumes "filled s0 s new 0 j (copy_flags s0 old) (copy_bytes s0 old)" and "separate s0 old new (j + k)"
    and "4096 * (j + k) \<le> 2 ^ 46" and "unmapped s0 new 0 (j + k)"
  shows "\<exists>r s'. uvmcopy_loop k old new (page_no 0 j) s = Ret (r, s')
    \<and> (r = 0 \<and> filled s0 s' new 0 (j + k) (copy_flags s0 old) (copy_bytes s0 old) 
      \<or> r = -1 \<and> restored s0 s' new \<and> length (free_list s) < 4 * k)"
  using assms
proof (induction k arbitrary: j s)
  case (Suc k)
  note F = Suc.prems(1)
  note D = filledD [OF F]
  have b: "unat (0::u64) + 4096 * j \<le> 2 ^ 46" "unat (0::u64) + 4096 * Suc j \<le> 2 ^ 46"
    "unat (0::u64) + 4096 * (j + Suc k) \<le> 2 ^ 46" using Suc.prems(3) by auto
  have al0: "page_aligned 0" by (simp add: page_aligned_def)
  note pn = page_no_props [OF al0 b(2)]
  note o = old_table_kept [OF F Suc.prems(2)]
  let ?e = "pte_of s0 old (page_no 0 j)" let ?q = "PTE2PA ?e"
  have e: "pvalid ?e" "ram_page s0 ?q" "?q \<notin> set (free_list s0) \<union> table_pages s0 new"
    using Suc.prems(2) by (auto simp: separate_def)
  obtain pte where w: "walk old (page_no 0 j) False s = Ret (pte, s)" "pte \<noteq> 0" "load64 (mem s) pte = ?e"
    using walk_pvalid [OF o(1) pn(2)] o(2) e(1) by metis
  have jdiv: "page_no 0 j div PGSIZE = of_nat j"
    using b(1) unat_page_no [OF b(1)]
    by (simp add: word_unat_eq_iff unat_div_distrib unsigned_of_nat take_bit_nat_eq_self)
  have rb: "\<exists>s'. vmunmap new 0 (page_no 0 j div PGSIZE) True s'' = Ret s' \<and> restored s0 s' new"
    if "filled s0 s'' new 0 j (copy_flags s0 old) (copy_bytes s0 old)" for s''
    using filled_rollback [OF that al0 b(1) unmapped_mono [OF Suc.prems(4)]]
    by (simp add: jdiv vmunmap_eq [OF al0 b(1)] del: PGSIZE_def)
  obtain p s1 where ka: "kalloc s = (p, s1)" by (cases "kalloc s")
  show ?case
  proof (cases "p = 0")
    case True
    then have "s1 = s" "free_list s = []" using kalloc_fail [OF D(1)] ka by auto
    moreover obtain s' where "vmunmap new 0 (page_no 0 j div PGSIZE) True s = Ret s'" "restored s0 s' new"
      using rb [OF F] by blast
    ultimately show ?thesis
      using w ka True e(1) by (auto simp: Let_def pvalid_def)
  next
    case False
    have ram: "ram_page s0 p"
      using fresh_page(8) [OF D(1) ka False same_outside_refl] D(2) by (simp add: ram_page_def)
    have cont: "memmove (mem s1) p ?q 4096 (p + off) = copy_bytes s0 old j off" if "off < PGSIZE" for off
    proof -
      have qoff: "PGROUNDDOWN (?q + off) = ?q"
        using that e(2) by (simp add: PGROUNDDOWN_add ram_page_def)
      have "p \<noteq> ?q"
      proof
        assume "p = ?q"
        moreover have "p \<in> set (free_list s)" using fresh_page(1) [OF D(1) ka False same_outside_refl] by simp
        ultimately show False using D(6) e(3) by blast
      qed
      then have "mem s1 (?q + off) = mem s (?q + off)"
        using fresh_page(5) [OF D(1) ka False same_outside_refl] qoff by (simp add: same_outside_def)
      also have "\<dots> = copy_bytes s0 old j off" using o(3) [of j off] o(2) that by (simp add: copy_bytes_def)
      finally show ?thesis using copied_page(2) [OF ram e(2) that] by simp
    qed
    have un: "pte_of s0 new (page_no 0 j) = 0" using unmapped_page [OF Suc.prems(4) _ al0 b(3)] by simp
    from filled_step [OF F al0 b(2) un copy_flags_ok ka False copied_page(1) [OF ram e(2), of 0] cont]
    obtain r s2 where m: "mappages new (page_no 0 j) PGSIZE p (copy_flags s0 old j)
        (s1\<lparr>mem := memmove (mem s1) p ?q 4096\<rparr>) = Ret (r, s2)"
      "r = 0 \<and> filled s0 s2 new 0 (Suc j) (copy_flags s0 old) (copy_bytes s0 old)
         \<and> length (free_list s) \<le> length (free_list s2) + 4
       \<or> r = -1 \<and> (\<exists>s3. kfree p s2 = Ret s3 \<and> filled s0 s3 new 0 j (copy_flags s0 old) (copy_bytes s0 old))
         \<and> length (free_list s) < 4"
      by auto
    have run: "uvmcopy_loop (Suc k) old new (page_no 0 j) s =
      (if r \<noteq> 0 then bind_res (kfree p s2) (\<lambda>s3.
           bind_res (vmunmap new 0 (page_no 0 j div PGSIZE) True s3) (\<lambda>s4. Ret (-1, s4)))
       else uvmcopy_loop k old new (page_no 0 (Suc j)) s2)"
      using w ka False e(1) m(1)
      by (simp add: Let_def pvalid_def copy_flags_def page_no_Suc del: PGSIZE_def)
    from m(2) show ?thesis
    proof (elim disjE conjE exE)
      assume "r = 0" and F2: "filled s0 s2 new 0 (Suc j) (copy_flags s0 old) (copy_bytes s0 old)"
        and len: "length (free_list s) \<le> length (free_list s2) + 4"
      with Suc.IH [OF F2] Suc.prems(2,3,4) run show ?thesis using len by fastforce
    next
      fix s3 assume "r = -1" "kfree p s2 = Ret s3" "length (free_list s) < 4"
        and F3: "filled s0 s3 new 0 j (copy_flags s0 old) (copy_bytes s0 old)"
      then show ?thesis using run rb [OF F3] by auto
    qed
  qed
qed auto


section \<open>A new table\<close>

lemma uvmcreate_spec:
  assumes wf: "kmem_wf s" and fl: "free_list s = p # ps"
  shows "\<exists>s'. uvmcreate s = (p, s') \<and> free_list s' = ps \<and> kernel_end s' = kernel_end s \<and> pt_inv s' p
    \<and> table_pages s' p = {p} \<and> (\<forall>va. pte_of s' p va = 0) \<and> same_outside {p} (mem s) (mem s')"
proof -
  from kalloc_refines [OF wf fl] obtain s1 where s1: "kalloc s = (p, s1)" "kmem_wf s1" "free_list s1 = ps"
    "same_outside {p} (mem s) (mem s1)" "kernel_end s1 = kernel_end s" by metis
  have ram: "ram_page s p" and pn: "p \<noteq> 0" "p \<notin> set ps"
    using kmem_wfD(2,3) [OF wf] ram_page_not_0 [OF kmem_wfD(4) [OF wf]] fl by auto
  note al = ram_page_aligned [OF ram]
  let ?m = "memset (mem s1) p 0 4096"
  let ?s = "s1\<lparr>mem := ?m\<rparr>"
  note z = zeroed_page [OF al, where m = "mem s1"]
  have up: "kmem_wf ?s" "free_list ?s = ps" using ka.update_pool [OF s1(2) z(1)] s1(3) pn by auto
  have zero: "pte_at ?m p i = 0" if "i < 512" for i
  proof -
    have "load64 ?m (p + 8 * i) = load64 (\<lambda>_. 0) (p + 8 * i)"
    proof (rule load64_cong)
      fix n :: nat assume "n < 8"
      then have "PGROUNDDOWN (p + 8 * i + of_nat n) = p"
        by (intro page_slot_in_page [OF al] entry_offset [OF that])
      then show "?m (p + 8 * i + of_nat n) = 0"
        using al by (simp add: memset_eq in_page_iff word_less_nat_alt)
    qed
    then show ?thesis by (simp add: pte_at_def)
  qed
  note t = zero_page_tree [OF al zero, of 3]
  have inv: "pt_inv ?s p" unfolding pt_inv_def pt_ok_def
    using t up pn ram s1(5) by (auto simp: ram_page_def)
  have "same_outside {p} (mem s) ?m" using same_outside_trans [OF s1(4) z(1)] by simp
  then show ?thesis
    using s1 pn up inv t by (auto simp: uvmcreate_def table_pages_def pte_of_def)
qed

text \<open>A booted state with free memory and an empty table, for concrete instances.\<close>

lemma booted_table_pages:
  "\<exists>s pt. pt_inv s pt \<and> (\<forall>va. pte_of s pt va = 0) \<and> table_pages s pt = {pt} \<and> 7 \<le> length (free_list s)"
proof -
  let ?b = "\<lparr>mem = (\<lambda>_. 0), freelist = 0, npage = 0, kernel_end = RAMBASE\<rparr> :: kstate"
  from kinit_frees [of ?b] obtain s where s: "kmem_wf s" "set (free_list s) = {p. ram_page ?b p}" by auto
  let ?xs = "[RAMBASE, RAMBASE + 4096, RAMBASE + 8192, RAMBASE + 12288, RAMBASE + 16384, RAMBASE + 20480,
    RAMBASE + 24576, RAMBASE + 28672] :: u64 list"
  have "set ?xs \<subseteq> set (free_list s)" unfolding s(2) by (simp add: ram_page_def page_aligned_def)
  moreover have "card (set ?xs) = 8" by simp
  ultimately have "8 \<le> card (set (free_list s))" by (metis List.finite_set card_mono)
  then have len: "8 \<le> length (free_list s)" using card_length le_trans by blast
  then obtain p ps where fl: "free_list s = p # ps" by (cases "free_list s") auto
  from uvmcreate_spec [OF s(1) fl] obtain s' where "free_list s' = ps" "pt_inv s' p"
    "table_pages s' p = {p}" "\<forall>va. pte_of s' p va = 0" by blast
  with len fl show ?thesis by (intro exI [of _ s'] exI [of _ p]) auto
qed

lemma booted_table:
  "\<exists>s pt. pt_inv s pt \<and> (\<forall>va. pte_of s pt va = 0) \<and> table_pages s pt = {pt} \<and> 5 \<le> length (free_list s)"
proof -
  obtain s pt where "pt_inv s pt" "\<forall>va. pte_of s pt va = 0" "table_pages s pt = {pt}" "7 \<le> length (free_list s)"
    using booted_table_pages by blast
  then show ?thesis by (intro exI [of _ s] exI [of _ pt]) simp
qed

text \<open>The state after one page has been mapped at address 0, and after a second table has been
  created.\<close>

lemma booted_mapped:
  "\<exists>s pt. pt_inv s pt \<and> leaves 1 s pt 0 \<and> pte_of s pt 0 AND PTE_PLV3 \<noteq> 0 \<and> free_list s \<noteq> []"
proof -
  obtain s0 old where s0: "pt_inv s0 old" "\<forall>va. pte_of s0 old va = 0" "5 \<le> length (free_list s0)"
    using booted_table by blast
  obtain p s1 where ka: "kalloc s0 = (p, s1)" by (cases "kalloc s0")
  have wf0: "kmem_wf s0" by (rule pt_invD(1) [OF s0(1)])
  have p0: "p \<noteq> 0" using ka.alloc_None_iff [OF wf0] ka s0(3) by auto
  note z = zeroed_page [OF ram_page_aligned [OF fresh_page(8) [OF s0(1) ka p0 same_outside_refl]], where m = "mem s1"]
  have al0: "page_aligned 0" by (simp add: page_aligned_def)
  have un0: "pte_of s0 old (page_no 0 0) = 0" using s0(2) by simp
  have pk: "perm_ok 12" by (simp add: perm_ok_def)
  from filled_step [where fl = "\<lambda>_. 12" and cont = "\<lambda>_ _. 0", OF filled_0 [OF s0(1)] al0 _ un0 pk ka p0 z] s0(3)
  obtain s2 where F: "filled s0 s2 old 0 1 (\<lambda>_. 12) (\<lambda>_ _. 0)" "length (free_list s0) \<le> length (free_list s2) + 4" by auto
  have "free_list s2 \<noteq> []" using F(2) s0(3) by auto
  moreover have "pte_of s2 old 0 AND PTE_PLV3 \<noteq> 0"
  proof -
    have "pte_of s2 old 0 = leaf_pte (frames 1 s2 old 0 ! 0) 12"
      using filledD(5) [OF F(1), of 0] by (simp add: page_no_def)
    moreover have "bit (leaf_pte p 12 AND PTE_PLV3) 2" for p by (simp add: leaf_pte_def bit_simps)
    ultimately show ?thesis by (metis bit_0_eq bot_apply bot_bool_def)
  qed
  ultimately show ?thesis using filledD(1,3) [OF F(1)] by blast
qed

lemma booted_pair: "\<exists>s old new. separate s old new 1 \<and> unmapped s new 0 1"
proof -
  obtain s2 old where D: "pt_inv s2 old" "leaves 1 s2 old 0" "free_list s2 \<noteq> []"
    using booted_mapped by blast
  obtain q qs where fl: "free_list s2 = q # qs" using D(3) by (cases "free_list s2") auto
  have q: "q \<notin> set qs" "q \<notin> table_pages s2 old" "PTE2PA (pte_of s2 old 0) \<noteq> q" "PTE2PA (pte_of s2 old 0) \<notin> set qs"
    using kmem_wfD(2) [OF pt_invD(1) [OF D(1)]] pt_invD(2) [OF D(1)] D(2) fl by (auto simp: leaves_def)
  from uvmcreate_spec [OF pt_invD(1) [OF D(1)] fl] obtain s3 where s3: "free_list s3 = qs"
    "kernel_end s3 = kernel_end s2" "pt_inv s3 q" "table_pages s3 q = {q}" "\<forall>va. pte_of s3 q va = 0"
    "same_outside {q} (mem s2) (mem s3)" by blast
  have "table_pages s2 old \<inter> {q} = {}" "table_pages s2 old \<inter> set (free_list s3) = {}"
    using q pt_invD(2) [OF D(1)] fl s3(1) by auto
  note f = pt_inv_frame [OF D(1) s3(6) this(1) pt_invD(1) [OF s3(3)] s3(2) this(2)]
  have "pvalid (pte_of s2 old 0)" "ram_page s2 (PTE2PA (pte_of s2 old 0))"
    using D(2) by (auto simp: leaves_def in_pages_def)
  then have "separate s3 old q 1"
    using f s3(1-4) q by (auto simp: separate_def page_no_def ram_page_def)
  moreover have "unmapped s3 q 0 1" using s3(5) by (simp add: unmapped_def)
  ultimately show ?thesis by blast
qed

section \<open>Properties\<close>

text \<open>The number of pages a range touches.\<close>

definition range_pages :: "u64 \<Rightarrow> u64 \<Rightarrow> nat" where
  "range_pages va sz = Suc (unat ((PGROUNDDOWN (va + sz - 1) - PGROUNDDOWN va) div PGSIZE))"

text \<open>(C4) \<^verbatim>\<open>mappages\<close> on a range of unmapped pages below \<^verbatim>\<open>MAXVA\<close> never panics. It returns 0
  with every page of the range mapped to its physical page, or it returns $-1$ because memory ran
  out, with a prefix of the range mapped; in both cases every other entry of the table is
  unchanged, pages only move from the free list into the table, and no other memory is written.\<close>

theorem mappages_maps:
  assumes "pt_inv s pt" and "sz > 0" and "unat va + unat sz \<le> 2 ^ 46"
    and "\<forall>vb < MAXVA. in_pages (PGROUNDDOWN va) (range_pages va sz) vb \<longrightarrow> \<not> pvalid (pte_of s pt vb)"
  shows "\<exists>r s' new i. mappages pt va sz pa perm s = Ret (r, s') \<and> pt_step pt s s' new
    \<and> mapped s s' pt (PGROUNDDOWN va) i pa perm
    \<and> (r = 0 \<and> i = range_pages va sz \<or> r = -1 \<and> i < range_pages va sz \<and> free_list s' = [])"
proof -
  let ?a = "PGROUNDDOWN va" and ?k = "unat ((PGROUNDDOWN (va + sz - 1) - PGROUNDDOWN va) div PGSIZE)"
  have sz: "0 < unat sz" using assms(2) by (simp add: unat_gt_0)
  have "unat (va + sz) = unat va + unat sz" using assms(3) by (simp add: unat_word_ariths)
  then have u: "unat (va + sz - 1) = unat va + unat sz - 1"
    using sz unat_step_u64 [of "va + sz"] by auto
  have le: "?a \<le> PGROUNDDOWN (va + sz - 1)"
    using u sz by (simp add: word_le_nat_alt unat_PGROUNDDOWN minus_mod_eq_mult_div div_le_mono)
  have "4096 * ?k + unat ?a \<le> unat (PGROUNDDOWN (va + sz - 1))"
    using le by (simp add: unat_div_distrib unat_sub word_le_nat_alt)
  moreover have "unat (PGROUNDDOWN (va + sz - 1)) + 4096 \<le> 2 ^ 46"
  proof -
    have "PGROUNDDOWN (va + sz - 1) < MAXVA"
      using u sz assms(3) PGROUNDDOWN_le [of "va + sz - 1"] by (simp add: word_less_nat_alt word_le_nat_alt)
    moreover have "page_aligned MAXVA" by (simp add: page_aligned_def)
    ultimately show ?thesis using page_aligned_less [OF page_aligned_PGROUNDDOWN] by fastforce
  qed
  ultimately have "unat ?a + 4096 * Suc ?k \<le> 2 ^ 46" by simp
  from mappages_loop_spec [OF assms(1) _ this, where pa = pa and perm = perm] assms(4)
  obtain r s' new i where "mappages_loop ?k pt ?a pa perm s = Ret (r, s')" "pt_step pt s s' new"
    "mapped s s' pt ?a i pa perm" "r = 0 \<and> i = Suc ?k \<or> r = -1 \<and> i \<le> ?k \<and> free_list s' = []"
    unfolding range_pages_def by (metis page_aligned_PGROUNDDOWN)
  then show ?thesis using assms(2) unfolding mappages_def Let_def range_pages_def
    by (intro exI [of _ r] exI [of _ s'] exI [of _ new] exI [of _ i]) auto
qed


theorem mappages_maps_witness:
  "\<exists>s pt. pt_inv s pt \<and> (\<exists>r s' new i. mappages pt 8192 4096 RAMBASE 0 s = Ret (r, s')
     \<and> pt_step pt s s' new \<and> mapped s s' pt 8192 i RAMBASE 0
     \<and> (r = 0 \<and> i = 1 \<or> r = -1 \<and> i < 1 \<and> free_list s' = []))"
proof -
  obtain s pt where s: "pt_inv s pt" "\<forall>va. pte_of s pt va = 0" using booted_table by blast
  have "PGROUNDDOWN 8192 = 8192" "range_pages 8192 4096 = 1" by (simp_all add: range_pages_def PGROUNDDOWN_def)
  moreover have "\<forall>vb < MAXVA. in_pages 8192 1 vb \<longrightarrow> \<not> pvalid (pte_of s pt vb)" by (simp add: s(2) pvalid_def)
  ultimately have "\<exists>r s' new i. mappages pt 8192 4096 RAMBASE 0 s = Ret (r, s')
     \<and> pt_step pt s s' new \<and> mapped s s' pt 8192 i RAMBASE 0
     \<and> (r = 0 \<and> i = 1 \<or> r = -1 \<and> i < 1 \<and> free_list s' = [])"
    using mappages_maps [of s pt 4096 8192 RAMBASE 0] s(1) by simp
  with s(1) show ?thesis by blast
qed

text \<open>(C5) \<^verbatim>\<open>vmunmap\<close> with \<^verbatim>\<open>do_free\<close> on a range of mapped leaf pages never panics, clears
  exactly the entries of the range, puts exactly the pages behind them on the free list, each
  once, and writes no memory outside the table and those pages.\<close>

theorem vmunmap_frees:
  assumes "pt_inv s pt" and "page_aligned va" and "unat va + 4096 * n \<le> 2 ^ 46" and "leaves n s pt va"
  shows "\<exists>s'. vmunmap pt va (of_nat n) True s = Ret s' \<and> pt_inv s' pt
    \<and> free_list s' = rev (frames n s pt va) @ free_list s \<and> table_pages s' pt = table_pages s pt
    \<and> (\<forall>vb < MAXVA. pte_of s' pt vb = (if in_pages va n vb then 0 else pte_of s pt vb))
    \<and> same_outside (table_pages s pt \<union> set (frames n s pt va)) (mem s) (mem s')"
  using vmunmap_loop_spec [OF assms] by (auto simp: vmunmap_eq [OF assms(2,3)])

theorem vmunmap_frees_witness:
  "\<exists>s pt s'. leaves 1 s pt 0 \<and> vmunmap pt 0 1 True s = Ret s' \<and> pte_of s' pt 0 = 0
     \<and> free_list s' = PTE2PA (pte_of s pt 0) # free_list s"
proof -
  obtain s pt where s: "pt_inv s pt" "leaves 1 s pt 0" using booted_mapped by blast
  have b: "page_aligned 0" "unat (0 :: u64) + 4096 * 1 \<le> 2 ^ 46" by (simp_all add: page_aligned_def)
  have "0 < MAXVA" "in_pages 0 1 0" by (simp_all add: in_pages_def)
  then have "\<exists>s'. vmunmap pt 0 1 True s = Ret s' \<and> pte_of s' pt 0 = 0
     \<and> free_list s' = PTE2PA (pte_of s pt 0) # free_list s"
    using vmunmap_frees [OF s(1) b s(2)] by auto
  with s(2) show ?thesis by blast
qed

text \<open>(C2) \<^verbatim>\<open>uvmalloc\<close> grows an address space by fresh zero pages or not at all: it returns the
  new size with every new page mapped to a page of its own filled with zeros and the rest of
  the table unchanged, or 0 with the table as it was and no page lost, and it can fail only when
  fewer than four pages per new page were free.\<close>

theorem uvmalloc_all_or_nothing:
  assumes "pt_inv s pt" and "oldsz \<le> newsz" and "newsz \<le> MAXVA" and "perm < 4096"
    and "unmapped s pt (PGROUNDUP oldsz) (pages_below (PGROUNDUP oldsz) newsz)"
  shows "\<exists>r s'. uvmalloc pt oldsz newsz perm s = Ret (r, s') \<and>
    (r = newsz \<and> filled s s' pt (PGROUNDUP oldsz) (pages_below (PGROUNDUP oldsz) newsz)
       (\<lambda>_. perm OR 12) (\<lambda>_ _. 0)
     \<or> r = 0 \<and> restored s s' pt \<and> length (free_list s) < 4 * pages_below (PGROUNDUP oldsz) newsz)"
proof -
  let ?b = "PGROUNDUP oldsz"
  have le: "unat oldsz \<le> 2 ^ 46" "unat newsz \<le> 2 ^ 46"
    using assms(2,3) by (auto simp: word_le_nat_alt)
  then have up: "page_aligned ?b" "?b \<le> MAXVA"
    using PGROUNDUP_props [of oldsz] assms(2,3) by (auto simp: page_aligned_def)
  have "unat ?b \<le> 2 ^ 46" using up(2) by (simp add: word_le_nat_alt)
  from pages_below_bound [OF up(1) le(2) this]
  have bound: "unat ?b + 4096 * (0 + pages_below ?b newsz) \<le> 2 ^ 46" by simp
  have "unat (perm OR 12) < 2 ^ 12"
    using assms(4) OR_upper [of "uint perm" 12 12] by (simp add: word_less_def uint_or unat_eq_nat_uint nat_less_iff)
  then have perm: "perm_ok (perm OR 12)" by (simp add: perm_ok_def word_less_nat_alt)
  have "page_no ?b 0 = ?b" "\<not> newsz < oldsz" using assms(2) by (auto simp: page_no_def)
  with uvmalloc_loop_spec [OF filled_0 [OF assms(1)] up(1) bound _ perm, where newsz = newsz] assms(5)
  show ?thesis by (simp add: uvmalloc_def Let_def)
qed

theorem uvmalloc_all_or_nothing_witness:
  "\<exists>s pt s'. pt_inv s pt \<and> uvmalloc pt 0 4096 0 s = Ret (4096, s') \<and> filled s s' pt 0 1 (\<lambda>_. 12) (\<lambda>_ _. 0)"
proof -
  obtain s pt where s: "pt_inv s pt" "\<forall>va. pte_of s pt va = 0" "5 \<le> length (free_list s)"
    using booted_table by blast
  have "PGROUNDUP 0 = 0" "pages_below 0 4096 = 1" by (simp_all add: PGROUNDUP_def pages_below_def)
  moreover have "unmapped s pt 0 1" by (simp add: unmapped_def s(2))
  ultimately have "\<exists>s'. uvmalloc pt 0 4096 0 s = Ret (4096, s') \<and> filled s s' pt 0 1 (\<lambda>_. 12) (\<lambda>_ _. 0)"
    using uvmalloc_all_or_nothing [of s pt 0 4096 0] s(1,3) by auto
  with s(1) show ?thesis by blast
qed

text \<open>(C3) \<^verbatim>\<open>uvmcopy\<close> gives the child of a fork the memory of its parent: it returns 0 with each of
  the parent's pages copied into a fresh page mapped at the same address with the parent's (low)
  flags, or $-1$ with the child's table as it was and no page lost, and it can fail only when fewer
  than four pages per copied page were free.\<close>

theorem uvmcopy_copies:
  assumes "separate s old new (pages_below 0 sz)" and "sz \<le> MAXVA" and "unmapped s new 0 (pages_below 0 sz)"
  shows "\<exists>r s'. uvmcopy old new sz s = Ret (r, s') \<and>
    (r = 0 \<and> filled s s' new 0 (pages_below 0 sz) (copy_flags s old) (copy_bytes s old)
     \<or> r = -1 \<and> restored s s' new \<and> length (free_list s) < 4 * pages_below 0 sz)"
proof -
  have "unat sz \<le> 2 ^ 46" using assms(2) by (simp add: word_le_nat_alt)
  then have "4096 * (0 + pages_below 0 sz) \<le> 2 ^ 46"
    using pages_below_bound [of 0 sz] by (simp add: page_aligned_def)
  moreover have "page_no 0 0 = 0" by (simp add: page_no_def)
  moreover have "filled s s new 0 0 (copy_flags s old) (copy_bytes s old)"
    using assms(1) by (intro filled_0) (simp add: separate_def)
  ultimately show ?thesis
    using uvmcopy_loop_spec [of s s new 0 old "pages_below 0 sz"] assms(1,3) by (simp add: uvmcopy_def)
qed


theorem uvmcopy_copies_witness:
  "\<exists>s old new r s'. pvalid (pte_of s old 0) \<and> uvmcopy old new 4096 s = Ret (r, s') \<and>
    (r = 0 \<and> filled s s' new 0 1 (copy_flags s old) (copy_bytes s old)
     \<or> r = -1 \<and> restored s s' new \<and> length (free_list s) < 4)"
proof -
  obtain s old new where s: "separate s old new 1" "unmapped s new 0 1" using booted_pair by blast
  have "pages_below 0 4096 = 1" by (simp add: pages_below_def)
  then have "\<exists>r s'. uvmcopy old new 4096 s = Ret (r, s') \<and>
    (r = 0 \<and> filled s s' new 0 1 (copy_flags s old) (copy_bytes s old)
     \<or> r = -1 \<and> restored s s' new \<and> length (free_list s) < 4)"
    using uvmcopy_copies [of s old new 4096] s by simp
  moreover have "pvalid (pte_of s old 0)" using s(1) by (simp add: separate_def page_no_def)
  ultimately show ?thesis by blast
qed

end
