(* ===== verification/Ucopy.thy ===== *)
theory Ucopy
  imports Uvm
begin

text \<open>
  The copies between user and kernel memory (\<^verbatim>\<open>copyout\<close>, \<^verbatim>\<open>copyin\<close>, \<^verbatim>\<open>copyinstr\<close>)
  over the user's view of memory, and what \<^verbatim>\<open>freewalk\<close> does to a page table that
  \<^verbatim>\<open>walk\<close> built.
\<close>

section \<open>The user's view of memory\<close>

definition user_addr :: "kstate \<Rightarrow> u64 \<Rightarrow> u64 \<Rightarrow> u64" where
  "user_addr s pt va = PTE2PA (pte_of s pt va) + va mod PGSIZE"

definition user_byte :: "kstate \<Rightarrow> u64 \<Rightarrow> u64 \<Rightarrow> u8" where
  "user_byte s pt va = mem s (user_addr s pt va)"

definition accessible :: "kstate \<Rightarrow> u64 \<Rightarrow> u64 \<Rightarrow> bool" where
  "accessible s pt va \<longleftrightarrow> pvalid (pte_of s pt va) \<and> pte_of s pt va AND PTE_PLV3 \<noteq> 0"

definition user_bytes :: "kstate \<Rightarrow> u64 \<Rightarrow> u64 \<Rightarrow> nat \<Rightarrow> u8 list" where
  "user_bytes s pt va n = map (\<lambda>i. user_byte s pt (va + of_nat i)) [0..<n]"

lemma PTE2PA_off:
  assumes "off < 4096"
  shows "(PTE2PA e + off) OR DMWIN_MASK = PTE2PA e + off"
proof -
  have "unat off < 2 ^ 12" using assms by (simp add: word_less_nat_alt)
  then have t: "take_bit 12 off = off"
    by (simp add: word_unat_eq_iff unsigned_take_bit_eq take_bit_nat_eq_self)
  have e: "DMWIN_MASK = push_bit 60 9" by simp
  have d: "\<not> bit DMWIN_MASK n" if "n < 12" for n
    using that unfolding e by (simp add: bit_push_bit_iff del: push_bit_numeral)
  have "\<not> bit PAMASK n" if "n < 12" for n
    using that by (simp add: bit_push_bit_iff del: push_bit_numeral push_bit_of_1)
  with d have low: "\<not> bit (PTE2PA e) n" if "n < 12" for n
    using that by (simp add: PTE2PA_def bit_simps del: DMWIN_MASK_def PAMASK_def)
  have "PTE2PA e AND off = 0"
    using low t by (auto simp: word_bits_eq_iff bit_simps)
  then have "PTE2PA e + off = PTE2PA e OR off" by (simp add: disjunctive_add_eq_or)
  moreover have "(PTE2PA e OR off) OR DMWIN_MASK = PTE2PA e OR off"
    using PTE2PA_dmw [of e] by (metis or.assoc or.commute)
  ultimately show ?thesis by simp
qed

lemma same_page_add:
  assumes "unat (va - PGROUNDDOWN va) + i < 4096"
  shows "PGROUNDDOWN (va + of_nat i) = PGROUNDDOWN va"
    "(va + of_nat i) mod PGSIZE = va - PGROUNDDOWN va + of_nat i"
proof -
  let ?o = "va - PGROUNDDOWN va + of_nat i"
  have "unat ?o = unat (va - PGROUNDDOWN va) + i"
    using assms by (simp add: unat_word_ariths unat_of_nat)
  then have o: "?o < 4096" using assms by (simp add: word_less_nat_alt)
  have e: "va + of_nat i = PGROUNDDOWN va + ?o" by simp
  show g: "PGROUNDDOWN (va + of_nat i) = PGROUNDDOWN va"
    using PGROUNDDOWN_add [OF page_aligned_PGROUNDDOWN o] e by metis
  show "(va + of_nat i) mod PGSIZE = ?o"
    using PGROUNDDOWN_offset(1) [of "va + of_nat i"] unfolding g by (simp add: algebra_simps)
qed

lemma page_chunk_unat:
  assumes "len > 0"
  shows "unat (page_chunk va len) = min (4096 - unat (va - PGROUNDDOWN va)) (unat len)"
    "unat (va - PGROUNDDOWN va) < 4096"
proof -
  have o: "va - PGROUNDDOWN va < 4096" by (simp add: PGROUNDDOWN_offset(1))
  then show "unat (va - PGROUNDDOWN va) < 4096" by (simp add: word_less_nat_alt)
  then have "unat (4096 - (va - PGROUNDDOWN va)) = 4096 - unat (va - PGROUNDDOWN va)"
    using o by (simp add: unat_sub word_le_nat_alt)
  then show "unat (page_chunk va len) = min (4096 - unat (va - PGROUNDDOWN va)) (unat len)"
    by (auto simp: page_chunk_def Let_def word_less_nat_alt)
qed

text \<open>The next round of a copy starts at the next page.\<close>

lemma chunk_next:
  assumes "len > 0" and "unat (page_chunk va len) < unat len"
  shows "PGROUNDDOWN va + PGSIZE = va + page_chunk va len"
proof -
  have "page_chunk va len = 4096 - (va - PGROUNDDOWN va)"
    using assms by (auto simp: page_chunk_def Let_def split: if_splits)
  then show ?thesis by simp
qed

lemma walkaddr_page:
  assumes "pt_inv s pt" and "va < MAXVA"
  shows "walkaddr pt (PGROUNDDOWN va) s =
    Ret (if accessible s pt va then PTE2PA (pte_of s pt va) else 0)"
proof -
  have "PGROUNDDOWN va < MAXVA" using PGROUNDDOWN_le assms(2) by (rule order_le_less_trans)
  then show ?thesis
    using walkaddr_eq [OF assms(1)] pte_of_page [OF assms(2)] by (simp add: accessible_def)
qed

lemma PTE2PA_not_0: "PTE2PA e \<noteq> 0"
proof
  assume "PTE2PA e = 0"
  then have "DMWIN_MASK = 0" by (metis PTE2PA_dmw or.left_neutral)
  then show False by simp
qed


lemma PTE2PA_aligned: "page_aligned (PTE2PA e)"
proof -
  have "PTE2PA e AND mask 12 = (e AND (PAMASK AND mask 12)) OR (DMWIN_MASK AND mask 12)"
    unfolding PTE2PA_def by (simp only: bit.conj_disj_distrib2 and.assoc)
  also have "\<dots> = 0" by (simp add: mask_eq_exp_minus_1)
  finally have "take_bit 12 (PTE2PA e) = 0" by (simp add: take_bit_eq_mask)
  then show ?thesis by (simp add: page_aligned_def take_bit_eq_mod)
qed

lemma chunk_addr:
  assumes "len > 0" and va: "unat va + unat len \<le> 2 ^ 46" and i: "i < unat (page_chunk va len)"
  shows "((PTE2PA (pte_of s pt va) + (va - PGROUNDDOWN va)) OR DMWIN_MASK) + of_nat i = user_addr s pt (va + of_nat i)"
    "pte_of s pt (va + of_nat i) = pte_of s pt va"
    "PGROUNDDOWN (user_addr s pt (va + of_nat i)) = PTE2PA (pte_of s pt va)"
proof -
  note pc = page_chunk_unat [OF assms(1), of va]
  have o: "va - PGROUNDDOWN va < 4096" by (simp add: PGROUNDDOWN_offset(1))
  have "unat (va - PGROUNDDOWN va) + i < 4096" using i pc by auto
  note sp = same_page_add [OF this]
  have "i < unat len" "0 < unat len" using i pc(1) by auto
  then have "unat (va + of_nat i) < 2 ^ 46" "unat va < 2 ^ 46"
    using va by (simp_all add: unat_word_ariths unat_of_nat)
  then have m: "va + of_nat i < MAXVA" "va < MAXVA" by (simp_all add: word_less_nat_alt)
  show p: "pte_of s pt (va + of_nat i) = pte_of s pt va"
    using pte_of_page [OF m(1), of s pt] pte_of_page [OF m(2), of s pt] sp(1) by simp
  then show "((PTE2PA (pte_of s pt va) + (va - PGROUNDDOWN va)) OR DMWIN_MASK) + of_nat i = user_addr s pt (va + of_nat i)"
    using sp(2) PTE2PA_off [OF o, of "pte_of s pt va"] by (simp add: user_addr_def add.assoc)
  show "PGROUNDDOWN (user_addr s pt (va + of_nat i)) = PTE2PA (pte_of s pt va)"
    by (simp add: user_addr_def p PGROUNDDOWN_add PTE2PA_aligned)
qed

section \<open>copyin\<close>

lemma read_chunk:
  assumes "len > 0" and "unat va + unat len \<le> 2 ^ 46"
  shows "read_bytes (mem s) ((PTE2PA (pte_of s pt va) + (va - PGROUNDDOWN va)) OR DMWIN_MASK)
      (unat (page_chunk va len)) = user_bytes s pt va (unat (page_chunk va len))"
  using chunk_addr(1) [OF assms] by (auto simp: user_bytes_def user_byte_def intro!: nth_equalityI)

lemma user_bytes_append:
  "user_bytes s pt va (m + n) = user_bytes s pt va m @ user_bytes s pt (va + of_nat m) n"
  by (auto simp: user_bytes_def nth_append add.assoc intro!: nth_equalityI)

lemma copyin_loop_ok:
  assumes "pt_inv s pt" and "unat va + unat len \<le> 2 ^ 46"
    and "\<forall>i < unat len. accessible s pt (va + of_nat i)"
  shows "copyin_loop pt va len dst s = Ret (0, dst @ user_bytes s pt va (unat len))"
  using assms(2,3)
proof (induction "unat len" arbitrary: va len dst rule: less_induct)
  case less
  show ?case
  proof (cases "len > 0")
    case False
    then have "len = 0" by (simp add: word_gt_0)
    then show ?thesis by (simp add: copyin_loop.simps user_bytes_def)
  next
    case True
    let ?n = "page_chunk va len"
    note pc = page_chunk_unat [OF True, of va]
    have pos: "0 < unat ?n" "unat ?n \<le> unat len" "0 < unat len" using pc True by (auto simp: word_less_nat_alt)
    have va: "va < MAXVA" using less.prems(1) pos(3) by (simp add: word_less_nat_alt)
    have acc: "accessible s pt va" using less.prems(2) pos(3) by fastforce
    have w: "walkaddr pt (PGROUNDDOWN va) s = Ret (PTE2PA (pte_of s pt va))"
      using walkaddr_page [OF assms(1) va] acc by simp
    have sub: "unat (len - ?n) = unat len - unat ?n" using pos(2) by (simp add: unat_sub word_le_nat_alt)
    have step: "copyin_loop pt va len dst s =
        copyin_loop pt (PGROUNDDOWN va + PGSIZE) (len - ?n) (dst @ user_bytes s pt va (unat ?n)) s"
      using True w PTE2PA_not_0 read_chunk [OF True less.prems(1)]
      by (simp add: copyin_loop.simps [of pt va] Let_def)
    show ?thesis
    proof (cases "unat ?n < unat len")
      case False
      then have "?n = len" using pos(2) by (simp add: word_unat_eq_iff)
      then show ?thesis unfolding step by (simp add: copyin_loop.simps)
    next
      case lt: True
      note nx = chunk_next [OF True lt]
      have u: "unat (va + ?n) = unat va + unat ?n"
        using less.prems(1) pos(2) by (simp add: unat_word_ariths)
      have "copyin_loop pt (va + ?n) (len - ?n) (dst @ user_bytes s pt va (unat ?n)) s =
          Ret (0, (dst @ user_bytes s pt va (unat ?n)) @ user_bytes s pt (va + ?n) (unat (len - ?n)))"
      proof (rule less.hyps)
        show "unat (len - ?n) < unat len" using sub pos by simp
        show "unat (va + ?n) + unat (len - ?n) \<le> 2 ^ 46" using u sub less.prems(1) pos(2) by simp
        show "\<forall>i < unat (len - ?n). accessible s pt (va + ?n + of_nat i)"
        proof (intro allI impI)
          fix i assume "i < unat (len - ?n)"
          then have "unat ?n + i < unat len" using sub by simp
          then have "accessible s pt (va + of_nat (unat ?n + i))" using less.prems(2) by blast
          then show "accessible s pt (va + ?n + of_nat i)" by (simp add: add.assoc)
        qed
      qed
      moreover have "user_bytes s pt va (unat len) =
          user_bytes s pt va (unat ?n) @ user_bytes s pt (va + ?n) (unat (len - ?n))"
        using user_bytes_append [of s pt va "unat ?n" "unat (len - ?n)"] sub pos(2) by simp
      ultimately show ?thesis unfolding step nx by simp
    qed
  qed
qed


section \<open>copyout\<close>

text \<open>\<open>writable s pt va n\<close>: the \<open>n\<close> bytes from \<open>va\<close> are accessible, lie in pages that are neither free nor
  part of the table, and have physical addresses of their own.\<close>

definition writable :: "kstate \<Rightarrow> u64 \<Rightarrow> u64 \<Rightarrow> nat \<Rightarrow> bool" where
  "writable s pt va n \<longleftrightarrow>
     (\<forall>i < n. accessible s pt (va + of_nat i)
        \<and> PTE2PA (pte_of s pt (va + of_nat i)) \<notin> table_pages s pt \<union> set (free_list s))
     \<and> inj_on (\<lambda>i. user_addr s pt (va + of_nat i)) {..<n}"

definition user_addrs :: "kstate \<Rightarrow> u64 \<Rightarrow> u64 \<Rightarrow> nat \<Rightarrow> u64 set" where
  "user_addrs s pt va n = (\<lambda>i. user_addr s pt (va + of_nat i)) ` {..<n}"


definition copied :: "kstate \<Rightarrow> kstate \<Rightarrow> u64 \<Rightarrow> u64 \<Rightarrow> nat \<Rightarrow> u8 list \<Rightarrow> bool" where
  "copied s s' pt va n src \<longleftrightarrow> pt_inv s' pt \<and> (\<forall>vb. pte_of s' pt vb = pte_of s pt vb)
     \<and> table_pages s' pt = table_pages s pt \<and> free_list s' = free_list s
     \<and> (\<forall>i < n. mem s' (user_addr s pt (va + of_nat i)) = src ! i)
     \<and> (\<forall>x. x \<notin> user_addrs s pt va n \<longrightarrow> mem s' x = mem s x)"

lemma copied_cong:
  "copied s s' pt va n src \<Longrightarrow> user_addr s' pt vb = user_addr s pt vb
    \<and> accessible s' pt vb = accessible s pt vb"
  by (simp add: copied_def user_addr_def accessible_def)

lemma writable_rest:
  assumes "writable s pt va (m + n)" and "copied s s1 pt va m src"
  shows "writable s1 pt (va + of_nat m) n"
proof -
  have shift: "va + of_nat m + of_nat i = va + of_nat (m + i)" for i by (simp add: add.assoc)
  have inj: "inj_on (\<lambda>i. user_addr s pt (va + of_nat i)) {..<m + n}" using assms(1) by (simp add: writable_def)
  have "inj_on (\<lambda>i. user_addr s pt (va + of_nat (m + i))) {..<n}"
  proof (rule inj_onI)
    fix i j assume "i \<in> {..<n}" "j \<in> {..<n}" "user_addr s pt (va + of_nat (m + i)) = user_addr s pt (va + of_nat (m + j))"
    then show "i = j" using inj_onD [OF inj, of "m + i" "m + j"] by simp
  qed
  moreover have "accessible s pt (va + of_nat (m + i))
      \<and> PTE2PA (pte_of s pt (va + of_nat (m + i))) \<notin> table_pages s pt \<union> set (free_list s)" if "i < n" for i
    using assms(1) that unfolding writable_def by (metis add_less_cancel_left)
  ultimately show ?thesis
    using assms(2) copied_cong [OF assms(2)] unfolding writable_def shift by (auto simp: copied_def)
qed

lemma copied_append:
  assumes w: "writable s pt va (m + n)" and c1: "copied s s1 pt va m src"
    and c2: "copied s1 s2 pt (va + of_nat m) n (drop m src)" and len: "m + n \<le> length src"
  shows "copied s s2 pt va (m + n) src"
proof -
  have shift: "va + of_nat m + of_nat i = va + of_nat (m + i)" for i by (simp add: add.assoc)
  have ua: "user_addrs s1 pt (va + of_nat m) n = (\<lambda>i. user_addr s pt (va + of_nat i)) ` {m..<m + n}"
    using copied_cong [OF c1] by (force simp: user_addrs_def shift image_iff le_iff_add)
  have inj: "inj_on (\<lambda>i. user_addr s pt (va + of_nat i)) {..<m + n}" using w by (simp add: writable_def)
  have first: "mem s2 (user_addr s pt (va + of_nat i)) = src ! i" if "i < m" for i
  proof -
    have "user_addr s pt (va + of_nat i) \<notin> user_addrs s1 pt (va + of_nat m) n"
      using inj_onD [OF inj, of i] that unfolding ua by fastforce
    then show ?thesis using c1 c2 that by (simp add: copied_def)
  qed
  have second: "mem s2 (user_addr s pt (va + of_nat i)) = src ! i" if i: "m \<le> i" "i < m + n" for i
  proof -
    obtain d where d: "i = m + d" "d < n" using i by (auto simp: le_iff_add)
    then have "mem s2 (user_addr s1 pt (va + of_nat m + of_nat d)) = drop m src ! d"
      using c2 unfolding copied_def by blast
    then show ?thesis using d len copied_cong [OF c1] by (simp add: shift add.assoc)
  qed
  have "mem s2 x = mem s x" if "x \<notin> user_addrs s pt va (m + n)" for x
  proof -
    have "x \<notin> user_addrs s pt va m" "x \<notin> user_addrs s1 pt (va + of_nat m) n"
      using that unfolding ua by (auto simp: user_addrs_def)
    then show ?thesis using c1 c2 by (simp add: copied_def)
  qed
  moreover have "mem s2 (user_addr s pt (va + of_nat i)) = src ! i" if "i < m + n" for i
    using that first second by (cases "i < m") auto
  ultimately show ?thesis using c1 c2 by (simp add: copied_def)
qed

lemma write_chunk:
  assumes inv: "pt_inv s pt" and len: "len > 0" "unat va + unat len \<le> 2 ^ 46"
    and w: "writable s pt va (unat len)" and bs: "length bs = unat (page_chunk va len)"
  defines "s' \<equiv> s\<lparr>mem := write_bytes (mem s) ((PTE2PA (pte_of s pt va) + (va - PGROUNDDOWN va)) OR DMWIN_MASK) bs\<rparr>"
  shows "copied s s' pt va (unat (page_chunk va len)) bs"
proof -
  let ?a = "(PTE2PA (pte_of s pt va) + (va - PGROUNDDOWN va)) OR DMWIN_MASK"
  note pc = page_chunk_unat [OF len(1), of va]
  have bl: "length bs < 2 ^ 64" using bs pc by simp
  have ca: "?a + of_nat i = user_addr s pt (va + of_nat i)"
    "PGROUNDDOWN (user_addr s pt (va + of_nat i)) = PTE2PA (pte_of s pt va)" if "i < length bs" for i
    using chunk_addr [OF len] that bs by simp_all
  have bytes: "mem s' (user_addr s pt (va + of_nat i)) = bs ! i" if "i < length bs" for i
  proof -
    have "unat (of_nat i :: u64) = i" using that bl by (simp add: unat_of_nat)
    then show ?thesis using that ca(1) [OF that, symmetric] by (simp add: s'_def write_bytes_def)
  qed
  have out: "x \<in> user_addrs s pt va (length bs)" if "mem s' x \<noteq> mem s x" for x
  proof -
    have "unat (x - ?a) < length bs" using that by (auto simp: s'_def write_bytes_def split: if_splits)
    moreover have "x = ?a + of_nat (unat (x - ?a))" by simp
    ultimately show ?thesis unfolding user_addrs_def by (metis ca(1) image_eqI lessThan_iff)
  qed
  let ?q = "PTE2PA (pte_of s pt va)"
  have so: "same_outside {?q} (mem s) (mem s')"
    using out ca(2) by (fastforce simp: same_outside_def user_addrs_def)
  have "0 < unat len" using len(1) by (simp add: unat_gt_0)
  then have q: "?q \<notin> table_pages s pt \<union> set (free_list s)" using w by (fastforce simp: writable_def)
  have up: "kmem_wf s'" "free_list s' = free_list s" "kernel_end s' = kernel_end s"
    using ka.update_pool [OF pt_invD(1) [OF inv] so] q by (auto simp: s'_def)
  note f = pt_inv_frame [OF inv so _ up(1,3)]
  then have "pt_inv s' pt" "\<And>vb. pte_of s' pt vb = pte_of s pt vb" "table_pages s' pt = table_pages s pt"
    using up(2) q pt_invD(2) [OF inv] by auto
  then show ?thesis using bytes out up(2) bs unfolding copied_def by auto
qed

lemma copied_take: "copied s s' pt va n (take n src) \<Longrightarrow> copied s s' pt va n src"
  by (simp add: copied_def)

lemma copyout_loop_ok:
  assumes "pt_inv s pt" and "unat va + unat len \<le> 2 ^ 46" and "writable s pt va (unat len)"
    and "unat len \<le> length src"
  shows "\<exists>s'. copyout_loop pt va src len s = Ret (0, s') \<and> copied s s' pt va (unat len) src"
  using assms
proof (induction "unat len" arbitrary: va len src s rule: less_induct)
  case less
  show ?case
  proof (cases "len > 0")
    case False
    then have "len = 0" by (simp add: word_gt_0)
    then show ?thesis using less.prems(1) by (simp add: copyout_loop.simps copied_def)
  next
    case True
    define n where "n = page_chunk va len"
    note pc = page_chunk_unat [OF True, of va, folded n_def]
    have pos: "0 < unat n" "unat n \<le> unat len" "0 < unat len" using pc True by (auto simp: word_less_nat_alt)
    have va: "va < MAXVA" using less.prems(2) pos(3) by (simp add: word_less_nat_alt)
    have acc: "accessible s pt va" using less.prems(3) pos(3) by (fastforce simp: writable_def)
    have w: "walkaddr pt (PGROUNDDOWN va) s = Ret (PTE2PA (pte_of s pt va))"
      using walkaddr_page [OF less.prems(1) va] acc by simp
    have sub: "unat (len - n) = unat len - unat n" using pos(2) by (simp add: unat_sub word_le_nat_alt)
    have bs: "length (take (unat n) src) = unat n" using pos(2) less.prems(4) by simp
    define s1 where "s1 = s\<lparr>mem := write_bytes (mem s)
      ((PTE2PA (pte_of s pt va) + (va - PGROUNDDOWN va)) OR DMWIN_MASK) (take (unat n) src)\<rparr>"
    have c1: "copied s s1 pt va (unat n) src"
      using write_chunk [OF less.prems(1) True less.prems(2,3), folded n_def, OF bs] copied_take
      unfolding s1_def by blast
    have step: "copyout_loop pt va src len s =
        copyout_loop pt (PGROUNDDOWN va + PGSIZE) (drop (unat n) src) (len - n) s1"
      using True w PTE2PA_not_0 by (simp add: copyout_loop.simps [of pt va] Let_def n_def s1_def)
    show ?thesis
    proof (cases "unat n < unat len")
      case False
      then have n: "n = len" using pos(2) by (simp add: word_unat_eq_iff)
      then have "copyout_loop pt va src len s = Ret (0, s1)" unfolding step by (simp add: copyout_loop.simps)
      then show ?thesis using c1 n by simp
    next
      case lt: True
      have nx: "PGROUNDDOWN va + PGSIZE = va + n" using chunk_next [OF True] lt by (simp add: n_def)
      have split: "unat len = unat n + unat (len - n)" using sub pos(2) by simp
      have u: "unat (va + n) + unat (len - n) \<le> 2 ^ 46"
        using less.prems(2) pos(2) sub by (simp add: unat_word_ariths)
      have inv1: "pt_inv s1 pt" using c1 by (simp add: copied_def)
      have w1: "writable s1 pt (va + n) (unat (len - n))"
        using writable_rest [OF less.prems(3) [unfolded split] c1] by simp
      have l: "unat (len - n) < unat len" "unat (len - n) \<le> length (drop (unat n) src)"
        using sub pos less.prems(4) by auto
      obtain s' where s': "copyout_loop pt (va + n) (drop (unat n) src) (len - n) s1 = Ret (0, s')"
        "copied s1 s' pt (va + n) (unat (len - n)) (drop (unat n) src)"
        using less.hyps [OF l(1) inv1 u w1 l(2)] by blast
      have "copied s s' pt va (unat n + unat (len - n)) src"
        using s'(2) less.prems(3,4) by (intro copied_append [OF _ c1]) (simp_all add: split [symmetric])
      then show ?thesis using s'(1) unfolding step nx by (simp add: split [symmetric])
    qed
  qed
qed


section \<open>Properties\<close>

text \<open>(C19) What \<^verbatim>\<open>copyout\<close> writes to a user buffer that the process can access, \<^verbatim>\<open>copyin\<close> reads back:
  both succeed, across page boundaries, and \<^verbatim>\<open>copyout\<close> changes no other byte of memory and no
  mapping.\<close>

theorem copyout_copyin:
  assumes "pt_inv s pt" and "unat va + length bs \<le> 2 ^ 46" and "writable s pt va (length bs)"
    and "PROCVKSTACK (NPROC - 1) \<le> src"
  shows "\<exists>s'. copyout pt va src bs (of_nat (length bs)) s = Ret (0, s')
    \<and> copyin pt va (of_nat (length bs)) s' = Ret (0, bs)
    \<and> (\<forall>x. x \<notin> user_addrs s pt va (length bs) \<longrightarrow> mem s' x = mem s x)
    \<and> (\<forall>vb. pte_of s' pt vb = pte_of s pt vb)"
proof -
  have u: "unat (of_nat (length bs) :: u64) = length bs" using assms(2) by (simp add: unat_of_nat)
  have va: "va \<le> MAXVA" using assms(2) by (simp add: word_le_nat_alt)
  from copyout_loop_ok [of s pt va "of_nat (length bs)" bs] assms(1-3) u obtain s' where
    s': "copyout_loop pt va bs (of_nat (length bs)) s = Ret (0, s')" "copied s s' pt va (length bs) bs" by auto
  have "accessible s' pt (va + of_nat i)" if "i < length bs" for i
    using assms(3) copied_cong [OF s'(2)] that by (simp add: writable_def)
  then have "copyin_loop pt va (of_nat (length bs)) [] s' = Ret (0, user_bytes s' pt va (length bs))"
    using copyin_loop_ok [of s' pt va "of_nat (length bs)" "[]"] s'(2) assms(2) u by (simp add: copied_def)
  moreover have "user_bytes s' pt va (length bs) = bs"
    using s'(2) copied_cong [OF s'(2)]
    by (auto simp: user_bytes_def user_byte_def copied_def intro!: nth_equalityI)
  ultimately have "copyin pt va (of_nat (length bs)) s' = Ret (0, bs)"
    using va by (simp add: copyin_def not_less)
  moreover have "copyout pt va src bs (of_nat (length bs)) s = Ret (0, s')"
    using va assms(4) s'(1) by (simp add: copyout_def not_less del: PROCVKSTACK_def)
  ultimately show ?thesis using s'(2) by (auto simp: copied_def)
qed


theorem copyout_copyin_witness:
  "\<exists>s pt s'. writable s pt 10 2 \<and> copyout pt 10 RAMBASE [7, 8] 2 s = Ret (0, s') \<and> copyin pt 10 2 s' = Ret (0, [7, 8])"
proof -
  obtain s pt where s: "pt_inv s pt" "leaves 1 s pt 0" "pte_of s pt 0 AND PTE_PLV3 \<noteq> 0"
    using booted_mapped by blast
  have e: "pte_of s pt (10 + of_nat i) = pte_of s pt 0" if "i < 2" for i
  proof -
    have "PGROUNDDOWN (10 + of_nat i) = 0" "(10 + of_nat i :: u64) < MAXVA"
      using that by (auto simp: less_2_cases_iff PGROUNDDOWN_def)
    then show ?thesis using pte_of_page by metis
  qed
  have v: "pvalid (pte_of s pt 0)" "PTE2PA (pte_of s pt 0) \<notin> table_pages s pt \<union> set (free_list s)"
    using s(2) by (auto simp: leaves_def in_pages_def)
  have "inj_on (\<lambda>i. user_addr s pt (10 + of_nat i)) {..<2}"
    using e by (auto simp: inj_on_def user_addr_def less_2_cases_iff)
  then have w: "writable s pt 10 2" using e v s(3) by (auto simp: writable_def accessible_def)
  then have "writable s pt 10 (length [7, 8 :: u8])" by (simp add: eval_nat_numeral)
  moreover have "PROCVKSTACK (NPROC - 1) \<le> RAMBASE" by (simp add: PROCVKSTACK_def)
  ultimately have "\<exists>s'. copyout pt 10 RAMBASE [7, 8] 2 s = Ret (0, s') \<and> copyin pt 10 2 s' = Ret (0, [7, 8])"
    using copyout_copyin [of s pt 10 "[7, 8]" RAMBASE] s(1) by auto
  with w show ?thesis by blast
qed


section \<open>Freeing a page table\<close>

lemma freewalk_loop_skips:
  assumes "\<And>j. i \<le> j \<Longrightarrow> j < i + k \<Longrightarrow> PTE_FLAGS (load64 (mem s) (pt + 8 * of_nat j)) \<noteq> PTE_V"
  shows "freewalk_loop k i rec pt s = Ret s"
  using assms by (induction k arbitrary: i) (auto simp: Let_def)

lemma PTE_FLAGS_window: "PTE_FLAGS (e OR PTE_V OR DMWIN_MASK) \<noteq> PTE_V"
proof -
  have "bit (PTE_FLAGS (e OR PTE_V OR DMWIN_MASK)) 63" by (simp add: PTE_FLAGS_def bit_simps)
  moreover have "\<not> bit PTE_V 63" by simp
  ultimately show ?thesis by metis
qed

text \<open>(C24) \<^verbatim>\<open>freewalk\<close> frees only the root page of a table whose entries were made by
  \<^verbatim>\<open>walk\<close>: an entry for a lower table carries the window bits of \<^verbatim>\<open>DMWIN_MASK\<close>, of which
  \<^verbatim>\<open>PTE_FLAGS\<close> keeps bit 63, so the test that should recognise such an entry never holds. The lower tables
  stay allocated, although no table refers to them any more.\<close>

theorem freewalk_frees_root_only:
  assumes "\<forall>i < 512. load64 (mem s) (pt + 8 * of_nat i) = 0
    \<or> (\<exists>p. load64 (mem s) (pt + 8 * of_nat i) = PA2PTE p OR PTE_V OR DMWIN_MASK)"
  shows "freewalk (Suc d) pt s = kfree pt s"
proof -
  have "PTE_FLAGS (load64 (mem s) (pt + 8 * of_nat j)) \<noteq> PTE_V" if j: "j < 512" for j
  proof (cases "load64 (mem s) (pt + 8 * of_nat j) = 0")
    case True
    then show ?thesis by (simp add: PTE_FLAGS_def)
  next
    case False
    then obtain p where "load64 (mem s) (pt + 8 * of_nat j) = PA2PTE p OR PTE_V OR DMWIN_MASK"
      using assms j by blast
    then show ?thesis using PTE_FLAGS_window by (simp only: not_False_eq_True)
  qed
  then show ?thesis using freewalk_loop_skips [of 0 512 s pt] by simp
qed

theorem freewalk_frees_root_only_witness:
  "freewalk (Suc 3) RAMBASE \<lparr>mem = store64 (\<lambda>_. 0) RAMBASE (PA2PTE (RAMBASE + 4096) OR PTE_V OR DMWIN_MASK),
     freelist = 0, npage = 0, kernel_end = RAMBASE\<rparr> =
   kfree RAMBASE \<lparr>mem = store64 (\<lambda>_. 0) RAMBASE (PA2PTE (RAMBASE + 4096) OR PTE_V OR DMWIN_MASK),
     freelist = 0, npage = 0, kernel_end = RAMBASE\<rparr>"
proof -
  let ?m = "store64 (\<lambda>_. 0) RAMBASE (PA2PTE (RAMBASE + 4096) OR PTE_V OR DMWIN_MASK)"
  have "load64 ?m (RAMBASE + 8 * of_nat i) = (if i = 0 then PA2PTE (RAMBASE + 4096) OR PTE_V OR DMWIN_MASK else 0)"
    if "i < 512" for i
  proof -
    have "(of_nat i :: u64) < 512" "(of_nat i :: u64) = 0 \<longleftrightarrow> i = 0"
      using that by (auto simp: word_less_nat_alt unat_of_nat word_unat_eq_iff)
    then show ?thesis
      using pte_at_store [of 0 "of_nat i" "\<lambda>_. 0" RAMBASE "PA2PTE (RAMBASE + 4096) OR PTE_V OR DMWIN_MASK"]
      by (auto simp: pte_at_def)
  qed
  then have "\<forall>i < 512. load64 (mem \<lparr>mem = ?m, freelist = 0, npage = 0, kernel_end = RAMBASE\<rparr>) (RAMBASE + 8 * of_nat i) = 0
      \<or> (\<exists>p. load64 (mem \<lparr>mem = ?m, freelist = 0, npage = 0, kernel_end = RAMBASE\<rparr>) (RAMBASE + 8 * of_nat i)
            = PA2PTE p OR PTE_V OR DMWIN_MASK)"
    by (auto simp del: PTE_V_def DMWIN_MASK_def RAMBASE_def)
  then show ?thesis by (rule freewalk_frees_root_only)
qed

end
