(* ===== verification/Spinlock.thy ===== *)
theory Spinlock
  imports Prelude
begin

text \<open>
  \<^verbatim>\<open>kernel/intr.c\<close> and \<^verbatim>\<open>kernel/spinlock.c\<close>: nested interrupt disabling and spin locks.
  The operations on one CPU and one lock are functions; the interleaving of several CPUs is a step
  relation in which every access to shared memory (the test-and-set, the store of
  \<^verbatim>\<open>lk->cpu\<close>, the release) is a step of its own. The compiler and memory barriers are the
  assumption that these steps happen in program order.
\<close>

section \<open>Interrupt nesting\<close>

record cpu =
  noff :: int
  intena :: bool
  intr :: bool

definition push_off :: "cpu \<Rightarrow> cpu" where
  "push_off c =
     (let old = intr c;
          c1 = c\<lparr>intr := False\<rparr>;
          c2 = (if noff c1 = 0 then c1\<lparr>intena := old\<rparr> else c1)
      in c2\<lparr>noff := noff c2 + 1\<rparr>)"

definition pop_off :: "cpu \<Rightarrow> cpu res" where
  "pop_off c =
     (if intr c then Panic ''pop_off - interruptible''
      else if noff c < 1 then Panic ''pop_off''
      else let c1 = c\<lparr>noff := noff c - 1\<rparr> in
        Ret (if noff c1 = 0 \<and> intena c1 then c1\<lparr>intr := True\<rparr> else c1))"

section \<open>Locks\<close>

record spinlock =
  locked :: bool
  lcpu :: "nat option"

definition initlock :: spinlock where
  "initlock = \<lparr>locked = False, lcpu = None\<rparr>"

definition holding :: "spinlock \<Rightarrow> nat \<Rightarrow> bool" where
  "holding lk c \<longleftrightarrow> locked lk \<and> lcpu lk = Some c"

text \<open>Where a CPU is inside \<^verbatim>\<open>acquire\<close> or \<^verbatim>\<open>release\<close>.\<close>

datatype pc = Idle | Spin nat | Record nat | Unlock nat | Pop | Panicked string

record machine =
  cpus :: "nat \<Rightarrow> cpu"
  locks :: "nat \<Rightarrow> spinlock"
  pcs :: "nat \<Rightarrow> pc"

text \<open>The entry of \<^verbatim>\<open>acquire\<close>: \<^verbatim>\<open>push_off\<close> and the check that the lock is not held already.\<close>

definition acquire_enter :: "nat \<Rightarrow> nat \<Rightarrow> machine \<Rightarrow> machine" where
  "acquire_enter c l m =
     m\<lparr>cpus := (cpus m)(c := push_off (cpus m c)),
       pcs := (pcs m)(c := (if holding (locks m l) c then Panicked ''acquire'' else Spin l))\<rparr>"

text \<open>One \<^verbatim>\<open>__sync_lock_test_and_set(&lk->locked, 1)\<close> and the test of its result.\<close>

definition acquire_tas :: "nat \<Rightarrow> nat \<Rightarrow> machine \<Rightarrow> machine" where
  "acquire_tas c l m =
     (let old = locked (locks m l);
          m1 = m\<lparr>locks := (locks m)(l := (locks m l)\<lparr>locked := True\<rparr>)\<rparr>
      in if old then m1 else m1\<lparr>pcs := (pcs m1)(c := Record l)\<rparr>)"

definition acquire_record :: "nat \<Rightarrow> nat \<Rightarrow> machine \<Rightarrow> machine" where
  "acquire_record c l m =
     m\<lparr>locks := (locks m)(l := (locks m l)\<lparr>lcpu := Some c\<rparr>), pcs := (pcs m)(c := Idle)\<rparr>"

definition release_enter :: "nat \<Rightarrow> nat \<Rightarrow> machine \<Rightarrow> machine" where
  "release_enter c l m =
     (if \<not> holding (locks m l) c then m\<lparr>pcs := (pcs m)(c := Panicked ''release'')\<rparr>
      else m\<lparr>locks := (locks m)(l := (locks m l)\<lparr>lcpu := None\<rparr>), pcs := (pcs m)(c := Unlock l)\<rparr>)"

definition release_unlock :: "nat \<Rightarrow> nat \<Rightarrow> machine \<Rightarrow> machine" where
  "release_unlock c l m =
     m\<lparr>locks := (locks m)(l := (locks m l)\<lparr>locked := False\<rparr>), pcs := (pcs m)(c := Pop)\<rparr>"

definition release_pop :: "nat \<Rightarrow> machine \<Rightarrow> machine" where
  "release_pop c m =
     (case pop_off (cpus m c) of
        Ret c' \<Rightarrow> m\<lparr>cpus := (cpus m)(c := c'), pcs := (pcs m)(c := Idle)\<rparr>
      | Panic msg \<Rightarrow> m\<lparr>pcs := (pcs m)(c := Panicked msg)\<rparr>
      | Stuck \<Rightarrow> m)"

text \<open>Any number of CPUs call \<^verbatim>\<open>acquire\<close> and \<^verbatim>\<open>release\<close> on any locks; a CPU whose interrupts are on may
  also turn them off or on again. A CPU releases only locks it has acquired and acquires only
  locks it does not hold, which is the discipline the callers keep.\<close>

inductive lock_step :: "machine \<Rightarrow> machine \<Rightarrow> bool" where
  enter: "pcs m c = Idle \<Longrightarrow> \<not> holding (locks m l) c \<Longrightarrow> lock_step m (acquire_enter c l m)"
| tas: "pcs m c = Spin l \<Longrightarrow> lock_step m (acquire_tas c l m)"
| store_cpu: "pcs m c = Record l \<Longrightarrow> lock_step m (acquire_record c l m)"
| leave: "pcs m c = Idle \<Longrightarrow> holding (locks m l) c \<Longrightarrow> lock_step m (release_enter c l m)"
| unlock: "pcs m c = Unlock l \<Longrightarrow> lock_step m (release_unlock c l m)"
| pop: "pcs m c = Pop \<Longrightarrow> lock_step m (release_pop c m)"
| toggle: "pcs m c = Idle \<Longrightarrow> noff (cpus m c) = 0 \<Longrightarrow>
    lock_step m (m\<lparr>cpus := (cpus m)(c := (cpus m c)\<lparr>intr := b\<rparr>)\<rparr>)"

inductive_cases lock_stepE: "lock_step m m'"

definition boot_machine :: "machine \<Rightarrow> bool" where
  "boot_machine m \<longleftrightarrow> (\<forall>c. pcs m c = Idle \<and> noff (cpus m c) = 0) \<and> (\<forall>l. locks m l = initlock)"

section \<open>Owners\<close>

text \<open>CPU \<open>c\<close> is between the successful test-and-set and the release of lock \<open>l\<close>.\<close>

definition owns :: "machine \<Rightarrow> nat \<Rightarrow> nat \<Rightarrow> bool" where
  "owns m c l \<longleftrightarrow> pcs m c = Record l \<or> pcs m c = Unlock l \<or> lcpu (locks m l) = Some c"

definition in_call :: "pc \<Rightarrow> int" where
  "in_call p = (case p of Spin l \<Rightarrow> 1 | Record l \<Rightarrow> 1 | Unlock l \<Rightarrow> 1 | Pop \<Rightarrow> 1 | _ \<Rightarrow> 0)"

definition held :: "machine \<Rightarrow> nat \<Rightarrow> nat set" where
  "held m c = {l. lcpu (locks m l) = Some c}"

definition lock_inv :: "machine \<Rightarrow> bool" where
  "lock_inv m \<longleftrightarrow>
     (\<forall>l c d. owns m c l \<longrightarrow> owns m d l \<longrightarrow> c = d) \<and>
     (\<forall>l c. owns m c l \<longrightarrow> locked (locks m l)) \<and>
     (\<forall>l. locked (locks m l) \<longrightarrow> (\<exists>c. owns m c l)) \<and>
     (\<forall>l c. pcs m c = Record l \<or> pcs m c = Unlock l \<or> pcs m c = Spin l \<longrightarrow> l \<notin> held m c) \<and>
     (\<forall>c. finite (held m c) \<and> noff (cpus m c) = int (card (held m c)) + in_call (pcs m c)) \<and>
     (\<forall>c. noff (cpus m c) > 0 \<longrightarrow> \<not> intr (cpus m c)) \<and>
     (\<forall>c msg. pcs m c \<noteq> Panicked msg)"


section \<open>The invariant\<close>

lemma push_off_props [simp]: "noff (push_off c) = noff c + 1" "\<not> intr (push_off c)"
  by (simp_all add: push_off_def Let_def)

lemma lock_invD:
  assumes "lock_inv m"
  shows "owns m c l \<Longrightarrow> owns m d l \<Longrightarrow> c = d" "owns m c l \<Longrightarrow> locked (locks m l)"
    "locked (locks m l) \<Longrightarrow> \<exists>c. owns m c l"
    "pcs m c = Record l \<or> pcs m c = Unlock l \<or> pcs m c = Spin l \<Longrightarrow> l \<notin> held m c"
    "finite (held m c)" "noff (cpus m c) = int (card (held m c)) + in_call (pcs m c)"
    "noff (cpus m c) > 0 \<Longrightarrow> \<not> intr (cpus m c)" "pcs m c \<noteq> Panicked msg"
  using assms unfolding lock_inv_def by blast+

lemma lock_invI:
  assumes "\<And>l c d. owns m c l \<Longrightarrow> owns m d l \<Longrightarrow> c = d" and "\<And>l c. owns m c l \<Longrightarrow> locked (locks m l)"
    and "\<And>l. locked (locks m l) \<Longrightarrow> \<exists>c. owns m c l"
    and "\<And>l c. pcs m c = Record l \<or> pcs m c = Unlock l \<or> pcs m c = Spin l \<Longrightarrow> l \<notin> held m c"
    and "\<And>c. finite (held m c)" and "\<And>c. noff (cpus m c) = int (card (held m c)) + in_call (pcs m c)"
    and "\<And>c. noff (cpus m c) > 0 \<Longrightarrow> \<not> intr (cpus m c)" and "\<And>c msg. pcs m c \<noteq> Panicked msg"
  shows "lock_inv m"
  using assms unfolding lock_inv_def by blast

text \<open>A step of CPU \<open>c\<close> on lock \<open>l\<close> changes the owners of no other lock.\<close>

lemma enter_inv:
  assumes I: "lock_inv m" and pc: "pcs m c = Idle" and nh: "\<not> holding (locks m l) c"
  shows "lock_inv (acquire_enter c l m)"
proof -
  let ?m = "acquire_enter c l m"
  have pcs: "pcs ?m = (pcs m)(c := Spin l)" and lk: "locks ?m = locks m"
    and cp: "cpus ?m = (cpus m)(c := push_off (cpus m c))"
    using nh by (simp_all add: acquire_enter_def)
  have ow: "owns ?m d k = owns m d k" for d k using pc by (auto simp: owns_def pcs lk)
  have hd: "held ?m d = held m d" for d by (simp add: held_def lk)
  have "l \<notin> held m c" using nh lock_invD(2) [OF I, of c l] by (auto simp: held_def holding_def owns_def)
  then show ?thesis
    using lock_invD [OF I] pc unfolding lock_inv_def ow hd
    by (simp add: pcs lk cp in_call_def)
qed


lemma tas_inv:
  assumes I: "lock_inv m" and pc: "pcs m c = Spin l"
  shows "lock_inv (acquire_tas c l m)"
proof (cases "locked (locks m l)")
  case True
  then have "(locks m)(l := (locks m l)\<lparr>locked := True\<rparr>) = locks m"
    by (intro ext spinlock.equality) auto
  then have "acquire_tas c l m = m" using True unfolding acquire_tas_def Let_def by simp
  then show ?thesis using I by simp
next
  case False
  let ?m = "acquire_tas c l m"
  have pcs: "pcs ?m = (pcs m)(c := Record l)" and cp: "cpus ?m = cpus m"
    and lk: "locks ?m = (locks m)(l := (locks m l)\<lparr>locked := True\<rparr>)"
    using False by (simp_all add: acquire_tas_def Let_def)
  have none: "\<not> owns m d l" for d using lock_invD(2) [OF I] False by blast
  have ow: "owns ?m d k \<longleftrightarrow> (if k = l then d = c else owns m d k)" for d k
    using pc none [of d] by (auto simp: owns_def pcs lk)
  have hd: "held ?m d = held m d" for d by (auto simp: held_def lk)
  show ?thesis
    using lock_invD [OF I] pc unfolding lock_inv_def ow hd
    by (auto simp: pcs lk cp in_call_def)
qed

lemma record_inv:
  assumes I: "lock_inv m" and pc: "pcs m c = Record l"
  shows "lock_inv (acquire_record c l m)"
proof -
  let ?m = "acquire_record c l m"
  have pcs: "pcs ?m = (pcs m)(c := Idle)" and cp: "cpus ?m = cpus m"
    and lk: "locks ?m = (locks m)(l := (locks m l)\<lparr>lcpu := Some c\<rparr>)"
    by (simp_all add: acquire_record_def)
  have o: "owns m c l" using pc by (simp add: owns_def)
  have ow: "owns ?m d k = owns m d k" for d k
    using pc lock_invD(1) [OF I o] by (auto simp: owns_def pcs lk)
  have nl: "l \<notin> held m d" for d
    using lock_invD(1) [OF I o, of d] lock_invD(4) [OF I, of c l] pc by (auto simp: held_def owns_def)
  have hd: "held ?m d = (if d = c then insert l (held m c) else held m d)" for d
    using nl [of d] by (auto simp: held_def lk)
  show ?thesis
    using lock_invD [OF I] pc nl unfolding lock_inv_def ow hd
    by (auto simp: pcs lk cp in_call_def)
qed

lemma leave_inv:
  assumes I: "lock_inv m" and pc: "pcs m c = Idle" and h: "holding (locks m l) c"
  shows "lock_inv (release_enter c l m)"
proof -
  let ?m = "release_enter c l m"
  have pcs: "pcs ?m = (pcs m)(c := Unlock l)" and cp: "cpus ?m = cpus m"
    and lk: "locks ?m = (locks m)(l := (locks m l)\<lparr>lcpu := None\<rparr>)"
    using h by (simp_all add: release_enter_def)
  have o: "owns m c l" "lcpu (locks m l) = Some c" using h by (auto simp: owns_def holding_def)
  have no: "\<not> owns m d l" if "d \<noteq> c" for d using lock_invD(1) [OF I o(1), of d] that by blast
  have ow: "owns ?m d k = owns m d k" for d k
    using pc no [of d] o(2) by (cases "d = c") (auto simp: owns_def pcs lk)
  have hd: "held ?m d = (if d = c then held m c - {l} else held m d)" for d
    using o(2) by (auto simp: held_def lk)
  have lin: "l \<in> held m c" using o(2) by (simp add: held_def)
  then have cd: "card (held m c - {l}) = card (held m c) - 1" "0 < card (held m c)"
    using lock_invD(5) [OF I, of c] by (auto simp: card_gt_0_iff)
  show ?thesis
  proof (rule lock_invI)
    fix d k msg
    show "owns ?m d k \<Longrightarrow> owns ?m c' k \<Longrightarrow> d = c'" for c' using lock_invD(1) [OF I] ow by blast
    show "owns ?m d k \<Longrightarrow> locked (locks ?m k)" using lock_invD(2) [OF I, of d k] ow by (auto simp: lk)
    show "locked (locks ?m k) \<Longrightarrow> \<exists>d. owns ?m d k"
      using lock_invD(3) [OF I, of k] ow by (simp add: lk split: if_splits)
    show "pcs ?m d = Record k \<or> pcs ?m d = Unlock k \<or> pcs ?m d = Spin k \<Longrightarrow> k \<notin> held ?m d"
      using lock_invD(4) [OF I, of d k] by (auto simp: pcs hd split: if_splits)
    show "finite (held ?m d)" using lock_invD(5) [OF I] by (simp add: hd)
    show "noff (cpus ?m d) = int (card (held ?m d)) + in_call (pcs ?m d)"
      using lock_invD(6) [OF I, of d] pc cd by (simp add: cp hd pcs in_call_def)
    show "noff (cpus ?m d) > 0 \<Longrightarrow> \<not> intr (cpus ?m d)" using lock_invD(7) [OF I] by (simp add: cp)
    show "pcs ?m d \<noteq> Panicked msg" using lock_invD(8) [OF I] by (simp add: pcs)
  qed
qed

lemma unlock_inv:
  assumes I: "lock_inv m" and pc: "pcs m c = Unlock l"
  shows "lock_inv (release_unlock c l m)"
proof -
  let ?m = "release_unlock c l m"
  have pcs: "pcs ?m = (pcs m)(c := Pop)" and cp: "cpus ?m = cpus m"
    and lk: "locks ?m = (locks m)(l := (locks m l)\<lparr>locked := False\<rparr>)"
    by (simp_all add: release_unlock_def)
  have o: "owns m c l" using pc by (simp add: owns_def)
  have nl: "lcpu (locks m l) \<noteq> Some d" for d
    using lock_invD(1) [OF I o, of d] lock_invD(4) [OF I, of c l] pc by (auto simp: held_def owns_def)
  have no: "\<not> owns m d l" if "d \<noteq> c" for d using lock_invD(1) [OF I o, of d] that by blast
  have ow: "owns ?m d k \<longleftrightarrow> k \<noteq> l \<and> owns m d k" for d k
    using pc no [of d] nl [of d] by (cases "d = c") (auto simp: owns_def pcs lk)
  have hd: "held ?m d = held m d" for d by (auto simp: held_def lk)
  show ?thesis
  proof (rule lock_invI)
    fix d k msg
    show "owns ?m d k \<Longrightarrow> owns ?m c' k \<Longrightarrow> d = c'" for c' using lock_invD(1) [OF I] ow by blast
    show "owns ?m d k \<Longrightarrow> locked (locks ?m k)" using lock_invD(2) [OF I, of d k] ow by (auto simp: lk)
    show "locked (locks ?m k) \<Longrightarrow> \<exists>d. owns ?m d k"
      using lock_invD(3) [OF I, of k] ow by (simp add: lk split: if_splits)
    show "pcs ?m d = Record k \<or> pcs ?m d = Unlock k \<or> pcs ?m d = Spin k \<Longrightarrow> k \<notin> held ?m d"
      using lock_invD(4) [OF I, of d k] by (auto simp: pcs hd split: if_splits)
    show "finite (held ?m d)" using lock_invD(5) [OF I] by (simp add: hd)
    show "noff (cpus ?m d) = int (card (held ?m d)) + in_call (pcs ?m d)"
      using lock_invD(6) [OF I, of d] pc by (simp add: cp hd pcs in_call_def)
    show "noff (cpus ?m d) > 0 \<Longrightarrow> \<not> intr (cpus ?m d)" using lock_invD(7) [OF I] by (simp add: cp)
    show "pcs ?m d \<noteq> Panicked msg" using lock_invD(8) [OF I] by (simp add: pcs)
  qed
qed

lemma pop_inv:
  assumes I: "lock_inv m" and pc: "pcs m c = Pop"
  shows "lock_inv (release_pop c m)"
proof -
  let ?m = "release_pop c m"
  have n: "noff (cpus m c) = int (card (held m c)) + 1" using lock_invD(6) [OF I, of c] pc by (simp add: in_call_def)
  then have i: "\<not> intr (cpus m c)" using lock_invD(7) [OF I, of c] by simp
  then obtain c' where c': "pop_off (cpus m c) = Ret c'" "noff c' = int (card (held m c))"
    "noff c' > 0 \<longrightarrow> \<not> intr c'"
    using n by (simp add: pop_off_def Let_def)
  have pcs: "pcs ?m = (pcs m)(c := Idle)" and cp: "cpus ?m = (cpus m)(c := c')" and lk: "locks ?m = locks m"
    using c' by (simp_all add: release_pop_def)
  have ow: "owns ?m d k = owns m d k" for d k using pc by (auto simp: owns_def pcs lk)
  have hd: "held ?m d = held m d" for d by (simp add: held_def lk)
  show ?thesis
    using lock_invD [OF I] pc c' unfolding lock_inv_def ow hd
    by (auto simp: pcs lk cp in_call_def)
qed

lemma toggle_inv:
  assumes I: "lock_inv m" and pc: "pcs m c = Idle" "noff (cpus m c) = 0"
  shows "lock_inv (m\<lparr>cpus := (cpus m)(c := (cpus m c)\<lparr>intr := b\<rparr>)\<rparr>)"
proof -
  let ?m = "m\<lparr>cpus := (cpus m)(c := (cpus m c)\<lparr>intr := b\<rparr>)\<rparr>"
  have ow: "owns ?m d k = owns m d k" and hd: "held ?m d = held m d" for d k
    by (auto simp: owns_def held_def)
  show ?thesis using lock_invD [OF I] pc unfolding lock_inv_def ow hd by auto
qed

lemma lock_step_inv: "lock_step m m' \<Longrightarrow> lock_inv m \<Longrightarrow> lock_inv m'"
  by (induction rule: lock_step.induct)
    (auto intro: enter_inv tas_inv record_inv leave_inv unlock_inv pop_inv toggle_inv)

lemma boot_inv: "boot_machine m \<Longrightarrow> lock_inv m"
  by (auto simp: boot_machine_def lock_inv_def owns_def held_def initlock_def in_call_def)

lemma lock_run_inv: "lock_step\<^sup>*\<^sup>* m m' \<Longrightarrow> lock_inv m \<Longrightarrow> lock_inv m'"
  by (induction rule: rtranclp_induct) (auto intro: lock_step_inv)


section \<open>Balanced nesting\<close>

datatype nest = Push | PopOff

primrec run_nest :: "nest list \<Rightarrow> cpu \<Rightarrow> cpu res" where
  "run_nest [] c = Ret c"
| "run_nest (x # xs) c =
     bind_res (case x of Push \<Rightarrow> Ret (push_off c) | PopOff \<Rightarrow> pop_off c) (run_nest xs)"

inductive balanced :: "nest list \<Rightarrow> bool" where
  "balanced []"
| "balanced xs \<Longrightarrow> balanced ys \<Longrightarrow> balanced (Push # xs @ PopOff # ys)"

lemma run_nest_append: "run_nest (xs @ ys) c = bind_res (run_nest xs c) (run_nest ys)"
  by (induction xs arbitrary: c) (auto simp: bind_res_assoc intro: bind_res_cong split: nest.splits)

text \<open>The flag saved by the outermost \<^verbatim>\<open>push_off\<close> is not touched by the ones nested in it.\<close>

lemma run_balanced:
  "balanced xs \<Longrightarrow> 0 \<le> noff c \<Longrightarrow> (0 < noff c \<longrightarrow> \<not> intr c) \<Longrightarrow>
    \<exists>c'. run_nest xs c = Ret c' \<and> noff c' = noff c \<and> intr c' = intr c
      \<and> (0 < noff c \<longrightarrow> intena c' = intena c)"
proof (induction arbitrary: c rule: balanced.induct)
  case 1
  then show ?case by simp
next
  case (2 xs ys)
  have pre: "0 \<le> noff (push_off c)" "0 < noff (push_off c) \<longrightarrow> \<not> intr (push_off c)" using 2 by simp_all
  from "2.IH"(1) [OF pre] obtain c1 where c1: "run_nest xs (push_off c) = Ret c1" "noff c1 = noff c + 1"
    "\<not> intr c1" "intena c1 = intena (push_off c)" using 2(5) by auto
  have "intena (push_off c) = (if noff c = 0 then intr c else intena c)" by (simp add: push_off_def Let_def)
  then obtain c2 where c2: "pop_off c1 = Ret c2" "noff c2 = noff c" "intr c2 = intr c"
    "0 < noff c \<longrightarrow> intena c2 = intena c"
    using c1 2(5,6) by (auto simp: pop_off_def Let_def)
  from "2.IH"(2) [of c2] c2 2(5,6) obtain c3 where "run_nest ys c2 = Ret c3" "noff c3 = noff c" "intr c3 = intr c"
    "0 < noff c \<longrightarrow> intena c3 = intena c" by auto
  then show ?case using c1(1) c2(1) by (auto simp: run_nest_append)
qed

section \<open>Properties\<close>


definition idle_machine :: machine where
  "idle_machine = \<lparr>cpus = (\<lambda>_. \<lparr>noff = 0, intena = False, intr = True\<rparr>), locks = (\<lambda>_. initlock), pcs = (\<lambda>_. Idle)\<rparr>"




end
