(* ===== verification/Ring.thy ===== *)
theory Ring
  imports Prelude
begin

text \<open>
  Ring buffers with free running counters, the structure that \<^verbatim>\<open>kernel/pipe.c\<close>,
  \<^verbatim>\<open>kernel/uart.c\<close> and \<^verbatim>\<open>kernel/console.c\<close> share: the byte for counter value \<open>i\<close> is in slot
  \<open>i mod N\<close>. \<open>ring_seq\<close> is the sequence of bytes between two counter values. The locale
  \<open>byte_fifo\<close> is the interface of a bounded queue; its lemmas give the order of the bytes for any
  interleaving of puts and gets.
\<close>

section \<open>Sequences in a ring\<close>

definition ring_seq :: "'b list \<Rightarrow> nat \<Rightarrow> nat \<Rightarrow> 'b list" where
  "ring_seq buf r n = map (\<lambda>i. buf ! ((r + i) mod length buf)) [0..<n]"

lemma length_ring_seq [simp]: "length (ring_seq buf r n) = n"
  by (simp add: ring_seq_def)

lemma ring_seq_0 [simp]: "ring_seq buf r 0 = []"
  by (simp add: ring_seq_def)

lemma mod_add_inj:
  fixes i j N :: nat
  assumes "(r + i) mod N = (r + j) mod N" and "i < N" and "j < N"
  shows "i = j"
proof (rule ccontr)
  assume "i \<noteq> j"
  have *: False if "(r + a) mod N = (r + b) mod N" "a < b" "b < N" for a b
  proof -
    have "N dvd (r + b) - (r + a)" using that(1) by (metis mod_eq_dvd_iff_nat less_imp_le nat_add_left_cancel_le that(2))
    then have "N dvd b - a" by simp
    then show False using that(2,3) by (meson dvd_imp_le less_imp_diff_less not_le zero_less_diff)
  qed
  show False using \<open>i \<noteq> j\<close> assms * [of i j] * [of j i] by (metis linorder_neqE_nat)
qed

lemma ring_put:
  assumes "n < length buf"
  shows "ring_seq (buf[(r + n) mod length buf := x]) r (Suc n) = ring_seq buf r n @ [x]"
proof -
  let ?N = "length buf"
  have "buf[(r + n) mod ?N := x] ! ((r + i) mod ?N) = buf ! ((r + i) mod ?N)" if "i < n" for i
    using mod_add_inj [of r n ?N i] that assms by (metis less_trans nat_less_le nth_list_update_neq)
  moreover have "(r + n) mod ?N < ?N" using assms by (intro mod_less_divisor) auto
  ultimately show ?thesis by (auto simp: ring_seq_def)
qed

lemma ring_get: "ring_seq buf r (Suc n) = buf ! (r mod length buf) # ring_seq buf (Suc r) n"
  by (simp add: ring_seq_def map_upt_Suc del: upt_Suc)

lemma ring_seq_mod: "N = length buf \<Longrightarrow> ring_seq buf (r mod N) n = ring_seq buf r n"
  by (simp add: ring_seq_def mod_add_left_eq)

lemma ring_unget: "0 < length buf \<Longrightarrow> ring_seq buf r (Suc n) = buf ! (r mod length buf) # ring_seq buf (r + 1) n"
  using ring_get by simp

lemma take_ring_seq: "k \<le> n \<Longrightarrow> take k (ring_seq buf r n) = ring_seq buf r k"
  by (simp add: ring_seq_def take_map)

lemma ring_update_outside:
  assumes "k \<le> n" and "n < length buf"
  shows "ring_seq (buf[(r + n) mod length buf := x]) r k = ring_seq buf r k"
proof -
  have "take k (ring_seq (buf[(r + n) mod length buf := x]) r (Suc n)) = take k (ring_seq buf r n)"
    using assms by (simp add: ring_put)
  then show ?thesis using assms(1) by (simp add: take_ring_seq)
qed

text \<open>A counter of a word type whose range the size of the ring divides stays in step with the slots
  when it wraps around.\<close>

lemma counter_step:
  fixes r :: "'a::len word"
  assumes "N dvd 2 ^ LENGTH('a)"
  shows "unat (r + 1) mod N = Suc (unat r) mod N"
  using assms by (simp add: unat_word_ariths mod_mod_cancel)

lemma counter_add:
  fixes r n :: "'a::len word"
  assumes "N dvd 2 ^ LENGTH('a)"
  shows "unat (r + n) mod N = (unat r + unat n) mod N"
  using assms by (simp add: unat_word_ariths mod_mod_cancel)

text \<open>Two free running counters \<open>r\<close> and \<open>w\<close>, as in the pipe, the console and the serial line.\<close>

definition ring_between :: "'b list \<Rightarrow> 'a::len word \<Rightarrow> 'a word \<Rightarrow> 'b list" where
  "ring_between buf r w = ring_seq buf (unat r) (unat (w - r))"

lemma length_ring_between [simp]: "length (ring_between buf r w) = unat (w - r)"
  by (simp add: ring_between_def)

lemma ring_between_Nil_iff: "ring_between buf r w = [] \<longleftrightarrow> w = r"
  by (metis length_0_conv length_ring_between right_minus_eq unat_eq_0)

lemma unat_diff_Suc:
  fixes r w :: "'a::len word"
  assumes "Suc (unat (w - r)) < 2 ^ LENGTH('a)"
  shows "unat (w + 1 - r) = Suc (unat (w - r))"
proof -
  have "w + 1 - r = (w - r) + 1" by simp
  then show ?thesis using assms by (simp only: unat_word_ariths) simp
qed

lemma unat_diff_pred:
  fixes r w :: "'a::len word"
  assumes "w \<noteq> r"
  shows "unat (w - (r + 1)) = unat (w - r) - 1"
proof -
  have "w - r \<noteq> 0" using assms by simp
  from unat_minus_one [OF this] show ?thesis by (simp add: diff_diff_eq)
qed

lemma ring_between_put:
  fixes r w :: "'a::len word"
  assumes N: "length buf dvd 2 ^ LENGTH('a)" and n: "unat (w - r) < length buf" "length buf < 2 ^ LENGTH('a)"
  shows "ring_between (buf[unat w mod length buf := x]) r (w + 1) = ring_between buf r w @ [x]"
proof -
  have "unat w mod length buf = (unat r + unat (w - r)) mod length buf"
    using counter_add [OF N, of r "w - r"] by simp
  then show ?thesis
    using ring_put [OF n(1), of "unat r" x] unat_diff_Suc [of w r] n by (simp add: ring_between_def)
qed

lemma ring_between_update:
  fixes r w e :: "'a::len word"
  assumes N: "length buf dvd 2 ^ LENGTH('a)" and n: "unat (w - r) \<le> unat (e - r)" "unat (e - r) < length buf"
  shows "ring_between (buf[unat e mod length buf := x]) r w = ring_between buf r w"
proof -
  have "unat e mod length buf = (unat r + unat (e - r)) mod length buf"
    using counter_add [OF N, of r "e - r"] by simp
  then show ?thesis using ring_update_outside [OF n, of "unat r" x] by (simp add: ring_between_def)
qed

lemma ring_between_get:
  fixes r w :: "'a::len word"
  assumes N: "length buf dvd 2 ^ LENGTH('a)" and "w \<noteq> r"
  shows "ring_between buf r w = buf ! (unat r mod length buf) # ring_between buf (r + 1) w"
proof -
  have "unat (w - r) \<noteq> 0" using assms(2) by (simp add: unat_eq_0)
  then obtain k where k: "unat (w - r) = Suc k" by (cases "unat (w - r)") auto
  have "ring_seq buf (unat (r + 1)) k = ring_seq buf (Suc (unat r)) k"
    using ring_seq_mod [of "length buf" buf "unat (r + 1)" k] ring_seq_mod [of "length buf" buf "Suc (unat r)" k]
      counter_step [OF N, of r] by simp
  then show ?thesis
    using ring_get [of buf "unat r" k] k unat_diff_pred [OF assms(2)] by (simp add: ring_between_def)
qed

lemma ring_seq_append: "ring_seq buf r (m + n) = ring_seq buf r m @ ring_seq buf (r + m) n"
  by (auto simp: ring_seq_def nth_append add.assoc intro!: nth_equalityI)

lemma ring_between_append:
  fixes r w e :: "'a::len word"
  assumes N: "length buf dvd 2 ^ LENGTH('a)" and "unat (e - r) = unat (w - r) + unat (e - w)"
  shows "ring_between buf r e = ring_between buf r w @ ring_between buf w e"
proof -
  have "unat w mod length buf = (unat r + unat (w - r)) mod length buf"
    using counter_add [OF N, of r "w - r"] by simp
  then have "ring_seq buf (unat w) n = ring_seq buf (unat r + unat (w - r)) n" for n
    using ring_seq_mod [of "length buf" buf "unat w" n]
      ring_seq_mod [of "length buf" buf "unat r + unat (w - r)" n] by simp
  then show ?thesis by (simp add: ring_between_def assms(2) ring_seq_append)
qed

section \<open>Bounded queues\<close>

locale byte_fifo =
  fixes put :: "'b \<Rightarrow> 's \<Rightarrow> 's"
    and get :: "'s \<Rightarrow> 'b \<times> 's"
    and contents :: "'s \<Rightarrow> 'b list"
    and cap :: nat
    and wf :: "'s \<Rightarrow> bool"
  assumes put_contents: "wf s \<Longrightarrow> length (contents s) < cap \<Longrightarrow>
      wf (put x s) \<and> contents (put x s) = contents s @ [x]"
    and get_contents: "wf s \<Longrightarrow> contents s = x # xs \<Longrightarrow>
      fst (get s) = x \<and> wf (snd (get s)) \<and> contents (snd (get s)) = xs"
    and contents_bound: "wf s \<Longrightarrow> length (contents s) \<le> cap"
begin

lemma put_many:
  "wf s \<Longrightarrow> length (contents s) + length xs \<le> cap \<Longrightarrow>
     wf (fold put xs s) \<and> contents (fold put xs s) = contents s @ xs"
proof (induction xs arbitrary: s)
  case (Cons x xs)
  then have "wf (put x s)" "contents (put x s) = contents s @ [x]" using put_contents [of s x] by auto
  then show ?case using Cons.IH [of "put x s"] Cons.prems by simp
qed simp

primrec get_many :: "nat \<Rightarrow> 's \<Rightarrow> 'b list \<times> 's" where
  "get_many 0 s = ([], s)"
| "get_many (Suc n) s = (let (x, s1) = get s; (xs, s2) = get_many n s1 in (x # xs, s2))"

lemma get_many_take:
  "wf s \<Longrightarrow> n \<le> length (contents s) \<Longrightarrow>
     wf (snd (get_many n s)) \<and> fst (get_many n s) = take n (contents s)
     \<and> contents (snd (get_many n s)) = drop n (contents s)"
proof (induction n arbitrary: s)
  case (Suc n)
  then obtain x xs where c: "contents s = x # xs" by (cases "contents s") auto
  note g = get_contents [OF Suc.prems(1) c]
  then show ?case using Suc.IH [of "snd (get s)"] Suc.prems(2) c
    by (cases "get s"; cases "get_many n (snd (get s))") (auto simp: Let_def)
qed simp

lemma put_get_round_trip:
  "wf s \<Longrightarrow> contents s = [] \<Longrightarrow> length xs \<le> cap \<Longrightarrow> fst (get_many (length xs) (fold put xs s)) = xs"
  using put_many [of s xs] get_many_take [of "fold put xs s" "length xs"] by simp

end

end
