(* ===== verification/Pipe.thy ===== *)
theory Pipe
  imports Ring Vm
begin

text \<open>
  \<^verbatim>\<open>kernel/pipe.c\<close>. A pipe is its ring of bytes, its two free running 32-bit counters and the
  two open flags; it lives in a page of its own. Each of \<^verbatim>\<open>pipewrite\<close> and
  \<^verbatim>\<open>piperead\<close> runs under \<^verbatim>\<open>pi->lock\<close> until it returns or sleeps, so the model runs it up to
  that point: the result is \<open>Done\<close> with the return value or \<open>Sleep\<close> with the number of bytes
  already handled, from where it resumes. The calls of \<^verbatim>\<open>wakeup\<close> are returned as the list of
  channels woken.
\<close>

section \<open>State and byte operations\<close>

definition PIPESIZE :: nat where [simp]: "PIPESIZE = 512"

record pipe =
  data :: "u8 list"
  nread :: u32
  nwrite :: u32
  readopen :: bool
  writeopen :: bool

datatype chan = NRead | NWrite

datatype progress = Done int | Sleep nat

definition pipe_init :: pipe where
  "pipe_init = \<lparr>data = replicate PIPESIZE 0, nread = 0, nwrite = 0, readopen = True, writeopen = True\<rparr>"

definition pipe_put :: "u8 \<Rightarrow> pipe \<Rightarrow> pipe" where
  "pipe_put ch pi = pi\<lparr>data := (data pi)[unat (nwrite pi) mod PIPESIZE := ch], nwrite := nwrite pi + 1\<rparr>"

definition pipe_get :: "pipe \<Rightarrow> u8 \<times> pipe" where
  "pipe_get pi = (data pi ! (unat (nread pi) mod PIPESIZE), pi\<lparr>nread := nread pi + 1\<rparr>)"

definition pipe_full :: "pipe \<Rightarrow> bool" where
  "pipe_full pi \<longleftrightarrow> nwrite pi = nread pi + of_nat PIPESIZE"

definition pipe_empty :: "pipe \<Rightarrow> bool" where
  "pipe_empty pi \<longleftrightarrow> nread pi = nwrite pi"

section \<open>Operations\<close>

text \<open>\<open>pipewrite_loop k i\<close>: \<open>k\<close> bytes are left and \<open>i\<close> are written.\<close>

primrec pipewrite_loop ::
  "nat \<Rightarrow> nat \<Rightarrow> bool \<Rightarrow> u64 \<Rightarrow> bool \<Rightarrow> u64 \<Rightarrow> kstate \<Rightarrow> pipe \<Rightarrow> (progress \<times> pipe \<times> chan list) res" where
  "pipewrite_loop 0 i user addr killed pt s pi = Ret (Done (int i), pi, [NRead])"
| "pipewrite_loop (Suc k) i user addr killed pt s pi =
     (if pipe_full pi
      then if \<not> readopen pi \<or> killed then Ret (Done (-1), pi, [])
           else Ret (Sleep i, pi, [NRead])
      else bind_res (either_copyin pt user (addr + of_nat i) 1 s) (\<lambda>(r, ch).
        if r = -1 then Ret (Done (int i), pi, [NRead])
        else pipewrite_loop k (i + 1) user addr killed pt s (pipe_put (hd ch) pi)))"

definition pipewrite ::
  "nat \<Rightarrow> bool \<Rightarrow> u64 \<Rightarrow> int \<Rightarrow> bool \<Rightarrow> u64 \<Rightarrow> kstate \<Rightarrow> pipe \<Rightarrow> (progress \<times> pipe \<times> chan list) res" where
  "pipewrite i user addr n killed pt s pi = pipewrite_loop (nat n - i) i user addr killed pt s pi"

text \<open>\<^verbatim>\<open>piperead\<close> copies out of a byte on its kernel stack, whose address is \<open>ksp\<close>.\<close>

primrec piperead_loop ::
  "nat \<Rightarrow> nat \<Rightarrow> bool \<Rightarrow> u64 \<Rightarrow> u64 \<Rightarrow> u64 \<Rightarrow> kstate \<Rightarrow> pipe \<Rightarrow> (int \<times> kstate \<times> pipe) res" where
  "piperead_loop 0 i user addr ksp pt s pi = Ret (int i, s, pi)"
| "piperead_loop (Suc k) i user addr ksp pt s pi =
     (if pipe_empty pi then Ret (int i, s, pi)
      else case pipe_get pi of (ch, pi1) \<Rightarrow>
        bind_res (either_copyout pt user (addr + of_nat i) ksp [ch] 1 s) (\<lambda>(r, s1).
          if r = -1 then Ret (int i, s1, pi1)
          else piperead_loop k (i + 1) user addr ksp pt s1 pi1))"

definition piperead ::
  "bool \<Rightarrow> u64 \<Rightarrow> int \<Rightarrow> bool \<Rightarrow> u64 \<Rightarrow> u64 \<Rightarrow> kstate \<Rightarrow> pipe \<Rightarrow> (progress \<times> kstate \<times> pipe \<times> chan list) res" where
  "piperead user addr n killed ksp pt s pi =
     (if pipe_empty pi \<and> writeopen pi
      then if killed then Ret (Done (-1), s, pi, []) else Ret (Sleep 0, s, pi, [])
      else bind_res (piperead_loop (nat n) 0 user addr ksp pt s pi) (\<lambda>(r, s1, pi1).
        Ret (Done r, s1, pi1, [NWrite])))"

text \<open>The second component says whether the page of the pipe is freed.\<close>

definition pipeclose :: "bool \<Rightarrow> pipe \<Rightarrow> pipe \<times> bool \<times> chan list" where
  "pipeclose writable pi =
     (let pi1 = (if writable then pi\<lparr>writeopen := False\<rparr> else pi\<lparr>readopen := False\<rparr>)
      in (pi1, \<not> readopen pi1 \<and> \<not> writeopen pi1, if writable then [NRead] else [NWrite]))"

section \<open>The bytes in a pipe\<close>

definition pipe_bytes :: "pipe \<Rightarrow> u8 list" where
  "pipe_bytes pi = ring_seq (data pi) (unat (nread pi)) (unat (nwrite pi - nread pi))"

definition pipe_wf :: "pipe \<Rightarrow> bool" where
  "pipe_wf pi \<longleftrightarrow> length (data pi) = PIPESIZE \<and> unat (nwrite pi - nread pi) \<le> PIPESIZE"

lemma pipe_full_iff: "pipe_wf pi \<Longrightarrow> pipe_full pi \<longleftrightarrow> length (pipe_bytes pi) = PIPESIZE"
proof -
  have "pipe_full pi \<longleftrightarrow> nwrite pi - nread pi = 512"
    by (auto simp: pipe_full_def algebra_simps)
  then show ?thesis by (simp add: pipe_bytes_def word_unat_eq_iff)
qed

lemma pipe_empty_iff: "pipe_empty pi \<longleftrightarrow> pipe_bytes pi = []"
proof -
  have "pipe_empty pi \<longleftrightarrow> nwrite pi - nread pi = 0" by (auto simp: pipe_empty_def)
  then show ?thesis by (simp add: pipe_bytes_def word_unat_eq_iff ring_seq_def)
qed

lemma counter_index:
  "unat (nwrite pi) mod 512 = (unat (nread pi) + unat (nwrite pi - nread pi)) mod 512"
proof -
  have "(512 :: nat) dvd 2 ^ LENGTH(32)" by simp
  from counter_add [OF this, of "nread pi" "nwrite pi - nread pi"] show ?thesis by simp
qed

lemma ring_seq_unat_mod:
  assumes "length buf = 512" and "unat r mod 512 = k mod 512"
  shows "ring_seq buf (unat r) n = ring_seq buf k n"
  using assms ring_seq_mod [of 512 buf "unat r" n] ring_seq_mod [of 512 buf k n] by simp

interpretation pf: byte_fifo pipe_put pipe_get pipe_bytes PIPESIZE pipe_wf
proof
  fix pi :: pipe and x :: u8 and xs
  assume wf: "pipe_wf pi"
  show "pipe_wf (pipe_put x pi) \<and> pipe_bytes (pipe_put x pi) = pipe_bytes pi @ [x]"
    if "length (pipe_bytes pi) < PIPESIZE"
  proof -
    have n: "unat (nwrite pi - nread pi) < 512" using that by (simp add: pipe_bytes_def)
    have "nwrite pi + 1 - nread pi = (nwrite pi - nread pi) + 1" by simp
    then have u: "unat (nwrite pi + 1 - nread pi) = Suc (unat (nwrite pi - nread pi))"
      using n by (simp only: unat_word_ariths) simp
    have "ring_seq ((data pi)[unat (nwrite pi) mod 512 := x]) (unat (nread pi))
        (Suc (unat (nwrite pi - nread pi))) = pipe_bytes pi @ [x]"
      unfolding counter_index
      using ring_put [of "unat (nwrite pi - nread pi)" "data pi" "unat (nread pi)" x] n wf
      by (simp add: pipe_wf_def pipe_bytes_def)
    then show ?thesis using n wf u
      by (simp add: pipe_wf_def pipe_put_def pipe_bytes_def)
  qed
  show "fst (pipe_get pi) = x \<and> pipe_wf (snd (pipe_get pi)) \<and> pipe_bytes (snd (pipe_get pi)) = xs"
    if c: "pipe_bytes pi = x # xs"
  proof -
    obtain k where k: "unat (nwrite pi - nread pi) = Suc k"
      using c by (cases "unat (nwrite pi - nread pi)") (auto simp: pipe_bytes_def)
    have "nwrite pi - nread pi \<noteq> 0" using k by (metis nat.distinct(1) unsigned_0)
    from unat_minus_one [OF this] have u: "unat (nwrite pi - (nread pi + 1)) = k"
      using k by (simp add: diff_diff_eq)
    have "x = data pi ! (unat (nread pi) mod 512)" "xs = ring_seq (data pi) (Suc (unat (nread pi))) k"
      using c ring_get [of "data pi" "unat (nread pi)" k] wf k by (auto simp: pipe_bytes_def pipe_wf_def)
    moreover have "ring_seq (data pi) (unat (nread pi + 1)) k = ring_seq (data pi) (Suc (unat (nread pi))) k"
      using wf counter_step [of 512 "nread pi"] by (intro ring_seq_unat_mod) (auto simp: pipe_wf_def)
    ultimately show ?thesis using wf k u by (simp add: pipe_get_def pipe_wf_def pipe_bytes_def)
  qed
  show "length (pipe_bytes pi) \<le> PIPESIZE" using wf by (simp add: pipe_wf_def pipe_bytes_def)
qed


section \<open>What the operations do to the bytes\<close>

lemma pipewrite_loop_bytes:
  "pipewrite_loop k i user addr killed pt s pi = Ret (r, pi', ws) \<Longrightarrow> pipe_wf pi \<Longrightarrow>
     \<exists>new. pipe_wf pi' \<and> pipe_bytes pi' = pipe_bytes pi @ new \<and> length new \<le> k
       \<and> readopen pi' = readopen pi \<and> writeopen pi' = writeopen pi
       \<and> (\<forall>j < length new. \<exists>st ch. either_copyin pt user (addr + of_nat (i + j)) 1 s = Ret (st, ch) \<and> new ! j = hd ch)
       \<and> (r = Done (int (i + length new)) \<and> ws = [NRead]
          \<or> r = Done (-1) \<and> ws = [] \<and> pipe_full pi' \<and> (\<not> readopen pi \<or> killed)
          \<or> r = Sleep (i + length new) \<and> ws = [NRead] \<and> pipe_full pi' \<and> readopen pi' \<and> length new < k)"
proof (induction k arbitrary: i pi)
  case (Suc k)
  show ?case
  proof (cases "pipe_full pi")
    case True
    then show ?thesis using Suc.prems by (intro exI [of _ "[]"]) (auto split: if_splits)
  next
    case False
    with Suc.prems(1) obtain st ch where ch: "either_copyin pt user (addr + of_nat i) 1 s = Ret (st, ch)"
      and rest: "(if st = -1 then Ret (Done (int i), pi, [NRead])
        else pipewrite_loop k (i + 1) user addr killed pt s (pipe_put (hd ch) pi)) = Ret (r, pi', ws)"
      by (auto simp: bind_res_Ret_iff)
    show ?thesis
    proof (cases "st = -1")
      case True
      then show ?thesis using rest Suc.prems(2) by (intro exI [of _ "[]"]) auto
    next
      case st: False
      have room: "length (pipe_bytes pi) < PIPESIZE"
        using False pipe_full_iff [OF Suc.prems(2)] pf.contents_bound [OF Suc.prems(2)] by linarith
      note pc = pf.put_contents [OF Suc.prems(2) room, of "hd ch"]
      have fl: "readopen (pipe_put (hd ch) pi) = readopen pi" "writeopen (pipe_put (hd ch) pi) = writeopen pi"
        by (simp_all add: pipe_put_def)
      from Suc.IH [of "i + 1" "pipe_put (hd ch) pi"] rest st pc fl obtain new where new:
        "pipe_wf pi'" "pipe_bytes pi' = (pipe_bytes pi @ [hd ch]) @ new" "length new \<le> k"
        "readopen pi' = readopen pi" "writeopen pi' = writeopen pi"
        "\<forall>j < length new. \<exists>st ch. either_copyin pt user (addr + of_nat (i + 1 + j)) 1 s = Ret (st, ch) \<and> new ! j = hd ch"
        "r = Done (int (i + 1 + length new)) \<and> ws = [NRead]
          \<or> r = Done (-1) \<and> ws = [] \<and> pipe_full pi' \<and> (\<not> readopen pi \<or> killed)
          \<or> r = Sleep (i + 1 + length new) \<and> ws = [NRead] \<and> pipe_full pi' \<and> readopen pi' \<and> length new < k"
        by auto
      have "\<exists>st ch'. either_copyin pt user (addr + of_nat (i + j)) 1 s = Ret (st, ch') \<and> (hd ch # new) ! j = hd ch'"
        if "j < length (hd ch # new)" for j
        using that new(6) ch by (cases j) (auto simp: algebra_simps)
      then show ?thesis using new by (intro exI [of _ "hd ch # new"]) auto
    qed
  qed
qed (auto intro: exI [of _ "[]"])

lemma piperead_loop_bytes:
  "piperead_loop k i user addr ksp pt s pi = Ret (r, s', pi') \<Longrightarrow> pipe_wf pi \<Longrightarrow>
     \<exists>m \<le> min k (length (pipe_bytes pi)). pipe_wf pi' \<and> pipe_bytes pi' = drop m (pipe_bytes pi)
       \<and> readopen pi' = readopen pi \<and> writeopen pi' = writeopen pi
       \<and> (r = int (i + m) \<or> 0 < m \<and> r = int (i + m - 1))"
proof (induction k arbitrary: i pi s)
  case (Suc k)
  show ?case
  proof (cases "pipe_empty pi")
    case True
    then show ?thesis using Suc.prems by (intro exI [of _ 0]) auto
  next
    case False
    then obtain x xs where c: "pipe_bytes pi = x # xs" by (cases "pipe_bytes pi") (auto simp: pipe_empty_iff)
    obtain ch pi1 where g: "pipe_get pi = (ch, pi1)" by (cases "pipe_get pi")
    note gc = pf.get_contents [OF Suc.prems(2) c, unfolded g, simplified]
    have fl: "readopen pi1 = readopen pi" "writeopen pi1 = writeopen pi" using g by (auto simp: pipe_get_def)
    from Suc.prems(1) False g obtain st s1 where
      "either_copyout pt user (addr + of_nat i) ksp [ch] 1 s = Ret (st, s1)"
      and rest: "(if st = -1 then Ret (int i, s1, pi1)
        else piperead_loop k (i + 1) user addr ksp pt s1 pi1) = Ret (r, s', pi')"
      by (auto simp: bind_res_Ret_iff)
    show ?thesis
    proof (cases "st = -1")
      case True
      then show ?thesis using rest gc fl c by (intro exI [of _ 1]) auto
    next
      case st: False
      with Suc.IH [of "i + 1" s1 pi1] rest gc obtain m where
        "m \<le> min k (length xs)" "pipe_wf pi'" "pipe_bytes pi' = drop m xs"
        "readopen pi' = readopen pi1" "writeopen pi' = writeopen pi1"
        "r = int (i + 1 + m) \<or> 0 < m \<and> r = int (i + 1 + m - 1)" by auto
      then show ?thesis using c fl by (intro exI [of _ "Suc m"]) auto
    qed
  qed
qed (auto intro: exI [of _ 0])


section \<open>Processes sharing a pipe\<close>

text \<open>The pipe with the bytes written to and read from it so far, the sleeping readers and writers,
  and whether a write was aborted.\<close>

record psys =
  pp :: pipe
  sent :: "u8 list"
  recv :: "u8 list"
  rsleep :: "nat set"
  wsleep :: "nat set"
  aborted :: bool

definition wake :: "chan list \<Rightarrow> psys \<Rightarrow> psys" where
  "wake ws \<sigma> = \<sigma>\<lparr>rsleep := (if NRead \<in> set ws then {} else rsleep \<sigma>),
                 wsleep := (if NWrite \<in> set ws then {} else wsleep \<sigma>)\<rparr>"

definition after_write :: "nat \<Rightarrow> progress \<Rightarrow> pipe \<Rightarrow> chan list \<Rightarrow> psys \<Rightarrow> psys" where
  "after_write p r pi' ws \<sigma> =
     (let \<sigma>1 = wake ws \<sigma> in
      \<sigma>1\<lparr>pp := pi', sent := sent \<sigma> @ drop (length (pipe_bytes (pp \<sigma>))) (pipe_bytes pi'),
         wsleep := (case r of Sleep _ \<Rightarrow> insert p (wsleep \<sigma>1) | Done _ \<Rightarrow> wsleep \<sigma>1),
         aborted := aborted \<sigma> \<or> r = Done (-1)\<rparr>)"

definition after_read :: "nat \<Rightarrow> progress \<Rightarrow> pipe \<Rightarrow> chan list \<Rightarrow> psys \<Rightarrow> psys" where
  "after_read p r pi' ws \<sigma> =
     (let \<sigma>1 = wake ws \<sigma> in
      \<sigma>1\<lparr>pp := pi',
         recv := recv \<sigma> @ take (length (pipe_bytes (pp \<sigma>)) - length (pipe_bytes pi')) (pipe_bytes (pp \<sigma>)),
         rsleep := (case r of Sleep _ \<Rightarrow> insert p (rsleep \<sigma>1) | Done _ \<Rightarrow> rsleep \<sigma>1)\<rparr>)"

text \<open>One atomic section of some process: a call of \<^verbatim>\<open>pipewrite\<close> or \<^verbatim>\<open>piperead\<close>, or the rest of one that
  slept, up to its return or next sleep; a close of one end; a sleeping process that is woken for another reason.\<close>

inductive pipe_step :: "psys \<Rightarrow> psys \<Rightarrow> bool" where
  pwrite: "p \<notin> wsleep \<sigma> \<Longrightarrow> pipewrite i user addr n killed pt s (pp \<sigma>) = Ret (r, pi', ws) \<Longrightarrow>
    pipe_step \<sigma> (after_write p r pi' ws \<sigma>)"
| pread: "p \<notin> rsleep \<sigma> \<Longrightarrow> piperead user addr n killed ksp pt s (pp \<sigma>) = Ret (r, s', pi', ws) \<Longrightarrow>
    pipe_step \<sigma> (after_read p r pi' ws \<sigma>)"
| pclose: "pipeclose w (pp \<sigma>) = (pi', freed, ws) \<Longrightarrow> pipe_step \<sigma> ((wake ws \<sigma>)\<lparr>pp := pi'\<rparr>)"
| pkill: "pipe_step \<sigma> (\<sigma>\<lparr>rsleep := rsleep \<sigma> - {p}, wsleep := wsleep \<sigma> - {p}\<rparr>)"

definition psys_init :: psys where
  "psys_init = \<lparr>pp = pipe_init, sent = [], recv = [], rsleep = {}, wsleep = {}, aborted = False\<rparr>"

definition psys_inv :: "psys \<Rightarrow> bool" where
  "psys_inv \<sigma> \<longleftrightarrow> pipe_wf (pp \<sigma>) \<and> sent \<sigma> = recv \<sigma> @ pipe_bytes (pp \<sigma>)
     \<and> (wsleep \<sigma> \<noteq> {} \<longrightarrow> pipe_full (pp \<sigma>) \<and> readopen (pp \<sigma>))
     \<and> (rsleep \<sigma> \<noteq> {} \<longrightarrow> aborted \<sigma> \<or> pipe_empty (pp \<sigma>) \<and> writeopen (pp \<sigma>))"

lemma pipe_flags [simp]:
  "pipe_wf (pi\<lparr>writeopen := b\<rparr>) = pipe_wf pi" "pipe_wf (pi\<lparr>readopen := b\<rparr>) = pipe_wf pi"
  "pipe_bytes (pi\<lparr>writeopen := b\<rparr>) = pipe_bytes pi" "pipe_bytes (pi\<lparr>readopen := b\<rparr>) = pipe_bytes pi"
  "pipe_full (pi\<lparr>writeopen := b\<rparr>) = pipe_full pi" "pipe_full (pi\<lparr>readopen := b\<rparr>) = pipe_full pi"
  "pipe_empty (pi\<lparr>writeopen := b\<rparr>) = pipe_empty pi" "pipe_empty (pi\<lparr>readopen := b\<rparr>) = pipe_empty pi"
  by (simp_all add: pipe_wf_def pipe_bytes_def pipe_full_def pipe_empty_def)

lemma psys_inv_init: "psys_inv psys_init"
  by (simp add: psys_inv_def psys_init_def pipe_init_def pipe_wf_def pipe_bytes_def)

lemma write_inv:
  assumes I: "psys_inv \<sigma>" and w: "pipewrite i user addr n killed pt s (pp \<sigma>) = Ret (r, pi', ws)"
  shows "psys_inv (after_write p r pi' ws \<sigma>)"
proof -
  have wf: "pipe_wf (pp \<sigma>)" using I by (simp add: psys_inv_def)
  from pipewrite_loop_bytes [OF w [unfolded pipewrite_def] wf] obtain new where new: "pipe_wf pi'"
    "pipe_bytes pi' = pipe_bytes (pp \<sigma>) @ new" "readopen pi' = readopen (pp \<sigma>)" "writeopen pi' = writeopen (pp \<sigma>)"
    "r = Done (int (i + length new)) \<and> ws = [NRead] \<or> r = Done (-1) \<and> ws = [] \<and> pipe_full pi'
      \<or> r = Sleep (i + length new) \<and> ws = [NRead] \<and> pipe_full pi' \<and> readopen pi'" by blast
  have full: "wsleep \<sigma> \<noteq> {} \<longrightarrow> pipe_full pi' \<and> readopen pi'"
  proof
    assume that: "wsleep \<sigma> \<noteq> {}"
    have "length (pipe_bytes (pp \<sigma>)) = PIPESIZE" "readopen (pp \<sigma>)"
      using that I pipe_full_iff [OF wf] by (auto simp: psys_inv_def)
    moreover have "length (pipe_bytes pi') \<le> PIPESIZE" by (rule pf.contents_bound [OF new(1)])
    ultimately show "pipe_full pi' \<and> readopen pi'" using pipe_full_iff [OF new(1)] new(2,3) by simp
  qed
  have log: "sent \<sigma> @ drop (length (pipe_bytes (pp \<sigma>))) (pipe_bytes pi') = recv \<sigma> @ pipe_bytes pi'"
    using I new(2) by (simp add: psys_inv_def)
  from new(5) show ?thesis
    using new(1) full log by (auto simp: psys_inv_def after_write_def wake_def Let_def)
qed

lemma read_inv:
  assumes I: "psys_inv \<sigma>" and r: "piperead user addr n killed ksp pt s (pp \<sigma>) = Ret (r, s', pi', ws)"
  shows "psys_inv (after_read p r pi' ws \<sigma>)"
proof (cases "pipe_empty (pp \<sigma>) \<and> writeopen (pp \<sigma>)")
  case True
  then have "pi' = pp \<sigma>" "ws = []" "r = Done (-1) \<or> r = Sleep 0"
    using r by (auto simp: piperead_def split: if_splits)
  then show ?thesis using I True by (auto simp: psys_inv_def after_read_def wake_def Let_def)
next
  case False
  have wf: "pipe_wf (pp \<sigma>)" using I by (simp add: psys_inv_def)
  from r False obtain v where l: "piperead_loop (nat n) 0 user addr ksp pt s (pp \<sigma>) = Ret (v, s', pi')"
    and rv: "r = Done v" "ws = [NWrite]" by (auto simp: piperead_def bind_res_Ret_iff split: if_splits)
  from piperead_loop_bytes [OF l wf] obtain m where m: "m \<le> length (pipe_bytes (pp \<sigma>))" "pipe_wf pi'"
    "pipe_bytes pi' = drop m (pipe_bytes (pp \<sigma>))" "readopen pi' = readopen (pp \<sigma>)" "writeopen pi' = writeopen (pp \<sigma>)"
    by auto
  have "rsleep \<sigma> \<noteq> {} \<Longrightarrow> aborted \<sigma>" using I False by (auto simp: psys_inv_def)
  moreover have "sent \<sigma> = (recv \<sigma> @ take m (pipe_bytes (pp \<sigma>))) @ pipe_bytes pi'"
    using I m(3) by (simp add: psys_inv_def)
  ultimately show ?thesis
    using m rv by (auto simp: psys_inv_def after_read_def wake_def Let_def)
qed

lemma close_inv:
  assumes I: "psys_inv \<sigma>" and c: "pipeclose w (pp \<sigma>) = (pi', freed, ws)"
  shows "psys_inv ((wake ws \<sigma>)\<lparr>pp := pi'\<rparr>)"
proof -
  have "pi' = (if w then (pp \<sigma>)\<lparr>writeopen := False\<rparr> else (pp \<sigma>)\<lparr>readopen := False\<rparr>)"
    "ws = (if w then [NRead] else [NWrite])"
    using c by (auto simp: pipeclose_def Let_def)
  then show ?thesis using I by (auto simp: psys_inv_def wake_def)
qed

lemma pipe_step_inv: "pipe_step \<sigma> \<sigma>' \<Longrightarrow> psys_inv \<sigma> \<Longrightarrow> psys_inv \<sigma>'"
proof (induction rule: pipe_step.induct)
  case (pkill \<sigma> p)
  then show ?case by (auto simp: psys_inv_def)
qed (auto intro: write_inv read_inv close_inv)

lemma pipe_run_inv: "pipe_step\<^sup>*\<^sup>* \<sigma> \<sigma>' \<Longrightarrow> psys_inv \<sigma> \<Longrightarrow> psys_inv \<sigma>'"
  by (induction rule: rtranclp_induct) (auto intro: pipe_step_inv)

section \<open>Properties\<close>


definition zero_state :: kstate where
  "zero_state = \<lparr>mem = (\<lambda>_. 0), freelist = 0, npage = 0, kernel_end = 0\<rparr>"


text \<open>(C17) No wakeup is lost: a process sleeping in \<^verbatim>\<open>pipewrite\<close> sleeps on a full pipe that can be read,
  and as long as no write was aborted a process sleeping in \<^verbatim>\<open>piperead\<close> sleeps on an empty pipe
  that can be written.\<close>

theorem pipe_no_lost_wakeup:
  assumes "pipe_step\<^sup>*\<^sup>* psys_init \<sigma>"
  shows "(wsleep \<sigma> \<noteq> {} \<longrightarrow> pipe_full (pp \<sigma>) \<and> readopen (pp \<sigma>))
    \<and> (rsleep \<sigma> \<noteq> {} \<and> \<not> aborted \<sigma> \<longrightarrow> pipe_empty (pp \<sigma>) \<and> writeopen (pp \<sigma>))"
  using pipe_run_inv [OF assms psys_inv_init] by (auto simp: psys_inv_def)


theorem pipe_no_lost_wakeup_witness:
  "pipe_step\<^sup>*\<^sup>* psys_init (after_read 1 (Sleep 0) pipe_init [] psys_init)
    \<and> rsleep (after_read 1 (Sleep 0) pipe_init [] psys_init) = {1}
    \<and> pipe_empty (pp (after_read 1 (Sleep 0) pipe_init [] psys_init))"
proof -
  let ?t = "after_read 1 (Sleep 0) pipe_init [] psys_init"
  have "piperead False 0 1 False 0 0 zero_state (pp psys_init) = Ret (Sleep 0, zero_state, pipe_init, [])"
    by (simp add: piperead_def psys_init_def pipe_empty_def pipe_init_def)
  then have run: "pipe_step\<^sup>*\<^sup>* psys_init ?t"
    by (intro r_into_rtranclp pipe_step.pread [of 1]) (auto simp: psys_init_def)
  have "rsleep ?t = {1}" "\<not> aborted ?t" by (simp_all add: after_read_def wake_def psys_init_def Let_def)
  with pipe_no_lost_wakeup [OF run] run show ?thesis by auto
qed

end
