(* ===== verification/Console.thy ===== *)
theory Console
  imports Ring Vm
begin

text \<open>
  \<^verbatim>\<open>kernel/console.c\<close> and the transmit buffer of \<^verbatim>\<open>kernel/uart.c\<close>. The console keeps one ring of
  input bytes with three free running indices; the bytes from \<^verbatim>\<open>r\<close> to \<^verbatim>\<open>w\<close> are whole lines ready to
  be read, those from \<^verbatim>\<open>w\<close> to \<^verbatim>\<open>e\<close> are the line being edited. The echo is the list of bytes
  sent to the serial line. Reads of the device's line status register are a list of answers.
\<close>

section \<open>The console\<close>

definition INPUT_BUF :: nat where [simp]: "INPUT_BUF = 128"

record cons =
  cbuf :: "u8 list"
  cr :: u32
  cw :: u32
  ce :: u32

text \<open>The bytes \<^verbatim>\<open>consputc(BACKSPACE)\<close> sends.\<close>

definition BACKSPACE :: "u8 list" where "BACKSPACE = [8, 32, 8]"

function kill_line :: "cons \<Rightarrow> cons \<times> u8 list" where
  "kill_line c =
     (if ce c \<noteq> cw c \<and> cbuf c ! (unat (ce c - 1) mod INPUT_BUF) \<noteq> 10
      then case kill_line (c\<lparr>ce := ce c - 1\<rparr>) of (c', out) \<Rightarrow> (c', BACKSPACE @ out)
      else (c, []))"
  by pat_completeness auto
termination
proof (relation "measure (\<lambda>c. unat (ce c - cw c))")
  fix c assume "ce c \<noteq> cw c \<and> cbuf c ! (unat (ce c - 1) mod INPUT_BUF) \<noteq> 10"
  then have "ce c - cw c \<noteq> 0" by simp
  from unat_minus_one [OF this] have "unat (ce c - 1 - cw c) = unat (ce c - cw c) - 1"
    by (simp add: diff_right_commute)
  moreover have "0 < unat (ce c - cw c)" using \<open>ce c - cw c \<noteq> 0\<close> by (simp add: unat_gt_0 word_gt_0)
  ultimately show "(c\<lparr>ce := ce c - 1\<rparr>, c) \<in> measure (\<lambda>c. unat (ce c - cw c))" by simp
qed simp

declare kill_line.simps [simp del]

text \<open>The interrupt handler for one input byte: the new state, the echo, and whether readers are
  woken. \<^verbatim>\<open>procdump\<close> only prints.\<close>

definition consoleintr :: "u8 \<Rightarrow> cons \<Rightarrow> cons \<times> u8 list \<times> bool" where
  "consoleintr c st =
     (if c = 16 then (st, [], False)
      else if c = 21 then (case kill_line st of (st', out) \<Rightarrow> (st', out, False))
      else if c = 8 \<or> c = 127
      then if ce st \<noteq> cw st then (st\<lparr>ce := ce st - 1\<rparr>, BACKSPACE, False) else (st, [], False)
      else if c \<noteq> 0 \<and> ce st - cr st < of_nat INPUT_BUF
      then let c = (if c = 13 then 10 else c);
               st1 = st\<lparr>cbuf := (cbuf st)[unat (ce st) mod INPUT_BUF := c], ce := ce st + 1\<rparr>
           in if c = 10 \<or> c = 4 \<or> ce st1 = cr st1 + of_nat INPUT_BUF
              then (st1\<lparr>cw := ce st1\<rparr>, [c], True) else (st1, [c], False)
      else (st, [], False))"

text \<open>A read that has to wait resumes with the bytes that are left and the next destination.\<close>

datatype cprogress = CDone int | CSleep nat u64

primrec consoleread_loop ::
  "nat \<Rightarrow> nat \<Rightarrow> bool \<Rightarrow> u64 \<Rightarrow> bool \<Rightarrow> u64 \<Rightarrow> u64 \<Rightarrow> kstate \<Rightarrow> cons \<Rightarrow> (cprogress \<times> kstate \<times> cons) res" where
  "consoleread_loop 0 target user_dst dst killed ksp pt s st = Ret (CDone (int target), s, st)"
| "consoleread_loop (Suc n) target user_dst dst killed ksp pt s st =
     (if cr st = cw st
      then if killed then Ret (CDone (-1), s, st) else Ret (CSleep (Suc n) dst, s, st)
      else let c = cbuf st ! (unat (cr st) mod INPUT_BUF); st1 = st\<lparr>cr := cr st + 1\<rparr> in
        if c = 4
        then Ret (CDone (int target - int (Suc n)), s,
                  if Suc n < target then st1\<lparr>cr := cr st1 - 1\<rparr> else st1)
        else bind_res (either_copyout pt user_dst dst ksp [c] 1 s) (\<lambda>(r, s1).
          if r = -1 then Ret (CDone (int target - int (Suc n)), s1, st1)
          else if c = 10 then Ret (CDone (int target - int n), s1, st1)
          else consoleread_loop n target user_dst (dst + 1) killed ksp pt s1 st1))"

definition consoleread ::
  "bool \<Rightarrow> u64 \<Rightarrow> int \<Rightarrow> bool \<Rightarrow> u64 \<Rightarrow> u64 \<Rightarrow> kstate \<Rightarrow> cons \<Rightarrow> (cprogress \<times> kstate \<times> cons) res" where
  "consoleread user_dst dst n killed ksp pt s st =
     consoleread_loop (nat n) (nat n) user_dst dst killed ksp pt s st"

primrec consolewrite_loop ::
  "nat \<Rightarrow> nat \<Rightarrow> bool \<Rightarrow> u64 \<Rightarrow> u64 \<Rightarrow> kstate \<Rightarrow> u8 list \<Rightarrow> (int \<times> u8 list) res" where
  "consolewrite_loop 0 i user_src src pt s out = Ret (int i, out)"
| "consolewrite_loop (Suc k) i user_src src pt s out =
     bind_res (either_copyin pt user_src (src + of_nat i) 1 s) (\<lambda>(r, c).
       if r = -1 then Ret (int i, out)
       else consolewrite_loop k (i + 1) user_src src pt s (out @ [hd c]))"

definition consolewrite :: "bool \<Rightarrow> u64 \<Rightarrow> int \<Rightarrow> u64 \<Rightarrow> kstate \<Rightarrow> (int \<times> u8 list) res" where
  "consolewrite user_src src n pt s = consolewrite_loop (nat n) 0 user_src src pt s []"

section \<open>The serial line\<close>

definition UART_TX_BUF_SIZE :: nat where [simp]: "UART_TX_BUF_SIZE = 32"

record uart =
  tx_buf :: "u8 list"
  tx_w :: u64
  tx_r :: u64

definition uart_put :: "u8 \<Rightarrow> uart \<Rightarrow> uart" where
  "uart_put c u = u\<lparr>tx_buf := (tx_buf u)[unat (tx_w u) mod UART_TX_BUF_SIZE := c], tx_w := tx_w u + 1\<rparr>"

definition uart_get :: "uart \<Rightarrow> u8 \<times> uart" where
  "uart_get u = (tx_buf u ! (unat (tx_r u) mod UART_TX_BUF_SIZE), u\<lparr>tx_r := tx_r u + 1\<rparr>)"

text \<open>\<open>uartstart idle u\<close>: \<open>idle\<close> are the successive answers of the line status register, with the
  holding register busy when the list ends. The first result is the list of bytes sent.\<close>

primrec uartstart :: "bool list \<Rightarrow> uart \<Rightarrow> u8 list \<times> uart" where
  "uartstart [] u = ([], u)"
| "uartstart (b # bs) u =
     (if tx_w u = tx_r u then ([], u)
      else if \<not> b then ([], u)
      else case uart_get u of (c, u1) \<Rightarrow> case uartstart bs u1 of (out, u2) \<Rightarrow> (c # out, u2))"

text \<open>\<open>None\<close>: the buffer is full and the caller sleeps.\<close>

definition uartputc :: "u8 \<Rightarrow> bool list \<Rightarrow> uart \<Rightarrow> (u8 list \<times> uart) option" where
  "uartputc c idle u =
     (if tx_w u = tx_r u + of_nat UART_TX_BUF_SIZE then None else Some (uartstart idle (uart_put c u)))"

text \<open>The interrupt handler: the bytes that have arrived go to the console, then the transmit buffer is
  served.\<close>

primrec uartintr_input :: "u8 list \<Rightarrow> cons \<Rightarrow> cons \<times> u8 list" where
  "uartintr_input [] st = (st, [])"
| "uartintr_input (c # cs) st =
     (case consoleintr c st of (st1, out, _) \<Rightarrow>
        case uartintr_input cs st1 of (st2, out') \<Rightarrow> (st2, out @ out'))"

definition uartintr :: "u8 list \<Rightarrow> bool list \<Rightarrow> cons \<Rightarrow> uart \<Rightarrow> cons \<times> uart \<times> u8 list" where
  "uartintr input idle st u =
     (case uartintr_input input st of (st', echo) \<Rightarrow>
        case uartstart idle u of (out, u') \<Rightarrow> (st', u', echo @ out))"


section \<open>The console as a line editor\<close>

definition ready_bytes :: "cons \<Rightarrow> u8 list" where
  "ready_bytes st = ring_between (cbuf st) (cr st) (cw st)"

definition edit_bytes :: "cons \<Rightarrow> u8 list" where
  "edit_bytes st = ring_between (cbuf st) (cw st) (ce st)"

definition cons_wf :: "cons \<Rightarrow> bool" where
  "cons_wf st \<longleftrightarrow> length (cbuf st) = INPUT_BUF \<and> unat (cw st - cr st) + unat (ce st - cw st) \<le> INPUT_BUF"

text \<open>The specification: a pair of the bytes ready to be read and the line being edited.\<close>

definition editor :: "u8 \<Rightarrow> u8 list \<times> u8 list \<Rightarrow> u8 list \<times> u8 list" where
  "editor c ed = (case ed of (ready, line) \<Rightarrow>
     if c = 16 then ed
     else if c = 21 then (ready, rev (dropWhile (\<lambda>b. b \<noteq> 10) (rev line)))
     else if c = 8 \<or> c = 127 then (ready, butlast line)
     else if c \<noteq> 0 \<and> length ready + length line < INPUT_BUF
     then let c = (if c = 13 then 10 else c) in
       if c = 10 \<or> c = 4 \<or> length ready + length line + 1 = INPUT_BUF
       then (ready @ line @ [c], []) else (ready, line @ [c])
     else ed)"

lemma dvd_128: "length buf = INPUT_BUF \<Longrightarrow> length buf dvd 2 ^ LENGTH(32)"
  by simp

lemma cons_edit_index:
  "cons_wf st \<Longrightarrow> unat (ce st - cr st) = unat (cw st - cr st) + unat (ce st - cw st)"
proof -
  assume wf: "cons_wf st"
  have "ce st - cr st = (cw st - cr st) + (ce st - cw st)" by simp
  moreover have "unat (cw st - cr st) + unat (ce st - cw st) < 2 ^ 32" using wf by (simp add: cons_wf_def)
  ultimately show ?thesis by (simp only: unat_word_ariths) simp
qed

lemma ring_between_snoc:
  fixes r w :: "'a::len word"
  assumes N: "length buf dvd 2 ^ LENGTH('a)" and "w \<noteq> r" and n: "unat (w - r) \<le> length buf" "length buf < 2 ^ LENGTH('a)"
  shows "ring_between buf r w = ring_between buf r (w - 1) @ [buf ! (unat (w - 1) mod length buf)]"
proof -
  have "w - r \<noteq> 0" using assms(2) by simp
  from unat_minus_one [OF this] have u: "unat (w - 1 - r) = unat (w - r) - 1" by (simp add: diff_right_commute)
  moreover have "0 < unat (w - r)" using \<open>w - r \<noteq> 0\<close> by (simp add: unat_gt_0 word_gt_0)
  ultimately have lt: "unat (w - 1 - r) < length buf" using n(1) by simp
  from ring_between_put [OF N lt n(2), of "buf ! (unat (w - 1) mod length buf)"] show ?thesis by simp
qed

lemma shrink_line:
  assumes wf: "cons_wf st" and ne: "ce st \<noteq> cw st"
  defines "st' \<equiv> st\<lparr>ce := ce st - 1\<rparr>"
  shows "cons_wf st'" "ready_bytes st' = ready_bytes st"
    "edit_bytes st = edit_bytes st' @ [cbuf st ! (unat (ce st - 1) mod INPUT_BUF)]"
proof -
  have "ce st - cw st \<noteq> 0" using ne by simp
  from unat_minus_one [OF this] have u: "unat (ce st - 1 - cw st) = unat (ce st - cw st) - 1"
    by (simp add: diff_right_commute)
  show "cons_wf st'" using wf u by (auto simp: cons_wf_def st'_def)
  show "ready_bytes st' = ready_bytes st" by (simp add: ready_bytes_def st'_def)
  show "edit_bytes st = edit_bytes st' @ [cbuf st ! (unat (ce st - 1) mod INPUT_BUF)]"
    using ring_between_snoc [OF dvd_128 [of "cbuf st"] ne] wf
    by (simp add: edit_bytes_def st'_def cons_wf_def)
qed

lemma kill_line_spec:
  "cons_wf st \<Longrightarrow> cons_wf (fst (kill_line st)) \<and> ready_bytes (fst (kill_line st)) = ready_bytes st
     \<and> edit_bytes (fst (kill_line st)) = rev (dropWhile (\<lambda>b. b \<noteq> 10) (rev (edit_bytes st)))"
proof (induction st rule: kill_line.induct)
  case (1 st)
  show ?case
  proof (cases "ce st \<noteq> cw st \<and> cbuf st ! (unat (ce st - 1) mod INPUT_BUF) \<noteq> 10")
    case True
    note sh = shrink_line [OF "1.prems"] 
    have "kill_line st = (case kill_line (st\<lparr>ce := ce st - 1\<rparr>) of (c', out) \<Rightarrow> (c', BACKSPACE @ out))"
      using True by (subst kill_line.simps) simp
    then show ?thesis using "1.IH" [OF True] sh True by (auto split: prod.splits)
  next
    case False
    then have k: "kill_line st = (st, [])" by (subst kill_line.simps) auto
    have "rev (dropWhile (\<lambda>b. b \<noteq> 10) (rev (edit_bytes st))) = edit_bytes st"
    proof (cases "ce st = cw st")
      case True
      then show ?thesis by (simp add: edit_bytes_def ring_between_def)
    next
      case ne: False
      then show ?thesis using shrink_line(3) [OF "1.prems" ne] False by simp
    qed
    then show ?thesis using k "1.prems" by simp
  qed
qed

lemma append_line:
  assumes wf: "cons_wf st" and room: "ce st - cr st < of_nat INPUT_BUF"
    and st1_def: "st1 = st\<lparr>cbuf := (cbuf st)[unat (ce st) mod INPUT_BUF := c], ce := ce st + 1\<rparr>"
  shows "cons_wf st1" "ready_bytes st1 = ready_bytes st" "edit_bytes st1 = edit_bytes st @ [c]"
    "length (ready_bytes st) + length (edit_bytes st) < INPUT_BUF"
    "ce st1 = cr st1 + of_nat INPUT_BUF \<longleftrightarrow> length (ready_bytes st) + length (edit_bytes st) + 1 = INPUT_BUF"
    "cons_wf (st1\<lparr>cw := ce st1\<rparr>)" "ready_bytes (st1\<lparr>cw := ce st1\<rparr>) = ready_bytes st @ edit_bytes st @ [c]"
    "edit_bytes (st1\<lparr>cw := ce st1\<rparr>) = []"
proof -
  note i = cons_edit_index [OF wf]
  have len: "length (cbuf st) = 128" using wf by (simp add: cons_wf_def)
  have n: "unat (cw st - cr st) + unat (ce st - cw st) < 128"
    using room i by (simp add: word_less_nat_alt)
  then show lt: "length (ready_bytes st) + length (edit_bytes st) < INPUT_BUF"
    by (simp add: ready_bytes_def edit_bytes_def)
  have u: "unat (ce st + 1 - cw st) = Suc (unat (ce st - cw st))"
    using n by (intro unat_diff_Suc) simp
  show wf1: "cons_wf st1" using len n u by (simp add: cons_wf_def st1_def)
  have dv: "length (cbuf st) dvd 2 ^ LENGTH(32)" using len by (intro dvd_128) simp
  show r1: "ready_bytes st1 = ready_bytes st"
    using ring_between_update [OF dv, of "cw st" "cr st" "ce st" c] n i len by (simp add: ready_bytes_def st1_def)
  show e1: "edit_bytes st1 = edit_bytes st @ [c]"
    using ring_between_put [OF dv, of "ce st" "cw st" c] n len by (simp add: edit_bytes_def st1_def)
  have u1: "unat (ce st1 - cr st1) = Suc (unat (cw st - cr st) + unat (ce st - cw st))"
    using cons_edit_index [OF wf1] u by (simp add: st1_def)
  have "ce st1 = cr st1 + of_nat INPUT_BUF \<longleftrightarrow> unat (ce st1 - cr st1) = 128"
  proof -
    have "ce st1 = cr st1 + of_nat INPUT_BUF \<longleftrightarrow> ce st1 - cr st1 = 128" by (auto simp: algebra_simps)
    then show ?thesis by (simp add: word_unat_eq_iff)
  qed
  then show "ce st1 = cr st1 + of_nat INPUT_BUF \<longleftrightarrow> length (ready_bytes st) + length (edit_bytes st) + 1 = INPUT_BUF"
    using u1 by (auto simp: ready_bytes_def edit_bytes_def)
  show "cons_wf (st1\<lparr>cw := ce st1\<rparr>)" using wf1 u1 n len by (simp add: cons_wf_def)
  show "edit_bytes (st1\<lparr>cw := ce st1\<rparr>) = []" by (simp add: edit_bytes_def ring_between_def)
  have "ring_between (cbuf st1) (cr st1) (ce st1) = ring_between (cbuf st1) (cr st1) (cw st1) @ ring_between (cbuf st1) (cw st1) (ce st1)"
    using ring_between_append [of "cbuf st1" "ce st1" "cr st1" "cw st1"] cons_edit_index [OF wf1] wf1
    by (simp add: cons_wf_def)
  then show "ready_bytes (st1\<lparr>cw := ce st1\<rparr>) = ready_bytes st @ edit_bytes st @ [c]"
    using r1 e1 by (simp add: ready_bytes_def edit_bytes_def)
qed


lemma consume_ready:
  assumes wf: "cons_wf st" and ne: "cr st \<noteq> cw st"
  shows "cons_wf (st\<lparr>cr := cr st + 1\<rparr>)" "edit_bytes (st\<lparr>cr := cr st + 1\<rparr>) = edit_bytes st"
    "ready_bytes st = cbuf st ! (unat (cr st) mod INPUT_BUF) # ready_bytes (st\<lparr>cr := cr st + 1\<rparr>)"
proof -
  have len: "length (cbuf st) = 128" using wf by (simp add: cons_wf_def)
  have dv: "length (cbuf st) dvd 2 ^ LENGTH(32)" using len by (intro dvd_128) simp
  show "edit_bytes (st\<lparr>cr := cr st + 1\<rparr>) = edit_bytes st" by (simp add: edit_bytes_def)
  show "ready_bytes st = cbuf st ! (unat (cr st) mod INPUT_BUF) # ready_bytes (st\<lparr>cr := cr st + 1\<rparr>)"
    using ring_between_get [OF dv ne [symmetric]] len by (simp add: ready_bytes_def)
  show "cons_wf (st\<lparr>cr := cr st + 1\<rparr>)" using wf unat_diff_pred [OF ne [symmetric]] by (auto simp: cons_wf_def)
qed

lemma consoleread_loop_spec:
  "consoleread_loop n target user_dst dst killed ksp pt s st = Ret (r, s', st') \<Longrightarrow> cons_wf st \<Longrightarrow> n \<le> target \<Longrightarrow>
     \<exists>m \<le> length (ready_bytes st). cons_wf st' \<and> ready_bytes st' = drop m (ready_bytes st) \<and> edit_bytes st' = edit_bytes st
       \<and> (\<forall>i. i + 1 < m \<longrightarrow> ready_bytes st ! i \<noteq> 10 \<and> ready_bytes st ! i \<noteq> 4)"
proof (induction n arbitrary: st dst s)
  case (Suc n)
  show ?case
  proof (cases "cr st = cw st")
    case True
    then show ?thesis using Suc.prems by (intro exI [of _ 0]) (auto split: if_splits)
  next
    case False
    let ?c = "cbuf st ! (unat (cr st) mod INPUT_BUF)" and ?st1 = "st\<lparr>cr := cr st + 1\<rparr>"
    note cs = consume_ready [OF Suc.prems(2) False]
    show ?thesis
    proof (cases "?c = 4")
      case True
      then have "st' = (if Suc n < target then st else ?st1)"
        using Suc.prems(1) False by (auto simp: Let_def split: if_splits)
      then show ?thesis using cs Suc.prems(2)
        by (cases "Suc n < target") (auto intro: exI [of _ 0] exI [of _ 1])
    next
      case c: False
      from Suc.prems(1) False c obtain v s1 where
        "either_copyout pt user_dst dst ksp [?c] 1 s = Ret (v, s1)" and
        rest: "(if v = -1 then Ret (CDone (int target - int (Suc n)), s1, ?st1)
          else if ?c = 10 then Ret (CDone (int target - int n), s1, ?st1)
          else consoleread_loop n target user_dst (dst + 1) killed ksp pt s1 ?st1) = Ret (r, s', st')"
        by (auto simp: Let_def bind_res_Ret_iff simp del: INPUT_BUF_def)
      show ?thesis
      proof (cases "v = -1 \<or> ?c = 10")
        case True
        then have "st' = ?st1" using rest by (auto split: if_splits)
        then show ?thesis using cs by (intro exI [of _ 1]) auto
      next
        case nl: False
        with Suc.IH [of "dst + 1" s1 ?st1] rest cs(1) Suc.prems(3) obtain m where
          m: "m \<le> length (ready_bytes ?st1)" "cons_wf st'" "ready_bytes st' = drop m (ready_bytes ?st1)"
          "edit_bytes st' = edit_bytes ?st1"
          "\<forall>i. i + 1 < m \<longrightarrow> ready_bytes ?st1 ! i \<noteq> 10 \<and> ready_bytes ?st1 ! i \<noteq> 4" by auto
        have "ready_bytes st ! i \<noteq> 10 \<and> ready_bytes st ! i \<noteq> 4" if "i + 1 < Suc m" for i
          using that m(5) c nl cs(3) by (cases i) auto
        then show ?thesis using m cs by (intro exI [of _ "Suc m"]) auto
      qed
    qed
  qed
qed (auto intro: exI [of _ 0])

section \<open>The transmit buffer as a queue\<close>

definition tx_bytes :: "uart \<Rightarrow> u8 list" where
  "tx_bytes u = ring_between (tx_buf u) (tx_r u) (tx_w u)"

definition uart_wf :: "uart \<Rightarrow> bool" where
  "uart_wf u \<longleftrightarrow> length (tx_buf u) = UART_TX_BUF_SIZE \<and> unat (tx_w u - tx_r u) \<le> UART_TX_BUF_SIZE"

interpretation uf: byte_fifo uart_put uart_get tx_bytes UART_TX_BUF_SIZE uart_wf
proof
  fix u :: uart and x :: u8 and xs
  assume wf: "uart_wf u"
  then have len: "length (tx_buf u) = 32" by (simp add: uart_wf_def)
  then have dv: "length (tx_buf u) dvd 2 ^ LENGTH(64)" by simp
  show "uart_wf (uart_put x u) \<and> tx_bytes (uart_put x u) = tx_bytes u @ [x]"
    if "length (tx_bytes u) < UART_TX_BUF_SIZE"
    using that len ring_between_put [OF dv, of "tx_w u" "tx_r u" x] unat_diff_Suc [of "tx_w u" "tx_r u"]
    by (simp add: uart_wf_def uart_put_def tx_bytes_def)
  show "fst (uart_get u) = x \<and> uart_wf (snd (uart_get u)) \<and> tx_bytes (snd (uart_get u)) = xs"
    if "tx_bytes u = x # xs"
  proof -
    have ne: "tx_w u \<noteq> tx_r u" using that by (metis list.distinct(1) ring_between_Nil_iff tx_bytes_def)
    show ?thesis
      using that wf len ring_between_get [OF dv ne] unat_diff_pred [OF ne]
      by (simp add: uart_wf_def uart_get_def tx_bytes_def)
  qed
  show "length (tx_bytes u) \<le> UART_TX_BUF_SIZE" using wf by (simp add: uart_wf_def tx_bytes_def)
qed

lemma uartstart_sends:
  "uart_wf u \<Longrightarrow> uartstart idle u = (out, u') \<Longrightarrow> uart_wf u' \<and> tx_bytes u = out @ tx_bytes u'"
proof (induction idle arbitrary: u out)
  case (Cons b bs)
  show ?case
  proof (cases "tx_w u = tx_r u \<or> \<not> b")
    case True
    then show ?thesis using Cons.prems by (auto split: if_splits)
  next
    case False
    then obtain x xs where c: "tx_bytes u = x # xs"
      by (metis list.exhaust ring_between_Nil_iff tx_bytes_def)
    obtain ch u1 where g: "uart_get u = (ch, u1)" by (cases "uart_get u")
    note gc = uf.get_contents [OF Cons.prems(1) c, unfolded g, simplified]
    obtain out2 u2 where st: "uartstart bs u1 = (out2, u2)" by (cases "uartstart bs u1")
    then have "out = ch # out2" "u' = u2" using Cons.prems(2) False g by auto
    then show ?thesis using Cons.IH [of u1 out2] st gc c by simp
  qed
qed simp

section \<open>Properties\<close>

text \<open>(C18) The console interrupt handler implements a line editor on the bytes ready to be read and the
  line being typed: it never writes over bytes that are not read yet, erases only within the line
  being typed, and hands a line over when it is ended or the buffer is full.\<close>

theorem consoleintr_refines_editor:
  assumes "cons_wf st" and "consoleintr c st = (st', echo, woken)"
  shows "cons_wf st' \<and> (ready_bytes st', edit_bytes st') = editor c (ready_bytes st, edit_bytes st)"
proof -
  consider "c = 16" | "c = 21" | "c = 8 \<or> c = 127" | "c \<notin> {16, 21, 8, 127}" by auto
  then show ?thesis
  proof cases
    case 1
    then show ?thesis using assms by (simp add: consoleintr_def editor_def)
  next
    case 2
    then show ?thesis using assms kill_line_spec [OF assms(1)]
      by (auto simp: consoleintr_def editor_def split: prod.splits)
  next
    case 3
    have "edit_bytes st = []" if "ce st = cw st" using that by (simp add: edit_bytes_def ring_between_def)
    then show ?thesis using 3 assms shrink_line [OF assms(1)]
      by (auto simp: consoleintr_def editor_def split: if_splits)
  next
    case 4
    have full: "length (ready_bytes st) + length (edit_bytes st) < INPUT_BUF \<longleftrightarrow> ce st - cr st < of_nat INPUT_BUF"
      using cons_edit_index [OF assms(1)] by (simp add: ready_bytes_def edit_bytes_def word_less_nat_alt)
    show ?thesis
    proof (cases "c \<noteq> 0 \<and> ce st - cr st < of_nat INPUT_BUF")
      case False
      then show ?thesis using 4 assms full by (auto simp: consoleintr_def editor_def)
    next
      case True
      then have room: "ce st - cr st < of_nat INPUT_BUF" by simp
      define d where "d = (if c = 13 then 10 else c)"
      define st1 where "st1 = st\<lparr>cbuf := (cbuf st)[unat (ce st) mod INPUT_BUF := d], ce := ce st + 1\<rparr>"
      note al = append_line [OF assms(1) room st1_def]
      have st': "st' = (if d = 10 \<or> d = 4 \<or> ce st1 = cr st1 + of_nat INPUT_BUF then st1\<lparr>cw := ce st1\<rparr> else st1)"
        using 4 True assms(2) by (auto simp: consoleintr_def Let_def d_def st1_def split: if_splits)
      have ed: "editor c (ready_bytes st, edit_bytes st) =
          (if d = 10 \<or> d = 4 \<or> length (ready_bytes st) + length (edit_bytes st) + 1 = INPUT_BUF
           then (ready_bytes st @ edit_bytes st @ [d], []) else (ready_bytes st, edit_bytes st @ [d]))"
        using 4 True al(4) by (auto simp: editor_def Let_def d_def)
      show ?thesis unfolding st' ed al(5) using al by simp
    qed
  qed
qed

definition cons_boot :: cons where
  "cons_boot = \<lparr>cbuf = replicate INPUT_BUF 0, cr = 0, cw = 0, ce = 0\<rparr>"

theorem consoleintr_refines_editor_witness:
  "\<exists>st'. consoleintr 65 cons_boot = (st', [65], False) \<and> ready_bytes st' = [] \<and> edit_bytes st' = [65]"
proof -
  have wf: "cons_wf cons_boot" by (simp add: cons_wf_def cons_boot_def)
  have e: "ready_bytes cons_boot = []" "edit_bytes cons_boot = []"
    by (simp_all add: ready_bytes_def edit_bytes_def ring_between_def cons_boot_def)
  obtain st' where st': "consoleintr 65 cons_boot = (st', [65], False)"
    by (simp add: consoleintr_def cons_boot_def Let_def)
  from consoleintr_refines_editor [OF wf st'] st' e show ?thesis by (simp add: editor_def Let_def)
qed



text \<open>(C21) The serial line sends bytes in the order \<^verbatim>\<open>uartputc\<close> received them: the bytes that were waiting and
  the new byte are the bytes sent followed by the bytes still waiting.\<close>

theorem uartputc_fifo:
  assumes "uart_wf u" and "uartputc c idle u = Some (out, u')"
  shows "uart_wf u' \<and> tx_bytes u @ [c] = out @ tx_bytes u'"
proof -
  have "tx_w u \<noteq> tx_r u + 32" using assms(2) by (auto simp: uartputc_def split: if_splits)
  then have "tx_w u - tx_r u \<noteq> 32" by (auto simp: diff_eq_eq)
  then have "unat (tx_w u - tx_r u) \<noteq> 32" by (simp add: word_unat_eq_iff)
  then have "length (tx_bytes u) < UART_TX_BUF_SIZE" using assms(1) by (simp add: uart_wf_def tx_bytes_def)
  note p = uf.put_contents [OF assms(1) this, of c]
  have "uartstart idle (uart_put c u) = (out, u')" using assms(2) by (auto simp: uartputc_def split: if_splits)
  from uartstart_sends [OF _ this] p show ?thesis by simp
qed


theorem uartputc_fifo_witness:
  "\<exists>u'. uartputc 7 [True] \<lparr>tx_buf = replicate 32 0, tx_w = 0, tx_r = 0\<rparr> = Some ([7], u') \<and> tx_bytes u' = []"
proof -
  let ?u = "\<lparr>tx_buf = replicate 32 0, tx_w = 0, tx_r = 0\<rparr> :: uart"
  have wf: "uart_wf ?u" and e: "tx_bytes ?u = []" by (simp_all add: uart_wf_def tx_bytes_def ring_between_def)
  obtain u' where u': "uartputc 7 [True] ?u = Some ([7], u')"
    by (simp add: uartputc_def uart_put_def uart_get_def)
  from uartputc_fifo [OF wf u'] u' e show ?thesis by simp
qed

end
