(* ===== verification/Bio.thy ===== *)
theory Bio
  imports Layout
begin

text \<open>
  \<^verbatim>\<open>kernel/bio.c\<close>, \<^verbatim>\<open>kernel/sleeplock.c\<close>, \<^verbatim>\<open>kernel/disk.c\<close> and \<^verbatim>\<open>kernel/ramdisk.c\<close>. The buffers are
  the nodes \<open>0, \<dots>, NBUF - 1\<close> of a doubly linked list through their \<^verbatim>\<open>prev\<close> and \<^verbatim>\<open>next\<close> fields, whose head is
  the node \<open>NBUF\<close>; the disk is the byte array behind \<^verbatim>\<open>ramdisk\<close>. What runs under
  \<^verbatim>\<open>bcache.lock\<close>, a sleep lock's spin lock or \<^verbatim>\<open>ramdisklock\<close> is one step. The list is proved to
  implement the list of buffers in order of use, and the steps of any number of processes are
  proved to keep the cache coherent with the disk.
\<close>

section \<open>Sleep locks\<close>

record sleeplock =
  slocked :: bool
  spid :: int

definition initsleeplock :: sleeplock where
  "initsleeplock = \<lparr>slocked = False, spid = 0\<rparr>"

text \<open>\<^verbatim>\<open>acquiresleep\<close> waits while the lock is taken: \<open>None\<close>.\<close>

definition acquiresleep :: "int \<Rightarrow> sleeplock \<Rightarrow> sleeplock option" where
  "acquiresleep pid lk = (if slocked lk then None else Some (lk\<lparr>slocked := True, spid := pid\<rparr>))"

definition releasesleep :: "sleeplock \<Rightarrow> sleeplock" where
  "releasesleep lk = lk\<lparr>slocked := False, spid := 0\<rparr>"

definition holdingsleep :: "int \<Rightarrow> sleeplock \<Rightarrow> bool" where
  "holdingsleep pid lk \<longleftrightarrow> slocked lk \<and> spid lk = pid"

section \<open>Buffers and the disk\<close>

definition BSIZE :: nat where [simp]: "BSIZE = 512"
definition NBUF :: nat where "NBUF = 3000"

record buf =
  valid :: bool
  dev :: u32
  sectorno :: u32
  block :: sleeplock
  refcnt :: u32
  prev :: nat
  nxt :: nat
  bdata :: "u8 list"

record bcache =
  node :: "nat \<Rightarrow> buf"
  disk :: memory

abbreviation head :: nat where "head \<equiv> NBUF"

abbreviation upd :: "nat \<Rightarrow> (buf \<Rightarrow> buf) \<Rightarrow> bcache \<Rightarrow> bcache" where
  "upd b f c \<equiv> c\<lparr>node := (node c)(b := f (node c b))\<rparr>"

text \<open>\<^verbatim>\<open>sectorno * BSIZE\<close> is computed in 32 bits.\<close>

definition sector_addr :: "u32 \<Rightarrow> u64" where
  "sector_addr sec = ucast (sec * of_nat BSIZE)"

definition sector :: "memory \<Rightarrow> u32 \<Rightarrow> u8 list" where
  "sector d sec = read_bytes d (sector_addr sec) BSIZE"

definition disk_read :: "nat \<Rightarrow> bcache \<Rightarrow> bcache" where
  "disk_read b c = upd b (\<lambda>x. x\<lparr>bdata := sector (disk c) (sectorno x)\<rparr>) c"

definition disk_write :: "nat \<Rightarrow> bcache \<Rightarrow> bcache" where
  "disk_write b c =
     c\<lparr>disk := write_bytes (disk c) (sector_addr (sectorno (node c b))) (bdata (node c b))\<rparr>"

section \<open>The list of buffers\<close>

definition link_front :: "nat \<Rightarrow> bcache \<Rightarrow> bcache" where
  "link_front b c =
     (let c1 = upd b (\<lambda>x. x\<lparr>nxt := nxt (node c head)\<rparr>) c;
          c2 = upd b (\<lambda>x. x\<lparr>prev := head\<rparr>) c1;
          c3 = upd (nxt (node c2 head)) (\<lambda>x. x\<lparr>prev := b\<rparr>) c2
      in upd head (\<lambda>x. x\<lparr>nxt := b\<rparr>) c3)"

definition unlink :: "nat \<Rightarrow> bcache \<Rightarrow> bcache" where
  "unlink b c =
     (let c1 = upd (nxt (node c b)) (\<lambda>x. x\<lparr>prev := prev (node c b)\<rparr>) c
      in upd (prev (node c1 b)) (\<lambda>x. x\<lparr>nxt := nxt (node c1 b)\<rparr>) c1)"

definition binit_one :: "nat \<Rightarrow> bcache \<Rightarrow> bcache" where
  "binit_one b c = link_front b (upd b (\<lambda>x. x\<lparr>refcnt := 0, sectorno := NOT 0, dev := NOT 0, block := initsleeplock\<rparr>) c)"

definition binit :: "bcache \<Rightarrow> bcache" where
  "binit c = fold binit_one [0..<NBUF] (upd head (\<lambda>x. x\<lparr>prev := head, nxt := head\<rparr>) c)"

text \<open>The two searches of \<^verbatim>\<open>bget\<close>; a search that never comes back to the head is \<open>None\<close>.\<close>

partial_function (option) find_cached :: "bcache \<Rightarrow> u32 \<Rightarrow> u32 \<Rightarrow> nat \<Rightarrow> nat option option" where
  "find_cached c d sec b =
     (if b = head then Some None
      else if dev (node c b) = d \<and> sectorno (node c b) = sec then Some (Some b)
      else find_cached c d sec (nxt (node c b)))"

partial_function (option) find_unused :: "bcache \<Rightarrow> nat \<Rightarrow> nat option option" where
  "find_unused c b =
     (if b = head then Some None
      else if refcnt (node c b) = 0 then Some (Some b)
      else find_unused c (prev (node c b)))"

text \<open>\<^verbatim>\<open>bget\<close> up to the release of \<^verbatim>\<open>bcache.lock\<close>; what is left of it is \<^verbatim>\<open>acquiresleep\<close>.\<close>

definition bget_entry :: "u32 \<Rightarrow> u32 \<Rightarrow> bcache \<Rightarrow> (nat \<times> bcache) res" where
  "bget_entry d sec c =
     (case find_cached c d sec (nxt (node c head)) of
        None \<Rightarrow> Stuck
      | Some (Some b) \<Rightarrow> Ret (b, upd b (\<lambda>x. x\<lparr>refcnt := refcnt x + 1\<rparr>) c)
      | Some None \<Rightarrow>
          (case find_unused c (prev (node c head)) of
             None \<Rightarrow> Stuck
           | Some (Some b) \<Rightarrow> Ret (b, upd b (\<lambda>x. x\<lparr>dev := d, sectorno := sec, valid := False, refcnt := 1\<rparr>) c)
           | Some None \<Rightarrow> Panic ''bget: no buffers''))"

definition bget_lock :: "int \<Rightarrow> nat \<Rightarrow> bcache \<Rightarrow> bcache res" where
  "bget_lock pid b c =
     (case acquiresleep pid (block (node c b)) of
        None \<Rightarrow> Stuck
      | Some lk \<Rightarrow> Ret (upd b (\<lambda>x. x\<lparr>block := lk\<rparr>) c))"

definition bget :: "int \<Rightarrow> u32 \<Rightarrow> u32 \<Rightarrow> bcache \<Rightarrow> (nat \<times> bcache) res" where
  "bget pid d sec c =
     bind_res (bget_entry d sec c) (\<lambda>(b, c1). bind_res (bget_lock pid b c1) (\<lambda>c2. Ret (b, c2)))"

definition bread_fill :: "nat \<Rightarrow> bcache \<Rightarrow> bcache" where
  "bread_fill b c =
     (if valid (node c b) then c else upd b (\<lambda>x. x\<lparr>valid := True\<rparr>) (disk_read b c))"

definition bread :: "int \<Rightarrow> u32 \<Rightarrow> u32 \<Rightarrow> bcache \<Rightarrow> (nat \<times> bcache) res" where
  "bread pid d sec c = bind_res (bget pid d sec c) (\<lambda>(b, c1). Ret (b, bread_fill b c1))"

definition bwrite :: "int \<Rightarrow> nat \<Rightarrow> bcache \<Rightarrow> bcache res" where
  "bwrite pid b c =
     (if \<not> holdingsleep pid (block (node c b)) then Panic ''bwrite'' else Ret (disk_write b c))"

text \<open>\<^verbatim>\<open>brelse\<close> in two steps: up to \<^verbatim>\<open>releasesleep\<close>, and what it does under \<^verbatim>\<open>bcache.lock\<close>.\<close>

definition brelse_unlock :: "int \<Rightarrow> nat \<Rightarrow> bcache \<Rightarrow> bcache res" where
  "brelse_unlock pid b c =
     (if \<not> holdingsleep pid (block (node c b)) then Panic ''brelse''
      else Ret (upd b (\<lambda>x. x\<lparr>block := releasesleep (block x)\<rparr>) c))"

definition brelse_unref :: "nat \<Rightarrow> bcache \<Rightarrow> bcache" where
  "brelse_unref b c =
     (let c1 = upd b (\<lambda>x. x\<lparr>refcnt := refcnt x - 1\<rparr>) c in
      if refcnt (node c1 b) = 0 then link_front b (unlink b c1) else c1)"

definition brelse :: "int \<Rightarrow> nat \<Rightarrow> bcache \<Rightarrow> bcache res" where
  "brelse pid b c = bind_res (brelse_unlock pid b c) (\<lambda>c1. Ret (brelse_unref b c1))"

definition bpin :: "nat \<Rightarrow> bcache \<Rightarrow> bcache" where
  "bpin b c = upd b (\<lambda>x. x\<lparr>refcnt := refcnt x + 1\<rparr>) c"

definition bunpin :: "nat \<Rightarrow> bcache \<Rightarrow> bcache" where
  "bunpin b c = upd b (\<lambda>x. x\<lparr>refcnt := refcnt x - 1\<rparr>) c"

section \<open>The list represents an order of the buffers\<close>

primrec seg :: "(nat \<Rightarrow> buf) \<Rightarrow> nat \<Rightarrow> nat list \<Rightarrow> nat \<Rightarrow> bool" where
  "seg n a [] z \<longleftrightarrow> nxt (n a) = z \<and> prev (n z) = a"
| "seg n a (x # xs) z \<longleftrightarrow> nxt (n a) = x \<and> prev (n x) = a \<and> seg n x xs z"

lemma seg_append: "seg n a (xs @ x # ys) z \<longleftrightarrow> seg n a xs x \<and> seg n x ys z"
  by (induction xs arbitrary: a) auto

lemma seg_cong:
  "(\<And>x. x = a \<or> x \<in> set xs \<Longrightarrow> nxt (n x) = nxt (n' x)) \<Longrightarrow>
   (\<And>x. x = z \<or> x \<in> set xs \<Longrightarrow> prev (n x) = prev (n' x)) \<Longrightarrow> seg n a xs z = seg n' a xs z"
  by (induction xs arbitrary: a) auto

lemma seg_first: "seg n a xs z \<Longrightarrow> nxt (n a) = hd (xs @ [z])"
  by (cases xs) auto

lemma seg_last: "seg n a xs z \<Longrightarrow> prev (n z) = last (a # xs)"
  by (induction xs arbitrary: a) auto

definition lru :: "bcache \<Rightarrow> nat list \<Rightarrow> bool" where
  "lru c xs \<longleftrightarrow> distinct xs \<and> head \<notin> set xs \<and> seg (node c) head xs head"

lemma lru_link_front:
  assumes "lru c xs" "b \<notin> set xs" "b \<noteq> head"
  shows "lru (link_front b c) (b # xs)"
proof (cases xs)
  case Nil
  then show ?thesis using assms by (auto simp: lru_def link_front_def Let_def)
next
  case (Cons y ys)
  then have y: "y \<noteq> b" "y \<noteq> head" "y \<notin> set ys" "b \<notin> set ys" "head \<notin> set ys" and s: "seg (node c) y ys head"
    using assms by (auto simp: lru_def)
  have "seg (node (link_front b c)) y ys head \<longleftrightarrow> seg (node c) y ys head"
    using y assms Cons by (intro seg_cong) (auto simp: link_front_def Let_def lru_def)
  then show ?thesis using s y assms Cons by (auto simp: lru_def link_front_def Let_def)
qed

text \<open>Redirecting the last link of a segment to another end.\<close>

lemma seg_retarget:
  assumes "seg m a xs w" "last (a # xs) = p" "p \<notin> set (butlast (a # xs))" "z \<notin> set xs"
    "\<And>x. nxt (m' x) = (if x = p then z else nxt (m x))"
    "\<And>x. prev (m' x) = (if x = z then p else prev (m x))"
  shows "seg m' a xs z"
  using assms(1-4) by (induction xs arbitrary: a) (auto simp: assms(5,6) split: if_splits)

lemma lru_unlink:
  assumes "lru c (xs @ b # ys)"
  shows "lru (unlink b c) (xs @ ys)"
proof -
  let ?p = "last (head # xs)" and ?q = "hd (ys @ [head])" and ?n = "node (unlink b c)"
  have s: "seg (node c) head xs b" "seg (node c) b ys head"
    and d: "distinct (xs @ b # ys)" "head \<notin> set (xs @ b # ys)"
    using assms by (auto simp: lru_def seg_append)
  have pq: "prev (node c b) = ?p" "nxt (node c b) = ?q" using seg_last [OF s(1)] seg_first [OF s(2)] by auto
  have ne: "?q \<noteq> b" "?p \<noteq> b" using d by (cases ys; cases xs rule: rev_cases; auto)+
  have n: "nxt (?n x) = (if x = ?p then ?q else nxt (node c x))"
      "prev (?n x) = (if x = ?q then ?p else prev (node c x))" for x
    using ne by (auto simp: unlink_def Let_def pq)
  have q: "?q \<notin> set xs" and p: "?p \<notin> set (butlast (head # xs))"
    subgoal using d by (cases ys) auto
    subgoal using d by (cases xs rule: rev_cases) auto
    done
  have l: "seg ?n head xs ?q" by (rule seg_retarget [OF s(1) refl p q]) (simp_all add: n)
  show ?thesis
  proof (cases ys)
    case Nil
    then show ?thesis using l d by (auto simp: lru_def)
  next
    case (Cons y zs)
    have "seg ?n y zs head \<longleftrightarrow> seg (node c) y zs head"
    proof (rule seg_cong)
      show "nxt (?n x) = nxt (node c x)" if x: "x = y \<or> x \<in> set zs" for x
      proof -
        have "x \<noteq> ?p" using d x Cons by (cases xs rule: rev_cases) auto
        then show ?thesis by (simp add: n)
      qed
      show "prev (?n x) = prev (node c x)" if "x = head \<or> x \<in> set zs" for x
        using that d Cons by (auto simp: n)
    qed
    then show ?thesis using l s(2) d Cons by (auto simp: lru_def seg_append)
  qed
qed

lemma lru_cong:
  assumes "\<And>x. nxt (node c x) = nxt (node c' x)" "\<And>x. prev (node c x) = prev (node c' x)"
  shows "lru c xs = lru c' xs"
  using seg_cong [of head xs "node c" "node c'" head] assms by (simp add: lru_def)

lemma binit_fold_lru:
  "lru c xs \<Longrightarrow> set xs = {0..<i} \<Longrightarrow> i \<le> j \<Longrightarrow> j \<le> NBUF \<Longrightarrow>
     lru (fold binit_one [i..<j] c) (rev [i..<j] @ xs)"
proof (induction "j - i" arbitrary: i xs c)
  case (Suc k)
  then have ij: "i < j" by simp
  have "lru (upd i (\<lambda>x. x\<lparr>refcnt := 0, sectorno := NOT 0, dev := NOT 0, block := initsleeplock\<rparr>) c) xs"
    using Suc.prems(1) by (subst lru_cong [where c' = c]) auto
  then have "lru (binit_one i c) (i # xs)"
    unfolding binit_one_def using Suc.prems ij by (intro lru_link_front) auto
  moreover have "set (i # xs) = {0..<Suc i}" using Suc.prems(2) by auto
  ultimately have "lru (fold binit_one [Suc i..<j] (binit_one i c)) (rev [Suc i..<j] @ i # xs)"
    using Suc ij by (intro Suc.hyps) auto
  then show ?case using ij by (simp add: upt_rec [of i j])
qed simp

lemma lru_binit: "lru (binit c) (rev [0..<NBUF])"
  using binit_fold_lru [of "upd head (\<lambda>x. x\<lparr>prev := head, nxt := head\<rparr>) c" "[]" 0 NBUF]
  by (simp add: binit_def lru_def)

section \<open>The searches of bget\<close>

lemma find_SomeD: "find P xs = Some x \<Longrightarrow> x \<in> set xs \<and> P x"
  by (auto simp: find_Some_iff)

lemma find_cached_seg:
  "seg (node c) a xs head \<Longrightarrow> head \<notin> set xs \<Longrightarrow>
     find_cached c d sec (nxt (node c a)) = Some (find (\<lambda>b. dev (node c b) = d \<and> sectorno (node c b) = sec) xs)"
proof (induction xs arbitrary: a)
  case Nil
  then show ?case by (subst find_cached.simps) simp
next
  case (Cons x xs)
  then show ?case using Cons.IH [of x] by (subst find_cached.simps) auto
qed

lemma find_unused_seg:
  "seg (node c) head xs z \<Longrightarrow> head \<notin> set xs \<Longrightarrow>
     find_unused c (prev (node c z)) = Some (find (\<lambda>b. refcnt (node c b) = 0) (rev xs))"
proof (induction xs arbitrary: z rule: rev_induct)
  case Nil
  then show ?case by (subst find_unused.simps) simp
next
  case (snoc x xs)
  then have "seg (node c) head xs x" "prev (node c z) = x" by (auto simp: seg_append)
  then show ?case using snoc.IH [of x] snoc.prems(2) by (subst find_unused.simps) auto
qed

lemma find_cached_lru:
  "lru c xs \<Longrightarrow> find_cached c d sec (nxt (node c head)) = Some (find (\<lambda>b. dev (node c b) = d \<and> sectorno (node c b) = sec) xs)"
  using find_cached_seg [of c head xs] by (simp add: lru_def)

lemma find_unused_lru:
  "lru c xs \<Longrightarrow> find_unused c (prev (node c head)) = Some (find (\<lambda>b. refcnt (node c b) = 0) (rev xs))"
  using find_unused_seg [of c xs head] by (simp add: lru_def)

lemma lru_upd [simp]:
  "nxt y = nxt (node c b) \<Longrightarrow> prev y = prev (node c b) \<Longrightarrow> lru (c\<lparr>node := (node c)(b := y)\<rparr>) xs = lru c xs"
  by (rule lru_cong) auto

lemma lru_disk [simp]: "lru (c\<lparr>disk := d\<rparr>) xs = lru c xs"
  by (rule lru_cong) auto

lemma link_front_fields [simp]:
  "valid (node (link_front b c) x) = valid (node c x)" "dev (node (link_front b c) x) = dev (node c x)"
  "sectorno (node (link_front b c) x) = sectorno (node c x)" "block (node (link_front b c) x) = block (node c x)"
  "refcnt (node (link_front b c) x) = refcnt (node c x)" "bdata (node (link_front b c) x) = bdata (node c x)"
  "disk (link_front b c) = disk c"
  by (simp_all add: link_front_def Let_def)

lemma unlink_fields [simp]:
  "valid (node (unlink b c) x) = valid (node c x)" "dev (node (unlink b c) x) = dev (node c x)"
  "sectorno (node (unlink b c) x) = sectorno (node c x)" "block (node (unlink b c) x) = block (node c x)"
  "refcnt (node (unlink b c) x) = refcnt (node c x)" "bdata (node (unlink b c) x) = bdata (node c x)"
  "disk (unlink b c) = disk c"
  by (simp_all add: unlink_def Let_def)

lemma lru_move_front:
  assumes "lru c xs" "set xs = {0..<NBUF}" "b < NBUF"
  shows "lru (link_front b (unlink b c)) (b # removeAll b xs)"
proof -
  obtain ys zs where xs: "xs = ys @ b # zs" using assms by (metis atLeastLessThan_iff split_list zero_le)
  then have "b \<notin> set ys" "b \<notin> set zs" using assms(1) by (auto simp: lru_def)
  moreover have "lru (unlink b c) (ys @ zs)" using assms(1) xs by (simp add: lru_unlink)
  ultimately show ?thesis using lru_link_front [of "unlink b c" "ys @ zs" b] assms(3) xs by simp
qed

section \<open>Sectors of the disk\<close>

definition sec_ok :: "u32 \<Rightarrow> bool" where "sec_ok sec \<longleftrightarrow> sec < 0x800000"

lemma unat_sector_addr: "sec_ok sec \<Longrightarrow> unat (sector_addr sec) = unat sec * 512"
  by (simp add: sec_ok_def sector_addr_def word_less_nat_alt unat_word_ariths)

lemma length_sector [simp]: "length (sector d sec) = BSIZE" by (simp add: sector_def)

lemma sector_same: "length bs = BSIZE \<Longrightarrow> sector (write_bytes d (sector_addr sec) bs) sec = bs"
  using read_write_bytes_same [of bs d "sector_addr sec"] by (simp add: sector_def)

lemma sector_other:
  assumes "sec_ok sec" "sec_ok sec'" "sec \<noteq> sec'" "length bs = BSIZE"
  shows "sector (write_bytes d (sector_addr sec) bs) sec' = sector d sec'"
  unfolding sector_def
proof (rule read_bytes_cong)
  fix i assume i: "i < BSIZE"
  let ?a = "sector_addr sec" and ?b = "sector_addr sec'"
  have u: "unat ?a = unat sec * 512" "unat ?b = unat sec' * 512" "unat sec < 0x800000" "unat sec' < 0x800000"
    using assms by (simp_all add: unat_sector_addr) (simp_all add: sec_ok_def word_less_nat_alt)
  have ne: "unat sec \<noteq> unat sec'" using assms(3) by (simp add: word_unat_eq_iff)
  have s: "unat (?b + of_nat i) = unat sec' * 512 + i" using u i by (simp add: unat_word_ariths unat_of_nat)
  have "512 \<le> unat (?b + of_nat i - ?a)"
  proof (cases "unat sec < unat sec'")
    case True
    then have "unat ?a \<le> unat (?b + of_nat i)" using u s by simp
    then have "unat (?b + of_nat i - ?a) = unat sec' * 512 + i - unat sec * 512"
      using u s unat_sub [of ?a "?b + of_nat i"] by (simp add: word_le_nat_alt)
    then show ?thesis using True by arith
  next
    case False
    then have "\<not> unat sec * 512 \<le> unat sec' * 512 + i" using ne i by auto
    then have "unat (?b + of_nat i - ?a) = unat sec' * 512 + i + 18446744073709551616 - unat sec * 512"
      using u s by (simp add: unat_sub_if_size word_size word_le_nat_alt)
    then show ?thesis using u(3) by linarith
  qed
  then show "write_bytes d ?a bs (?b + of_nat i) = d (?b + of_nat i)"
    using assms(4) by (simp add: write_bytes_outside)
qed

section \<open>Processes that use the cache\<close>

text \<open>A process is idle, waits for the lock of a buffer it has a reference to, has locked it and not
  yet filled it, holds it (\<open>True\<close>: with changes that are not written yet), or has unlocked it
  and not yet given up its reference.\<close>

datatype bpc = BIdle | BWait nat | BFill nat | BHold nat bool | BDone nat

record bsys =
  bc :: bcache
  bpcs :: "int \<Rightarrow> bpc"

abbreviation goto :: "int \<Rightarrow> bpc \<Rightarrow> bcache \<Rightarrow> bsys \<Rightarrow> bsys" where
  "goto p l c s \<equiv> s\<lparr>bc := c, bpcs := (bpcs s)(p := l)\<rparr>"

text \<open>The clients of the cache use device 0 and sectors of the first 4 GiB, change only a buffer they
  hold, and write a changed buffer before they release it. There are at most \<^verbatim>\<open>NPROC\<close> processes.\<close>

inductive bio_step :: "bsys \<Rightarrow> bsys \<Rightarrow> bool" where
  get: "bpcs s p = BIdle \<Longrightarrow> card {q. bpcs s q \<noteq> BIdle} < NPROC \<Longrightarrow> sec_ok sec \<Longrightarrow>
     bget_entry 0 sec (bc s) = Ret (b, c) \<Longrightarrow> bio_step s (goto p (BWait b) c s)"
| lock: "bpcs s p = BWait b \<Longrightarrow> bget_lock p b (bc s) = Ret c \<Longrightarrow> bio_step s (goto p (BFill b) c s)"
| fill: "bpcs s p = BFill b \<Longrightarrow> bio_step s (goto p (BHold b False) (bread_fill b (bc s)) s)"
| change: "bpcs s p = BHold b m \<Longrightarrow> length ds = BSIZE \<Longrightarrow>
     bio_step s (goto p (BHold b True) (upd b (\<lambda>x. x\<lparr>bdata := ds\<rparr>) (bc s)) s)"
| flush: "bpcs s p = BHold b m \<Longrightarrow> bwrite p b (bc s) = Ret c \<Longrightarrow> bio_step s (goto p (BHold b False) c s)"
| unlock: "bpcs s p = BHold b False \<Longrightarrow> brelse_unlock p b (bc s) = Ret c \<Longrightarrow> bio_step s (goto p (BDone b) c s)"
| unref: "bpcs s p = BDone b \<Longrightarrow> bio_step s (goto p BIdle (brelse_unref b (bc s)) s)"

definition refs :: "bpc \<Rightarrow> nat \<Rightarrow> bool" where
  "refs l b \<longleftrightarrow> l = BWait b \<or> l = BFill b \<or> (\<exists>m. l = BHold b m) \<or> l = BDone b"

definition holds :: "bpc \<Rightarrow> nat \<Rightarrow> bool" where
  "holds l b \<longleftrightarrow> l = BFill b \<or> (\<exists>m. l = BHold b m)"

lemma refs_simps [simp]:
  "\<not> refs BIdle b" "refs (BWait a) b \<longleftrightarrow> a = b" "refs (BFill a) b \<longleftrightarrow> a = b"
  "refs (BHold a m) b \<longleftrightarrow> a = b" "refs (BDone a) b \<longleftrightarrow> a = b"
  by (auto simp: refs_def)

lemma holds_simps [simp]:
  "\<not> holds BIdle b" "\<not> holds (BWait a) b" "holds (BFill a) b \<longleftrightarrow> a = b"
  "holds (BHold a m) b \<longleftrightarrow> a = b" "\<not> holds (BDone a) b"
  by (auto simp: holds_def)

lemma holds_refs: "holds l b \<Longrightarrow> refs l b" by (auto simp: holds_def)

definition refs_inv :: "bsys \<Rightarrow> bool" where
  "refs_inv s \<longleftrightarrow> (\<exists>xs. lru (bc s) xs \<and> set xs = {0..<NBUF})
     \<and> finite {p. bpcs s p \<noteq> BIdle} \<and> card {p. bpcs s p \<noteq> BIdle} \<le> NPROC
     \<and> (\<forall>b < NBUF. refcnt (node (bc s) b) = of_nat (card {p. refs (bpcs s p) b}))
     \<and> (\<forall>p b. refs (bpcs s p) b \<longrightarrow> b < NBUF \<and> dev (node (bc s) b) = 0)"

definition lock_inv :: "bsys \<Rightarrow> bool" where
  "lock_inv s \<longleftrightarrow> (\<forall>p b. holds (bpcs s p) b \<longrightarrow> holdingsleep p (block (node (bc s) b)))
     \<and> (\<forall>b < NBUF. slocked (block (node (bc s) b)) \<longrightarrow> holds (bpcs s (spid (block (node (bc s) b)))) b)"

definition data_inv :: "bsys \<Rightarrow> bool" where
  "data_inv s \<longleftrightarrow> (\<forall>b < NBUF. dev (node (bc s) b) = 0 \<longrightarrow> sec_ok (sectorno (node (bc s) b))
       \<and> (\<forall>b' < NBUF. b' \<noteq> b \<and> dev (node (bc s) b') = 0 \<longrightarrow> sectorno (node (bc s) b') \<noteq> sectorno (node (bc s) b))
       \<and> (valid (node (bc s) b) \<and> (\<forall>p. bpcs s p \<noteq> BHold b True)
           \<longrightarrow> bdata (node (bc s) b) = sector (disk (bc s)) (sectorno (node (bc s) b))))
     \<and> (\<forall>p b m. bpcs s p = BHold b m \<longrightarrow> valid (node (bc s) b) \<and> length (bdata (node (bc s) b)) = BSIZE)"

definition bio_inv :: "bsys \<Rightarrow> bool" where
  "bio_inv s \<longleftrightarrow> refs_inv s \<and> lock_inv s \<and> data_inv s"

lemma bget_entry_cases:
  assumes "lru c xs" "set xs = {0..<NBUF}"
  obtains (cached) b where "b < NBUF" "dev (node c b) = d" "sectorno (node c b) = sec"
      "bget_entry d sec c = Ret (b, upd b (\<lambda>x. x\<lparr>refcnt := refcnt x + 1\<rparr>) c)"
    | (recycled) b where "b < NBUF" "refcnt (node c b) = 0"
      "\<And>x. x < NBUF \<Longrightarrow> \<not> (dev (node c x) = d \<and> sectorno (node c x) = sec)"
      "bget_entry d sec c = Ret (b, upd b (\<lambda>x. x\<lparr>dev := d, sectorno := sec, valid := False, refcnt := 1\<rparr>) c)"
    | (none) "\<And>x. x < NBUF \<Longrightarrow> refcnt (node c x) \<noteq> 0"
      "\<And>x. x < NBUF \<Longrightarrow> \<not> (dev (node c x) = d \<and> sectorno (node c x) = sec)"
      "bget_entry d sec c = Panic ''bget: no buffers''"
proof -
  let ?P = "\<lambda>b. dev (node c b) = d \<and> sectorno (node c b) = sec"
  note f = find_cached_lru [OF assms(1), of d sec] find_unused_lru [OF assms(1)]
  have m: "x \<in> set xs \<longleftrightarrow> x < NBUF" for x using assms(2) by simp
  show thesis
  proof (cases "find ?P xs")
    case (Some b)
    then have "b < NBUF" "dev (node c b) = d" "sectorno (node c b) = sec" using find_SomeD [OF Some] m by auto
    then show ?thesis using f Some by (intro cached [of b]) (simp_all add: bget_entry_def)
  next
    case no: None
    then have n: "\<And>x. x < NBUF \<Longrightarrow> \<not> ?P x" using m by (auto simp: find_None_iff)
    show ?thesis
    proof (cases "find (\<lambda>b. refcnt (node c b) = 0) (rev xs)")
      case None
      then have "\<And>x. x < NBUF \<Longrightarrow> refcnt (node c x) \<noteq> 0" using m by (simp add: find_None_iff)
      then show ?thesis using none n f no None by (simp add: bget_entry_def)
    next
      case (Some b)
      then have "b < NBUF" "refcnt (node c b) = 0" using find_SomeD [OF Some] m by auto
      then show ?thesis using n f no Some by (intro recycled [of b]) (simp_all add: bget_entry_def)
    qed
  qed
qed

lemma refs_inv_finite: "refs_inv s \<Longrightarrow> finite {p. refs (bpcs s p) b}"
  by (rule finite_subset [of _ "{p. bpcs s p \<noteq> BIdle}"]) (auto simp: refs_inv_def refs_def)

lemma refs_inv_card: "refs_inv s \<Longrightarrow> card {p. refs (bpcs s p) b} \<le> NPROC"
  by (rule order_trans [OF card_mono [of "{p. bpcs s p \<noteq> BIdle}"]]) (auto simp: refs_inv_def refs_def)

lemma refcnt_zero_iff:
  assumes "refs_inv s" "b < NBUF"
  shows "refcnt (node (bc s) b) = 0 \<longleftrightarrow> (\<forall>p. \<not> refs (bpcs s p) b)"
proof -
  have "refcnt (node (bc s) b) = 0 \<longleftrightarrow> card {p. refs (bpcs s p) b} = 0"
    using refs_inv_card [OF assms(1), of b] assms by (simp add: refs_inv_def word_unat_eq_iff unat_of_nat)
  then show ?thesis using refs_inv_finite [OF assms(1), of b] by simp
qed

text \<open>There are fewer processes than buffers, so \<^verbatim>\<open>bget\<close> finds one.\<close>

lemma some_unused:
  assumes I: "refs_inv s"
  shows "\<exists>b < NBUF. refcnt (node (bc s) b) = 0"
proof (rule ccontr)
  assume n: "\<not> ?thesis"
  then have "\<forall>b < NBUF. \<exists>p. refs (bpcs s p) b" using refcnt_zero_iff [OF I] by blast
  then obtain f where f: "\<And>b. b < NBUF \<Longrightarrow> refs (bpcs s (f b)) b" by metis
  have "inj_on f {..<NBUF}" using f by (intro inj_onI) (metis lessThan_iff refs_def bpc.inject bpc.distinct)
  moreover have "f ` {..<NBUF} \<subseteq> {p. bpcs s p \<noteq> BIdle}" using f by (force simp: refs_def)
  ultimately have "NBUF \<le> card {p. bpcs s p \<noteq> BIdle}"
    using I card_inj_on_le [of f "{..<NBUF}"] by (simp add: refs_inv_def)
  then show False using I by (simp add: refs_inv_def NBUF_def)
qed

lemma bget_entry_returns:
  assumes "refs_inv s" shows "\<exists>b c. bget_entry d sec (bc s) = Ret (b, c)"
proof -
  obtain xs where "lru (bc s) xs" "set xs = {0..<NBUF}" using assms by (auto simp: refs_inv_def)
  then show ?thesis using some_unused [OF assms] by (cases rule: bget_entry_cases [where d = d and sec = sec]) auto
qed

section \<open>Every step keeps the invariant\<close>

lemma refs_set_upd:
  "{q. refs ((f(p := l)) q) b} = (if refs l b then insert p {q. refs (f q) b} else {q. refs (f q) b} - {p})"
  by auto

lemma busy_set_upd:
  "{q. (f(p := l)) q \<noteq> BIdle} = (if l = BIdle then {q. f q \<noteq> BIdle} - {p} else insert p {q. f q \<noteq> BIdle})"
  by auto

text \<open>Steps that keep the references of the process.\<close>

lemma refs_inv_keep:
  assumes I: "refs_inv s" and r: "\<And>b. refs l b = refs (bpcs s p) b" "bpcs s p \<noteq> BIdle" "l \<noteq> BIdle"
    and c: "\<And>xs. lru c xs = lru (bc s) xs" "\<And>x. refcnt (node c x) = refcnt (node (bc s) x)"
      "\<And>x. dev (node c x) = dev (node (bc s) x)"
  shows "refs_inv (goto p l c s)"
proof -
  have a: "{q. refs (((bpcs s)(p := l)) q) b} = {q. refs (bpcs s q) b}" for b using r by auto
  have b: "{q. ((bpcs s)(p := l)) q \<noteq> BIdle} = {q. bpcs s q \<noteq> BIdle}" using r by auto
  have d: "refs (((bpcs s)(p := l)) q) b = refs (bpcs s q) b" for q b using r by auto
  have g: "bpcs (goto p l c s) = (bpcs s)(p := l)" "bc (goto p l c s) = c" by simp_all
  show ?thesis using I unfolding refs_inv_def g a b d c .
qed

lemma refs_inv_get:
  assumes I: "refs_inv s" and p: "bpcs s p = BIdle" "card {q. bpcs s q \<noteq> BIdle} < NPROC"
    and g: "bget_entry 0 sec (bc s) = Ret (b, c)"
  shows "refs_inv (goto p (BWait b) c s)"
proof -
  obtain xs where xs: "lru (bc s) xs" "set xs = {0..<NBUF}" using I by (auto simp: refs_inv_def)
  have "b < NBUF \<and> dev (node c b) = 0 \<and> (\<forall>x. x \<noteq> b \<longrightarrow> node c x = node (bc s) x) \<and> lru c xs
      \<and> refcnt (node c b) = refcnt (node (bc s) b) + 1"
    using xs by (cases rule: bget_entry_cases [where d = 0 and sec = sec]) (use g xs(1) in auto)
  then have b: "b < NBUF" and d: "dev (node c b) = 0" "\<And>x. x \<noteq> b \<Longrightarrow> node c x = node (bc s) x"
    and l: "lru c xs" and rc: "refcnt (node c b) = refcnt (node (bc s) b) + 1" by auto
  have f: "finite {q. refs (bpcs s q) b}" "p \<notin> {q. refs (bpcs s q) b}" using I p by (auto simp: refs_inv_finite)
  have "refcnt (node c x) = of_nat (card {q. refs (((bpcs s)(p := BWait b)) q) x})" if "x < NBUF" for x
  proof (cases "x = b")
    case True
    have "{q. refs (((bpcs s)(p := BWait b)) q) b} = insert p {q. refs (bpcs s q) b}" by auto
    then have "card {q. refs (((bpcs s)(p := BWait b)) q) b} = Suc (card {q. refs (bpcs s q) b})" using f by simp
    then show ?thesis using I b True rc by (simp add: refs_inv_def add.commute del: fun_upd_apply)
  next
    case False
    then have "{q. refs (((bpcs s)(p := BWait b)) q) x} = {q. refs (bpcs s q) x}" using p by auto
    then show ?thesis using I False d that by (simp add: refs_inv_def)
  qed
  moreover have "refs (((bpcs s)(p := BWait b)) q) x \<Longrightarrow> x < NBUF \<and> dev (node c x) = 0" for q x
    using I b d by (cases "x = b") (auto simp: refs_inv_def split: if_splits)
  moreover have "finite {q. ((bpcs s)(p := BWait b)) q \<noteq> BIdle} \<and> card {q. ((bpcs s)(p := BWait b)) q \<noteq> BIdle} \<le> NPROC"
    unfolding busy_set_upd using I p by (simp add: refs_inv_def)
  ultimately show ?thesis using l xs by (auto simp: refs_inv_def)
qed

lemma refs_inv_unref:
  assumes I: "refs_inv s" and p: "bpcs s p = BDone b"
  shows "refs_inv (goto p BIdle (brelse_unref b (bc s)) s)"
proof -
  let ?c = "brelse_unref b (bc s)" and ?S = "{q. refs (bpcs s q) b}"
  obtain xs where xs: "lru (bc s) xs" "set xs = {0..<NBUF}" using I by (auto simp: refs_inv_def)
  have b: "b < NBUF" using I p unfolding refs_inv_def by (metis refs_simps(5))
  have l: "\<exists>ys. lru ?c ys \<and> set ys = {0..<NBUF}"
  proof -
    let ?c1 = "upd b (\<lambda>x. x\<lparr>refcnt := refcnt x - 1\<rparr>) (bc s)"
    have "lru (link_front b (unlink b ?c1)) (b # removeAll b xs)" "lru ?c1 xs"
      using xs b by (auto intro!: lru_move_front)
    moreover have "set (b # removeAll b xs) = {0..<NBUF}" unfolding list.set set_removeAll xs(2) using b by auto
    ultimately show ?thesis using xs(2) unfolding brelse_unref_def Let_def by (cases "refcnt (node ?c1 b) = 0") auto
  qed
  have d: "dev (node ?c x) = dev (node (bc s) x)"
      "refcnt (node ?c x) = (if x = b then refcnt (node (bc s) x) - 1 else refcnt (node (bc s) x))" for x
    by (auto simp: brelse_unref_def Let_def)
  have f: "finite ?S" "p \<in> ?S" using I p by (auto simp: refs_inv_finite)
  then have k: "of_nat (card (?S - {p})) = (of_nat (card ?S) :: u32) - 1"
    by (subst card.remove [OF f]) (simp del: card_Diff_singleton card_Diff_insert)
  have "refcnt (node ?c x) = of_nat (card {q. refs (((bpcs s)(p := BIdle)) q) x})" if "x < NBUF" for x
  proof (cases "x = b")
    case True
    have "{q. refs (((bpcs s)(p := BIdle)) q) b} = ?S - {p}" by auto
    then show ?thesis using I b k True d by (simp add: refs_inv_def del: fun_upd_apply card_Diff_singleton card_Diff_insert)
  next
    case False
    then have "{q. refs (((bpcs s)(p := BIdle)) q) x} = {q. refs (bpcs s q) x}" using p by auto
    then show ?thesis using I False d that by (simp add: refs_inv_def)
  qed
  moreover have "refs (((bpcs s)(p := BIdle)) q) x \<Longrightarrow> x < NBUF \<and> dev (node ?c x) = 0" for q x
    using I d by (auto simp: refs_inv_def split: if_splits)
  moreover have "finite {q. ((bpcs s)(p := BIdle)) q \<noteq> BIdle} \<and> card {q. ((bpcs s)(p := BIdle)) q \<noteq> BIdle} \<le> NPROC"
    unfolding busy_set_upd using I card_Diff1_le [of "{q. bpcs s q \<noteq> BIdle}" p]
    by (simp add: refs_inv_def del: card_Diff_insert)
  ultimately show ?thesis using l by (auto simp: refs_inv_def)
qed

lemma bio_step_refs: "bio_step s s' \<Longrightarrow> refs_inv s \<Longrightarrow> refs_inv s'"
proof (induction rule: bio_step.induct)
  case (get s p sec b c)
  then show ?case by (simp add: refs_inv_get)
next
  case (unref s p b)
  then show ?case by (simp add: refs_inv_unref)
next
  case (fill s p b)
  then show ?case by (intro refs_inv_keep) (auto simp: bread_fill_def disk_read_def)
next
  case (change s p b m ds)
  then show ?case by (intro refs_inv_keep) auto
next
  case (lock s p b c)
  then show ?case by (intro refs_inv_keep) (auto simp: bget_lock_def split: option.splits)
next
  case (flush s p b m c)
  then show ?case by (intro refs_inv_keep) (auto simp: bwrite_def disk_write_def split: if_splits)
next
  case (unlock s p b c)
  then show ?case by (intro refs_inv_keep) (auto simp: brelse_unlock_def split: if_splits)
qed

lemma holder_unique:
  assumes "lock_inv s" "holds (bpcs s p) b" "holds (bpcs s q) b" shows "p = q"
proof -
  have "spid (block (node (bc s) b)) = p" "spid (block (node (bc s) b)) = q"
    using assms unfolding lock_inv_def holdingsleep_def by blast+
  then show ?thesis by simp
qed

text \<open>Steps that change neither a lock nor who holds it.\<close>

lemma lock_inv_keep:
  assumes I: "lock_inv s" and "\<And>b. holds l b = holds (bpcs s p) b" "\<And>x. block (node c x) = block (node (bc s) x)"
  shows "lock_inv (goto p l c s)"
proof -
  have h: "holds (((bpcs s)(p := l)) q) b = holds (bpcs s q) b" for q b using assms(2) by auto
  have g: "bpcs (goto p l c s) = (bpcs s)(p := l)" "bc (goto p l c s) = c" by simp_all
  show ?thesis using I unfolding lock_inv_def g h assms(3) .
qed

lemma bio_step_locks: "bio_step s s' \<Longrightarrow> refs_inv s \<Longrightarrow> lock_inv s \<Longrightarrow> lock_inv s'"
proof (induction rule: bio_step.induct)
  case (get s p sec b c)
  obtain xs where xs: "lru (bc s) xs" "set xs = {0..<NBUF}" using get.prems(1) by (auto simp: refs_inv_def)
  have "block (node c x) = block (node (bc s) x)" for x
    using xs by (cases rule: bget_entry_cases [where d = 0 and sec = sec]) (use get.hyps in auto)
  then show ?case using get by (intro lock_inv_keep) auto
next
  case (lock s p b c)
  then have free: "\<not> slocked (block (node (bc s) b))"
    and c: "c = upd b (\<lambda>x. x\<lparr>block := (block x)\<lparr>slocked := True, spid := p\<rparr>\<rparr>) (bc s)"
    by (auto simp: bget_lock_def acquiresleep_def split: if_splits)
  have e: "holds (bpcs s q) x \<Longrightarrow> holdingsleep q (block (node (bc s) x))" for q x
    using lock.prems(2) by (simp add: lock_inv_def)
  have f: "holds (bpcs s (spid (block (node (bc s) x)))) x" if "x < NBUF" "slocked (block (node (bc s) x))" for x
    using lock.prems(2) that by (simp add: lock_inv_def)
  have n: "\<not> holds (bpcs s q) b" for q using e [of q b] free by (auto simp: holdingsleep_def)
  have "holdingsleep q (block (node c x))" if h: "holds (((bpcs s)(p := BFill b)) q) x" for q x
  proof (cases "q = p")
    case True
    then show ?thesis using h by (simp add: c holdingsleep_def)
  next
    case False
    then have "holds (bpcs s q) x" "x \<noteq> b" using h n by auto
    then show ?thesis using e [of q x] by (simp add: c)
  qed
  moreover have "holds (((bpcs s)(p := BFill b)) (spid (block (node c x)))) x"
    if "x < NBUF" "slocked (block (node c x))" for x
    using that f [of x] lock.hyps(1) by (auto simp: c split: if_splits)
  moreover have "bpcs (goto p (BFill b) c s) = (bpcs s)(p := BFill b)" "bc (goto p (BFill b) c s) = c" by simp_all
  ultimately show ?case unfolding lock_inv_def by (simp only:) blast
next
  case (unlock s p b c)
  then have c: "c = upd b (\<lambda>x. x\<lparr>block := releasesleep (block x)\<rparr>) (bc s)"
    by (auto simp: brelse_unlock_def split: if_splits)
  have "\<not> holds (bpcs s q) b" if "q \<noteq> p" for q
    using holder_unique [OF unlock.prems(2), of p b q] unlock.hyps(1) that by auto
  moreover have "spid (block (node (bc s) x)) \<noteq> p" if x: "x \<noteq> b" "x < NBUF" "slocked (block (node (bc s) x))" for x
  proof -
    have "holds (bpcs s (spid (block (node (bc s) x)))) x" using unlock.prems(2) x unfolding lock_inv_def by blast
    then show ?thesis using x(1) unlock.hyps(1) by auto
  qed
  ultimately show ?case using unlock.prems(2) by (auto simp: lock_inv_def c releasesleep_def)
next
  case (fill s p b)
  then show ?case by (intro lock_inv_keep) (auto simp: bread_fill_def disk_read_def)
next
  case (change s p b m ds)
  then show ?case by (intro lock_inv_keep) auto
next
  case (flush s p b m c)
  then show ?case by (intro lock_inv_keep) (auto simp: bwrite_def disk_write_def split: if_splits)
next
  case (unref s p b)
  then show ?case by (intro lock_inv_keep) (auto simp: brelse_unref_def Let_def)
qed

text \<open>Steps that change no data.\<close>

lemma data_inv_keep:
  assumes I: "data_inv s" and l: "\<And>b m. l \<noteq> BHold b m" and p: "\<And>b. bpcs s p \<noteq> BHold b True"
    and c: "\<And>x. dev (node c x) = dev (node (bc s) x)" "\<And>x. sectorno (node c x) = sectorno (node (bc s) x)"
      "\<And>x. valid (node c x) = valid (node (bc s) x)" "\<And>x. bdata (node c x) = bdata (node (bc s) x)"
      "disk c = disk (bc s)"
  shows "data_inv (goto p l c s)"
proof -
  have g: "bpcs (goto p l c s) = (bpcs s)(p := l)" "bc (goto p l c s) = c" by simp_all
  have a: "(\<forall>q. ((bpcs s)(p := l)) q \<noteq> BHold b True) \<longleftrightarrow> (\<forall>q. bpcs s q \<noteq> BHold b True)" for b
  proof -
    have "((bpcs s)(p := l)) q = BHold b True \<longleftrightarrow> bpcs s q = BHold b True" for q using l p by (cases "q = p") auto
    then show ?thesis by (simp only:)
  qed
  have b: "((bpcs s)(p := l)) q = BHold b m \<Longrightarrow> bpcs s q = BHold b m" for q b m using l by (auto split: if_splits)
  show ?thesis using I b unfolding data_inv_def g a c by blast
qed

lemma data_inv_get:
  assumes R: "refs_inv s" and I: "data_inv s" and p: "bpcs s p = BIdle" and sec: "sec_ok sec"
    and g: "bget_entry 0 sec (bc s) = Ret (b, c)"
  shows "data_inv (goto p (BWait b) c s)"
proof -
  obtain xs where xs: "lru (bc s) xs" "set xs = {0..<NBUF}" using R by (auto simp: refs_inv_def)
  show ?thesis using xs
  proof (cases rule: bget_entry_cases [where d = 0 and sec = sec])
    case (cached b')
    then show ?thesis using I p g by (intro data_inv_keep) auto
  next
    case (recycled b')
    then have c: "c = upd b (\<lambda>x. x\<lparr>dev := 0, sectorno := sec, valid := False, refcnt := 1\<rparr>) (bc s)"
      and b: "b < NBUF" "refcnt (node (bc s) b) = 0" using g by auto
    have n: "bpcs s q \<noteq> BHold b m" for q m using refcnt_zero_iff [OF R b(1)] b(2) by (metis refs_simps(4))
    have a: "(\<forall>q. ((bpcs s)(p := BWait b)) q \<noteq> BHold x True) \<longleftrightarrow> (\<forall>q. bpcs s q \<noteq> BHold x True)" for x
    proof -
      have "((bpcs s)(p := BWait b)) q = BHold x True \<longleftrightarrow> bpcs s q = BHold x True" for q using p by (cases "q = p") auto
      then show ?thesis by (simp only:)
    qed
    have h: "valid (node (bc s) x) \<and> length (bdata (node (bc s) x)) = BSIZE" if "bpcs s q = BHold x m" for q x m
      using I that unfolding data_inv_def by blast
    show ?thesis using I recycled(3) sec n h unfolding data_inv_def
      by (auto simp: c a simp del: fun_upd_apply) (auto simp: c split: if_splits)
  next
    case none
    then show ?thesis using g by simp
  qed
qed

lemma data_inv_fill:
  assumes R: "refs_inv s" and L: "lock_inv s" and I: "data_inv s" and p: "bpcs s p = BFill b"
  shows "data_inv (goto p (BHold b False) (bread_fill b (bc s)) s)"
proof -
  have b: "b < NBUF" "dev (node (bc s) b) = 0" using R p unfolding refs_inv_def by (metis refs_simps(3))+
  have n: "bpcs s q \<noteq> BHold b m" for q m using holder_unique [OF L, of p b q] p by auto
  let ?c = "bread_fill b (bc s)"
  have d: "bdata (node (bc s) b) = sector (disk (bc s)) (sectorno (node (bc s) b))" if "valid (node (bc s) b)"
    using I b n that unfolding data_inv_def by blast
  have c: "dev (node ?c x) = dev (node (bc s) x)" "sectorno (node ?c x) = sectorno (node (bc s) x)"
      "disk ?c = disk (bc s)" "x \<noteq> b \<Longrightarrow> node ?c x = node (bc s) x"
      "valid (node ?c b)" "bdata (node ?c b) = sector (disk (bc s)) (sectorno (node (bc s) b))" for x
    using d by (auto simp: bread_fill_def disk_read_def)
  have a: "(\<forall>q. ((bpcs s)(p := BHold b False)) q \<noteq> BHold x True) \<longleftrightarrow> (\<forall>q. bpcs s q \<noteq> BHold x True)" for x
  proof -
    have "((bpcs s)(p := BHold b False)) q = BHold x True \<longleftrightarrow> bpcs s q = BHold x True" for q
      using p by (cases "q = p") auto
    then show ?thesis by (simp only:)
  qed
  have g: "bpcs (goto p (BHold b False) ?c s) = (bpcs s)(p := BHold b False)" "bc (goto p (BHold b False) ?c s) = ?c"
    by simp_all
  have e: "valid (node ?c x) \<and> (\<forall>q. bpcs s q \<noteq> BHold x True) \<longrightarrow> bdata (node ?c x) = sector (disk (bc s)) (sectorno (node (bc s) x))"
    if "x < NBUF" "dev (node (bc s) x) = 0" for x
    using I that c(4-6) unfolding data_inv_def by (cases "x = b") auto
  have h: "valid (node ?c x) \<and> length (bdata (node ?c x)) = BSIZE" if q: "((bpcs s)(p := BHold b False)) q = BHold x m" for q x m
  proof (cases "x = b")
    case True
    then show ?thesis using c(5,6) by simp
  next
    case False
    then have "bpcs s q = BHold x m" using q by (auto split: if_splits)
    then show ?thesis using I False c(4) unfolding data_inv_def by metis
  qed
  show ?thesis using I e h unfolding data_inv_def g a c(1-3) by blast
qed

lemma data_inv_change:
  assumes I: "data_inv s" and p: "bpcs s p = BHold b m" and l: "length ds = BSIZE"
  shows "data_inv (goto p (BHold b True) (upd b (\<lambda>x. x\<lparr>bdata := ds\<rparr>) (bc s)) s)"
proof -
  let ?c = "upd b (\<lambda>x. x\<lparr>bdata := ds\<rparr>) (bc s)" and ?f = "(bpcs s)(p := BHold b True)"
  have g: "bpcs (goto p (BHold b True) ?c s) = ?f" "bc (goto p (BHold b True) ?c s) = ?c" by simp_all
  have c: "dev (node ?c x) = dev (node (bc s) x)" "sectorno (node ?c x) = sectorno (node (bc s) x)"
    "valid (node ?c x) = valid (node (bc s) x)" "disk ?c = disk (bc s)" for x by simp_all
  have e: "valid (node (bc s) x) \<and> (\<forall>q. ?f q \<noteq> BHold x True) \<longrightarrow> bdata (node ?c x) = sector (disk (bc s)) (sectorno (node (bc s) x))"
    if "x < NBUF" "dev (node (bc s) x) = 0" for x
  proof (cases "x = b")
    case True
    have "?f p = BHold b True" by simp
    then show ?thesis using True by blast
  next
    case False
    then have "?f q = BHold x True \<longleftrightarrow> bpcs s q = BHold x True" for q using p by (cases "q = p") auto
    then show ?thesis using I that False unfolding data_inv_def by simp
  qed
  have h: "valid (node (bc s) x) \<and> length (bdata (node ?c x)) = BSIZE" if q: "?f q = BHold x m'" for q x m'
  proof -
    have "\<exists>q m. bpcs s q = BHold x m" using q p by (auto split: if_splits)
    then have "valid (node (bc s) x) \<and> length (bdata (node (bc s) x)) = BSIZE" using I unfolding data_inv_def by blast
    then show ?thesis using l by simp
  qed
  show ?thesis using I e h unfolding data_inv_def g c by blast
qed

lemma data_inv_flush:
  assumes R: "refs_inv s" and I: "data_inv s" and p: "bpcs s p = BHold b m"
  shows "data_inv (goto p (BHold b False) (disk_write b (bc s)) s)"
proof -
  let ?c = "disk_write b (bc s)" and ?f = "(bpcs s)(p := BHold b False)"
  have b: "b < NBUF" "dev (node (bc s) b) = 0" using R p unfolding refs_inv_def by (metis refs_simps(4))+
  have l: "length (bdata (node (bc s) b)) = BSIZE" using I p unfolding data_inv_def by blast
  have g: "bpcs (goto p (BHold b False) ?c s) = ?f" "bc (goto p (BHold b False) ?c s) = ?c" by simp_all
  have c: "node ?c = node (bc s)" by (simp add: disk_write_def)
  have e: "valid (node (bc s) x) \<and> (\<forall>q. ?f q \<noteq> BHold x True) \<longrightarrow> bdata (node (bc s) x) = sector (disk ?c) (sectorno (node (bc s) x))"
    if x: "x < NBUF" "dev (node (bc s) x) = 0" for x
  proof (cases "x = b")
    case True
    then show ?thesis using l by (simp add: disk_write_def sector_same)
  next
    case False
    then have f: "?f q = BHold x True \<longleftrightarrow> bpcs s q = BHold x True" for q using p by (cases "q = p") auto
    have "sec_ok (sectorno (node (bc s) x))" "sec_ok (sectorno (node (bc s) b))"
      "sectorno (node (bc s) x) \<noteq> sectorno (node (bc s) b)" using I b x False unfolding data_inv_def by blast+
    then have "sector (disk ?c) (sectorno (node (bc s) x)) = sector (disk (bc s)) (sectorno (node (bc s) x))"
      using l by (simp add: disk_write_def sector_other)
    then show ?thesis using I x f unfolding data_inv_def by simp
  qed
  have h: "valid (node (bc s) x) \<and> length (bdata (node (bc s) x)) = BSIZE" if q: "?f q = BHold x m'" for q x m'
  proof -
    have "\<exists>q m. bpcs s q = BHold x m" using q p by (auto split: if_splits)
    then show ?thesis using I unfolding data_inv_def by blast
  qed
  show ?thesis using I e h unfolding data_inv_def g c by blast
qed

lemma bio_step_inv: "bio_step s s' \<Longrightarrow> bio_inv s \<Longrightarrow> bio_inv s'"
proof -
  assume st: "bio_step s s'" and I: "bio_inv s"
  have "data_inv s'" using st I
  proof (induction rule: bio_step.induct)
    case (get s p sec b c)
    then show ?case by (simp add: bio_inv_def data_inv_get)
  next
    case (lock s p b c)
    then show ?case unfolding bio_inv_def
      by (intro data_inv_keep) (auto simp: bget_lock_def split: option.splits if_splits)
  next
    case (fill s p b)
    then show ?case by (simp add: bio_inv_def data_inv_fill)
  next
    case (change s p b m ds)
    then show ?case using data_inv_change [of s p b m ds] by (simp add: bio_inv_def)
  next
    case (flush s p b m c)
    then have "c = disk_write b (bc s)" by (simp add: bwrite_def split: if_splits)
    then show ?case using flush data_inv_flush [of s p b m] by (simp add: bio_inv_def)
  next
    case (unlock s p b c)
    then show ?case unfolding bio_inv_def
      by (intro data_inv_keep) (auto simp: brelse_unlock_def split: if_splits)
  next
    case (unref s p b)
    then show ?case unfolding bio_inv_def by (intro data_inv_keep) (auto simp: brelse_unref_def Let_def)
  qed
  then show ?thesis using st I bio_step_refs bio_step_locks by (auto simp: bio_inv_def)
qed

section \<open>The initial state\<close>

lemma binit_one_other: "x \<noteq> b \<Longrightarrow> dev (node (binit_one b c) x) = dev (node c x)
    \<and> refcnt (node (binit_one b c) x) = refcnt (node c x) \<and> block (node (binit_one b c) x) = block (node c x)"
  by (simp add: binit_one_def)

lemma binit_one_same: "dev (node (binit_one b c) b) = NOT 0
    \<and> refcnt (node (binit_one b c) b) = 0 \<and> block (node (binit_one b c) b) = initsleeplock"
  by (simp add: binit_one_def)

lemma binit_fold_other: "x \<notin> set bs \<Longrightarrow> dev (node (fold binit_one bs c) x) = dev (node c x)
    \<and> refcnt (node (fold binit_one bs c) x) = refcnt (node c x) \<and> block (node (fold binit_one bs c) x) = block (node c x)"
  by (induction bs arbitrary: c) (auto simp: binit_one_other)

lemma binit_fold_fields: "x \<in> set bs \<Longrightarrow> dev (node (fold binit_one bs c) x) = NOT 0
    \<and> refcnt (node (fold binit_one bs c) x) = 0 \<and> block (node (fold binit_one bs c) x) = initsleeplock"
proof (induction bs arbitrary: c)
  case (Cons b bs)
  then show ?case
  proof (cases "x \<in> set bs")
    case False
    then show ?thesis using Cons.prems binit_fold_other [of x bs "binit_one b c"] binit_one_same [of b c] by simp
  qed simp
qed simp

definition bio_boot :: "bcache \<Rightarrow> bsys" where
  "bio_boot c = \<lparr>bc = binit c, bpcs = (\<lambda>_. BIdle)\<rparr>"

lemma bio_boot_inv: "bio_inv (bio_boot c)"
proof -
  have f: "dev (node (binit c) x) = NOT 0 \<and> refcnt (node (binit c) x) = 0 \<and> block (node (binit c) x) = initsleeplock"
    if "x < NBUF" for x unfolding binit_def using that by (intro binit_fold_fields) simp
  have "\<exists>xs. lru (binit c) xs \<and> set xs = {0..<NBUF}"
    by (rule exI [of _ "rev [0..<NBUF]"]) (simp add: lru_binit)
  then show ?thesis using f
    by (auto simp: bio_inv_def refs_inv_def lock_inv_def data_inv_def bio_boot_def initsleeplock_def)
qed

lemma bio_reachable_inv: "bio_step\<^sup>*\<^sup>* (bio_boot c) s \<Longrightarrow> bio_inv s"
  by (induction rule: rtranclp_induct) (auto simp: bio_boot_inv bio_step_inv)

section \<open>One process at a time\<close>

definition quiet :: "bcache \<Rightarrow> bool" where
  "quiet c \<longleftrightarrow> bio_inv \<lparr>bc = c, bpcs = (\<lambda>_. BIdle)\<rparr>"

definition lone :: "int \<Rightarrow> nat \<Rightarrow> bool \<Rightarrow> bcache \<Rightarrow> bool" where
  "lone p b m c \<longleftrightarrow> bio_inv \<lparr>bc = c, bpcs = (\<lambda>_. BIdle)(p := BHold b m)\<rparr>"

lemma quiet_binit: "quiet (binit c)"
  using bio_boot_inv [of c] by (simp add: quiet_def bio_boot_def)

lemma bread_quiet:
  assumes q: "quiet c" and sec: "sec_ok sec"
  shows "\<exists>b c1. bread p 0 sec c = Ret (b, c1) \<and> lone p b False c1 \<and> disk c1 = disk c
    \<and> sectorno (node c1 b) = sec \<and> bdata (node c1 b) = sector (disk c) sec"
proof -
  let ?s = "\<lparr>bc = c, bpcs = (\<lambda>_. BIdle)\<rparr>"
  have I: "bio_inv ?s" using q by (simp add: quiet_def)
  then have R: "refs_inv ?s" by (simp add: bio_inv_def)
  obtain xs where xs: "lru c xs" "set xs = {0..<NBUF}" using R by (auto simp: refs_inv_def)
  obtain b c1 where g: "bget_entry 0 sec c = Ret (b, c1)" using bget_entry_returns [OF R, of 0 sec] by auto
  have e: "disk c1 = disk c \<and> sectorno (node c1 b) = sec \<and> b < NBUF \<and> block (node c1 b) = block (node c b)"
    using xs by (cases rule: bget_entry_cases [where d = 0 and sec = sec]) (use g in auto)
  have s1: "bio_step ?s (goto p (BWait b) c1 ?s)" using g sec by (intro bio_step.get) auto
  have I1: "bio_inv (goto p (BWait b) c1 ?s)" by (rule bio_step_inv [OF s1 I])
  have "\<not> slocked (block (node c b))" using I e by (auto simp: bio_inv_def lock_inv_def)
  then obtain c2 where l: "bget_lock p b c1 = Ret c2" and c2: "disk c2 = disk c1 \<and> sectorno (node c2 b) = sectorno (node c1 b)"
    using e by (auto simp: bget_lock_def acquiresleep_def)
  let ?s1 = "goto p (BWait b) c1 ?s"
  have I2: "bio_inv (goto p (BFill b) c2 ?s1)"
    by (rule bio_step_inv [OF bio_step.lock I1]) (use l in simp_all)
  let ?s2 = "goto p (BFill b) c2 ?s1"
  have "bio_inv (goto p (BHold b False) (bread_fill b (bc ?s2)) ?s2)"
    by (rule bio_step_inv [OF bio_step.fill I2]) simp
  then have L: "lone p b False (bread_fill b c2)" by (simp add: lone_def)
  have f: "disk (bread_fill b c2) = disk c2 \<and> sectorno (node (bread_fill b c2) b) = sectorno (node c2 b)"
    by (simp add: bread_fill_def disk_read_def)
  have "b < NBUF \<and> dev (node (bread_fill b c2) b) = 0"
    using L unfolding lone_def bio_inv_def refs_inv_def by (auto split: if_splits)
  then have "bdata (node (bread_fill b c2) b) = sector (disk (bread_fill b c2)) (sectorno (node (bread_fill b c2) b))"
    using L unfolding lone_def bio_inv_def data_inv_def by (auto split: if_splits)
  then show ?thesis using L f e c2 g l by (auto simp: bread_def bget_def)
qed

lemma bwrite_lone:
  assumes "lone p b m c"
  shows "bwrite p b c = Ret (disk_write b c) \<and> lone p b False (disk_write b c)"
proof -
  let ?s = "\<lparr>bc = c, bpcs = (\<lambda>_. BIdle)(p := BHold b m)\<rparr>"
  have I: "bio_inv ?s" using assms by (simp add: lone_def)
  then have "holdingsleep p (block (node c b))" by (simp add: bio_inv_def lock_inv_def)
  then have w: "bwrite p b c = Ret (disk_write b c)" by (simp add: bwrite_def)
  have "bio_inv (goto p (BHold b False) (disk_write b c) ?s)"
    by (rule bio_step_inv [OF bio_step.flush I]) (use w in simp_all)
  then show ?thesis using w by (simp add: lone_def)
qed

lemma change_lone:
  assumes "lone p b m c" "length ds = BSIZE"
  shows "lone p b True (upd b (\<lambda>x. x\<lparr>bdata := ds\<rparr>) c)"
proof -
  let ?s = "\<lparr>bc = c, bpcs = (\<lambda>_. BIdle)(p := BHold b m)\<rparr>"
  have I: "bio_inv ?s" using assms by (simp add: lone_def)
  have "bio_inv (goto p (BHold b True) (upd b (\<lambda>x. x\<lparr>bdata := ds\<rparr>) (bc ?s)) ?s)"
    by (rule bio_step_inv [OF bio_step.change I]) (use assms in simp_all)
  then show ?thesis by (simp add: lone_def)
qed

lemma brelse_lone:
  assumes "lone p b False c"
  shows "\<exists>c'. brelse p b c = Ret c' \<and> quiet c' \<and> disk c' = disk c"
proof -
  let ?s = "\<lparr>bc = c, bpcs = (\<lambda>_. BIdle)(p := BHold b False)\<rparr>"
  have I: "bio_inv ?s" using assms by (simp add: lone_def)
  then have "holdingsleep p (block (node c b))" by (simp add: bio_inv_def lock_inv_def)
  then obtain c1 where u: "brelse_unlock p b c = Ret c1" and d: "disk c1 = disk c" by (auto simp: brelse_unlock_def)
  let ?s1 = "goto p (BDone b) c1 ?s"
  have I1: "bio_inv ?s1" by (rule bio_step_inv [OF bio_step.unlock I]) (use u in simp_all)
  have "bio_inv (goto p BIdle (brelse_unref b (bc ?s1)) ?s1)"
    by (rule bio_step_inv [OF bio_step.unref I1]) simp
  then have "quiet (brelse_unref b c1)" by (simp add: quiet_def fun_upd_idem)
  moreover have "disk (brelse_unref b c1) = disk c1" by (simp add: brelse_unref_def Let_def)
  ultimately show ?thesis using u d by (simp add: brelse_def)
qed

text \<open>How the file system uses a buffer: it reads a sector, computes new contents and whether to
  write them, and releases the buffer. The result is what was read.\<close>

definition use_block :: "int \<Rightarrow> u32 \<Rightarrow> u32 \<Rightarrow> (u8 list \<Rightarrow> (u8 list \<times> bool) res) \<Rightarrow> bcache \<Rightarrow> (u8 list \<times> bcache) res" where
  "use_block p d sec f c = bind_res (bread p d sec c) (\<lambda>(b, c1).
     bind_res (f (bdata (node c1 b))) (\<lambda>(ds, w). let c2 = upd b (\<lambda>x. x\<lparr>bdata := ds\<rparr>) c1 in
     bind_res (if w then bwrite p b c2 else Ret c2) (\<lambda>c3.
     bind_res (brelse p b c3) (\<lambda>c4. Ret (bdata (node c1 b), c4)))))"

lemma upd_same: "upd b (\<lambda>x. x\<lparr>bdata := bdata (node c b)\<rparr>) c = c"
proof -
  have "(node c)(b := (node c b)\<lparr>bdata := bdata (node c b)\<rparr>) = node c" by (rule ext) simp
  then show ?thesis by simp
qed

lemma use_block_quiet:
  assumes q: "quiet c" "sec_ok sec" and f: "f (sector (disk c) sec) = Ret (ds, w)"
    and ds: "length ds = BSIZE" "w \<or> ds = sector (disk c) sec"
  shows "\<exists>c'. use_block p 0 sec f c = Ret (sector (disk c) sec, c') \<and> quiet c'
    \<and> disk c' = (if w then write_bytes (disk c) (sector_addr sec) ds else disk c)"
proof -
  obtain b c1 where b: "bread p 0 sec c = Ret (b, c1)" "lone p b False c1" "disk c1 = disk c"
    "sectorno (node c1 b) = sec" "bdata (node c1 b) = sector (disk c) sec" using bread_quiet [OF q, of p] by blast
  let ?c2 = "upd b (\<lambda>x. x\<lparr>bdata := ds\<rparr>) c1"
  show ?thesis
  proof (cases w)
    case True
    have "lone p b True ?c2" by (rule change_lone [OF b(2) ds(1)])
    then have w: "bwrite p b ?c2 = Ret (disk_write b ?c2)" "lone p b False (disk_write b ?c2)" using bwrite_lone by blast+
    obtain c3 where "brelse p b (disk_write b ?c2) = Ret c3" "quiet c3" "disk c3 = disk (disk_write b ?c2)"
      using brelse_lone [OF w(2)] by blast
    then show ?thesis using b f w(1) True by (simp add: use_block_def disk_write_def)
  next
    case False
    then have "?c2 = c1" using ds(2) b(5) upd_same [of c1 b] by simp
    moreover obtain c3 where "brelse p b c1 = Ret c3" "quiet c3" "disk c3 = disk c1" using brelse_lone [OF b(2)] by blast
    ultimately show ?thesis using b f False by (simp add: use_block_def)
  qed
qed

section \<open>The interface to the file system\<close>

locale sector_store =
  fixes use :: "u32 \<Rightarrow> (u8 list \<Rightarrow> (u8 list \<times> bool) res) \<Rightarrow> 's \<Rightarrow> (u8 list \<times> 's) res"
    and view :: "'s \<Rightarrow> memory"
    and rest :: "'s \<Rightarrow> 'r"
    and ok :: "'s \<Rightarrow> bool"
  assumes use_view: "ok s \<Longrightarrow> sec_ok sec \<Longrightarrow> f (sector (view s) sec) = Ret (ds, w) \<Longrightarrow> length ds = BSIZE \<Longrightarrow>
      w \<or> ds = sector (view s) sec \<Longrightarrow> \<exists>s'. use sec f s = Ret (sector (view s) sec, s') \<and> ok s' \<and> rest s' = rest s
        \<and> view s' = (if w then write_bytes (view s) (sector_addr sec) ds else view s)"
begin

lemma use_read:
  assumes "ok s" "sec_ok sec"
  shows "\<exists>s'. use sec (\<lambda>ds. Ret (ds, False)) s = Ret (sector (view s) sec, s') \<and> ok s' \<and> rest s' = rest s \<and> view s' = view s"
  using use_view [OF assms, of "\<lambda>ds. Ret (ds, False)" "sector (view s) sec" False] by simp

text \<open>A change of a part of a sector is a write of these bytes to the disk.\<close>

lemma use_write:
  assumes "ok s" "sec_ok sec" "f (sector (view s) sec) = Ret (put_at off bs (sector (view s) sec), True)"
    "off + length bs \<le> BSIZE"
  shows "\<exists>s'. use sec f s = Ret (sector (view s) sec, s') \<and> ok s' \<and> rest s' = rest s
    \<and> view s' = write_bytes (view s) (sector_addr sec + of_nat off) bs"
  using use_view [OF assms(1,2), of f "put_at off bs (sector (view s) sec)" True] assms(3,4)
    write_bytes_put_at [of off bs BSIZE "view s" "sector_addr sec"] by (simp add: sector_def)

text \<open>Writing what was just read back changes nothing, and what was written is read.\<close>

lemma write_then_read:
  assumes "ok s" "sec_ok sec" "length bs = BSIZE"
  shows "\<exists>s' s''. use sec (\<lambda>ds. Ret (bs, True)) s = Ret (sector (view s) sec, s')
    \<and> use sec (\<lambda>ds. Ret (ds, False)) s' = Ret (bs, s'') \<and> ok s'' \<and> rest s'' = rest s"
proof -
  obtain s' where "use sec (\<lambda>ds. Ret (bs, True)) s = Ret (sector (view s) sec, s')" "ok s'" "rest s' = rest s"
    "view s' = write_bytes (view s) (sector_addr sec) bs"
    using use_view [OF assms(1,2), of "\<lambda>ds. Ret (bs, True)" bs True] assms(3) by auto
  then show ?thesis using use_read [of s' sec] assms(2,3) by (auto simp: sector_same)
qed

end

interpretation bs: sector_store "use_block p 0" disk "\<lambda>_. ()" quiet
proof
  show "\<exists>c'. use_block p 0 sec f c = Ret (sector (disk c) sec, c') \<and> quiet c' \<and> () = ()
      \<and> disk c' = (if w then write_bytes (disk c) (sector_addr sec) ds else disk c)"
    if q: "quiet c" "sec_ok sec" and f: "f (sector (disk c) sec) = Ret (ds, w)" and
      ds: "length ds = BSIZE" "w \<or> ds = sector (disk c) sec" for c sec f ds w
    using use_block_quiet [of c sec f ds w p] q f ds by blast
qed

section \<open>Properties\<close>



text \<open>(C26) The linked list of buffers implements an order of use: \<^verbatim>\<open>bget\<close> returns the buffer that caches the
  sector, else recycles the least recently used buffer without references; dropping the last
  reference with \<^verbatim>\<open>brelse\<close> makes the buffer the most recently used one and keeps the order of the others.\<close>

theorem bcache_lru_order:
  assumes "lru c xs" and "set xs = {0..<NBUF}" and "b < NBUF"
  shows "(\<forall>d sec. bget_entry d sec c =
      (case find (\<lambda>x. dev (node c x) = d \<and> sectorno (node c x) = sec) xs of
         Some x \<Rightarrow> Ret (x, upd x (\<lambda>y. y\<lparr>refcnt := refcnt y + 1\<rparr>) c)
       | None \<Rightarrow>
          (case find (\<lambda>x. refcnt (node c x) = 0) (rev xs) of
             Some x \<Rightarrow> Ret (x, upd x (\<lambda>y. y\<lparr>dev := d, sectorno := sec, valid := False, refcnt := 1\<rparr>) c)
           | None \<Rightarrow> Panic ''bget: no buffers'')))
    \<and> lru (brelse_unref b c) (if refcnt (node c b) = 1 then b # removeAll b xs else xs)"
proof (intro conjI allI)
  show "bget_entry d sec c = (case find (\<lambda>x. dev (node c x) = d \<and> sectorno (node c x) = sec) xs of
         Some x \<Rightarrow> Ret (x, upd x (\<lambda>y. y\<lparr>refcnt := refcnt y + 1\<rparr>) c)
       | None \<Rightarrow> (case find (\<lambda>x. refcnt (node c x) = 0) (rev xs) of
             Some x \<Rightarrow> Ret (x, upd x (\<lambda>y. y\<lparr>dev := d, sectorno := sec, valid := False, refcnt := 1\<rparr>) c)
           | None \<Rightarrow> Panic ''bget: no buffers''))" for d sec
    by (simp add: bget_entry_def find_cached_lru [OF assms(1)] find_unused_lru [OF assms(1)] split: option.splits)
  let ?c1 = "upd b (\<lambda>x. x\<lparr>refcnt := refcnt x - 1\<rparr>) c"
  have "lru ?c1 xs" using assms(1) by simp
  from lru_move_front [OF this assms(2,3)] assms(1)
  show "lru (brelse_unref b c) (if refcnt (node c b) = 1 then b # removeAll b xs else xs)"
    by (cases "refcnt (node c b) = 1") (simp_all add: brelse_unref_def Let_def)
qed

theorem bcache_lru_order_witness:
  "lru (brelse_unref 0 (binit \<lparr>node = (\<lambda>_. undefined), disk = (\<lambda>_. 0)\<rparr>)) (rev [0..<NBUF])"
proof -
  let ?c = "binit \<lparr>node = (\<lambda>_. undefined), disk = (\<lambda>_. 0)\<rparr>"
  have "refcnt (node ?c 0) = 0" unfolding binit_def using binit_fold_fields [of 0 "[0..<NBUF]"] by (simp add: NBUF_def)
  moreover have "0 < NBUF" by (simp add: NBUF_def)
  moreover have "set (rev [0..<NBUF]) = {0..<NBUF}" by simp
  ultimately show ?thesis using bcache_lru_order [OF lru_binit [of "\<lparr>node = (\<lambda>_. undefined), disk = (\<lambda>_. 0)\<rparr>"], of 0, THEN conjunct2] by simp
qed

end
