(* ===== verification/Fat32.thy ===== *)
theory Fat32
  imports Bio Vm
begin

text \<open>
  The volume part of \<^verbatim>\<open>kernel/fat32.c\<close>: the boot parameter block, the file allocation table, clusters
  and the reading and writing of files. The state \<open>fsys\<close> holds the volume parameters, the
  buffer cache with the disk, the entries of the entry cache, the kernel's memory, the process
  that runs, and the address on its kernel stack of the local variable that a function hands to
  \<^verbatim>\<open>rw_clus\<close>. Sector, cluster and file offsets are 32-bit words, as in the code.
\<close>

section \<open>Data\<close>

definition ATTR_READ_ONLY :: u8 where [simp]: "ATTR_READ_ONLY = 0x01"
definition ATTR_SYSTEM :: u8 where [simp]: "ATTR_SYSTEM = 0x04"
definition ATTR_DIRECTORY :: u8 where [simp]: "ATTR_DIRECTORY = 0x10"
definition ATTR_ARCHIVE :: u8 where [simp]: "ATTR_ARCHIVE = 0x20"
definition ATTR_LONG_NAME :: u8 where [simp]: "ATTR_LONG_NAME = 0x0F"
definition FAT32_BAD :: u32 where [simp]: "FAT32_BAD = 0x0ffffff7"
definition FAT32_EOC :: u32 where [simp]: "FAT32_EOC = 0x0ffffff8"
definition FAT32_EOF :: u32 where [simp]: "FAT32_EOF = 0x0fffffff"
definition FAT32_MAX_FILENAME :: nat where [simp]: "FAT32_MAX_FILENAME = 255"
definition ENTRY_CACHE_NUM :: nat where [simp]: "ENTRY_CACHE_NUM = 50"

record fat =
  first_data_sec :: u32
  data_sec_cnt :: u32
  data_clus_cnt :: u32
  byts_per_clus :: u32
  byts_per_sec :: u16
  sec_per_clus :: u8
  rsvd_sec_cnt :: u16
  fat_cnt :: u8
  hidd_sec :: u32
  tot_sec :: u32
  fat_sz :: u32
  root_clus :: u32

record dirent =
  filename :: "u8 list"
  attribute :: u8
  first_clus :: u32
  file_size :: u32
  cur_clus :: u32
  clus_cnt :: u32
  edev :: u8
  dirty :: bool
  evalid :: int
  ref :: int
  eoff :: u32
  parent :: nat
  enxt :: nat
  eprev :: nat
  elk :: sleeplock

text \<open>Entries are named by numbers: those of \<^verbatim>\<open>ecache.entries\<close> from 0, then \<^verbatim>\<open>root\<close>; numbers above stand for
  \<^verbatim>\<open>struct dirent\<close> variables of callers.\<close>

abbreviation root :: nat where "root \<equiv> ENTRY_CACHE_NUM"

record fsys =
  vol :: fat
  bufs :: bcache
  ents :: "nat \<Rightarrow> dirent"
  kst :: kstate
  cur_pid :: int
  cur_pt :: u64
  ksp :: u64

abbreviation set_ent :: "nat \<Rightarrow> (dirent \<Rightarrow> dirent) \<Rightarrow> fsys \<Rightarrow> fsys" where
  "set_ent e f s \<equiv> s\<lparr>ents := (ents s)(e := f (ents s e))\<rparr>"

text \<open>Little-endian fields of a sector.\<close>

definition u16_at :: "u8 list \<Rightarrow> nat \<Rightarrow> u16" where
  "u16_at ds i = le_word (take 2 (drop i ds))"

definition u32_at :: "u8 list \<Rightarrow> nat \<Rightarrow> u32" where
  "u32_at ds i = le_word (take 4 (drop i ds))"

text \<open>\<^verbatim>\<open>bread\<close>, a use of the buffer, \<^verbatim>\<open>bwrite\<close> when it is to be written, and \<^verbatim>\<open>brelse\<close>.\<close>

definition use_sec :: "u32 \<Rightarrow> u32 \<Rightarrow> (u8 list \<Rightarrow> (u8 list \<times> bool) res) \<Rightarrow> fsys \<Rightarrow> (u8 list \<times> fsys) res" where
  "use_sec d sec f s =
     bind_res (use_block (cur_pid s) d sec f (bufs s)) (\<lambda>(ds, c). Ret (ds, s\<lparr>bufs := c\<rparr>))"

definition read_sec :: "u32 \<Rightarrow> fsys \<Rightarrow> (u8 list \<times> fsys) res" where
  "read_sec sec = use_sec 0 sec (\<lambda>ds. Ret (ds, False))"

definition change_sec :: "u32 \<Rightarrow> (u8 list \<Rightarrow> u8 list) \<Rightarrow> fsys \<Rightarrow> fsys res" where
  "change_sec sec f s = bind_res (use_sec 0 sec (\<lambda>ds. Ret (f ds, True)) s) (\<lambda>(ds, s1). Ret s1)"

section \<open>The boot parameter block\<close>

definition bpb_signature :: "u8 list" where
  "bpb_signature = [0x46, 0x41, 0x54, 0x33, 0x32]"

definition read_bpb :: "u8 list \<Rightarrow> fat" where
  "read_bpb ds =
     (let spc = ds ! 13; rsvd = u16_at ds 14; cnt = ds ! 16; hidd = u32_at ds 28;
          tot = u32_at ds 32; sz = u32_at ds 36; bps = u16_at ds 11;
          rsvd = rsvd + ucast hidd;
          fds = ucast rsvd + ucast cnt * sz;
          dsc = tot - fds
      in \<lparr>first_data_sec = fds, data_sec_cnt = dsc, data_clus_cnt = dsc div ucast spc,
          byts_per_clus = ucast spc * ucast bps, byts_per_sec = bps, sec_per_clus = spc,
          rsvd_sec_cnt = rsvd, fat_cnt = cnt, hidd_sec = hidd, tot_sec = tot, fat_sz = sz,
          root_clus = u32_at ds 44\<rparr>)"

definition root_dirent :: "u32 \<Rightarrow> dirent" where
  "root_dirent clus =
     \<lparr>filename = replicate (FAT32_MAX_FILENAME + 1) 0, attribute = ATTR_DIRECTORY OR ATTR_SYSTEM,
      first_clus = clus, file_size = 0, cur_clus = clus, clus_cnt = 0, edev = 0, dirty = False,
      evalid = 1, ref = 0, eoff = 0, parent = 0, enxt = root, eprev = root, elk = initsleeplock\<rparr>"

definition elink_front :: "nat \<Rightarrow> fsys \<Rightarrow> fsys" where
  "elink_front e s =
     (let s1 = set_ent e (\<lambda>x. x\<lparr>enxt := enxt (ents s root)\<rparr>) s;
          s2 = set_ent e (\<lambda>x. x\<lparr>eprev := root\<rparr>) s1;
          s3 = set_ent (enxt (ents s2 root)) (\<lambda>x. x\<lparr>eprev := e\<rparr>) s2
      in set_ent root (\<lambda>x. x\<lparr>enxt := e\<rparr>) s3)"

definition init_entry :: "nat \<Rightarrow> fsys \<Rightarrow> fsys" where
  "init_entry e s = elink_front e
     (set_ent e (\<lambda>x. x\<lparr>edev := 0, evalid := 0, ref := 0, dirty := False, parent := 0, elk := initsleeplock\<rparr>) s)"

definition fat32_init :: "fsys \<Rightarrow> (int \<times> fsys) res" where
  "fat32_init s = bind_res (use_sec 0 0 (\<lambda>ds.
       if take 5 (drop 82 ds) \<noteq> bpb_signature then Panic ''not FAT32 volume'' else Ret (ds, False)) s) (\<lambda>(ds, s1).
     if byts_per_sec (read_bpb ds) \<noteq> of_nat BSIZE then Panic ''byts_per_sec != BSIZE''
     else Ret (0, fold init_entry [0..<ENTRY_CACHE_NUM]
       (s1\<lparr>vol := read_bpb ds, ents := (ents s1)(root := root_dirent (root_clus (read_bpb ds)))\<rparr>)))"

section \<open>The file allocation table\<close>

definition bad_clus :: "fat \<Rightarrow> u32 \<Rightarrow> bool" where
  "bad_clus f cluster \<longleftrightarrow> cluster < 2 \<or> cluster > data_clus_cnt f + 1"

definition first_sec_of_clus :: "fat \<Rightarrow> u32 \<Rightarrow> u32 res" where
  "first_sec_of_clus f cluster =
     (if bad_clus f cluster then Panic ''cluster number error''
      else Ret ((cluster - 2) * ucast (sec_per_clus f) + first_data_sec f))"

definition fat_sec_of_clus :: "fat \<Rightarrow> u32 \<Rightarrow> u8 \<Rightarrow> u32 res" where
  "fat_sec_of_clus f cluster fat_num =
     (if bad_clus f cluster then Panic ''cluster number error''
      else if fat_num > fat_cnt f then Panic ''FAT number error''
      else Ret (ucast (rsvd_sec_cnt f) + push_bit 2 cluster div ucast (byts_per_sec f)
                + fat_sz f * (ucast fat_num - 1)))"

definition fat_offset_of_clus :: "fat \<Rightarrow> u32 \<Rightarrow> u32 res" where
  "fat_offset_of_clus f cluster =
     (if bad_clus f cluster then Panic ''cluster number error''
      else Ret (push_bit 2 cluster mod ucast (byts_per_sec f)))"

definition read_fat :: "u32 \<Rightarrow> fsys \<Rightarrow> (u32 \<times> fsys) res" where
  "read_fat cluster s =
     (if cluster < 2 then Panic ''cluster number error when read FAT ''
      else if cluster \<ge> FAT32_EOC then Ret (cluster, s)
      else if cluster > data_clus_cnt (vol s) + 1 then Ret (0, s)
      else bind_res (fat_sec_of_clus (vol s) cluster 1) (\<lambda>sec.
        bind_res (read_sec sec s) (\<lambda>(ds, s1).
        bind_res (fat_offset_of_clus (vol s) cluster) (\<lambda>off. Ret (u32_at ds (unat off), s1)))))"

definition write_fat :: "u32 \<Rightarrow> u32 \<Rightarrow> fsys \<Rightarrow> fsys res" where
  "write_fat cluster content s =
     (if cluster < 2 then Panic ''cluster number error when write in FAT''
      else bind_res (fat_sec_of_clus (vol s) cluster 1) (\<lambda>sec.
        bind_res (fat_offset_of_clus (vol s) cluster) (\<lambda>off.
          change_sec sec (put_at (unat off) (le_bytes 4 content)) s)))"

primrec zero_clus_loop :: "nat \<Rightarrow> u32 \<Rightarrow> fsys \<Rightarrow> fsys res" where
  "zero_clus_loop 0 sec s = Ret s"
| "zero_clus_loop (Suc n) sec s =
     bind_res (change_sec sec (\<lambda>ds. replicate BSIZE 0) s) (zero_clus_loop n (sec + 1))"

definition zero_clus :: "u32 \<Rightarrow> fsys \<Rightarrow> fsys res" where
  "zero_clus cluster s =
     (if bad_clus (vol s) cluster then Panic ''cluster number error''
      else bind_res (first_sec_of_clus (vol s) cluster) (\<lambda>sec. zero_clus_loop (unat (sec_per_clus (vol s))) sec s))"

text \<open>The first free entry of a sector of the table.\<close>

definition free_slot :: "nat \<Rightarrow> u8 list \<Rightarrow> nat option" where
  "free_slot n ds = find (\<lambda>j. u32_at ds (4 * j) = 0) [0..<n]"

primrec alloc_clus_loop :: "nat \<Rightarrow> u32 \<Rightarrow> u32 \<Rightarrow> u8 \<Rightarrow> fsys \<Rightarrow> (u32 \<times> fsys) res" where
  "alloc_clus_loop 0 i sec d s = Panic ''no clusters''"
| "alloc_clus_loop (Suc k) i sec d s =
     (let n = unat (byts_per_sec (vol s) div 4) in
      bind_res (use_sec (ucast d) sec (\<lambda>ds. Ret (case free_slot n ds of
          Some j \<Rightarrow> (put_at (4 * j) (le_bytes 4 FAT32_EOF) ds, True) | None \<Rightarrow> (ds, False))) s) (\<lambda>(ds, s1).
        case free_slot n ds of
          Some j \<Rightarrow> let clus = i * of_nat n + of_nat j + 2 in bind_res (zero_clus clus s1) (\<lambda>s2. Ret (clus, s2))
        | None \<Rightarrow> alloc_clus_loop k (i + 1) (sec + 1) d s1))"

definition alloc_clus :: "u8 \<Rightarrow> fsys \<Rightarrow> (u32 \<times> fsys) res" where
  "alloc_clus d s = alloc_clus_loop (unat (fat_sz (vol s))) 0 (ucast (rsvd_sec_cnt (vol s))) d s"

definition free_clus :: "u32 \<Rightarrow> fsys \<Rightarrow> fsys res" where
  "free_clus cluster = write_fat cluster 0"

section \<open>Reading and writing clusters\<close>

text \<open>One round of the loop of \<^verbatim>\<open>rw_clus\<close> on the sector \<open>sec\<close>, for the \<open>m\<close> bytes at \<open>off\<close> of it. A failed
  \<^verbatim>\<open>either_copyin\<close> may have changed the buffer, which is then not written.\<close>

definition rw_sec :: "bool \<Rightarrow> bool \<Rightarrow> u32 \<Rightarrow> u64 \<Rightarrow> nat \<Rightarrow> u32 \<Rightarrow> fsys \<Rightarrow> (int \<times> fsys) res" where
  "rw_sec wrt user sec data off m s =
     (if wrt
      then bind_res (use_sec 0 sec (\<lambda>ds.
          bind_res (either_copyin (cur_pt s) user data (ucast m) (kst s)) (\<lambda>(bad, bs).
            Ret (put_at off bs ds, bad \<noteq> -1))) s) (\<lambda>(ds, s1).
          bind_res (either_copyin (cur_pt s) user data (ucast m) (kst s)) (\<lambda>(bad, bs). Ret (bad, s1)))
      else bind_res (read_sec sec s) (\<lambda>(ds, s1).
          bind_res (either_copyout (cur_pt s) user data 0 (drop off ds) (ucast m) (kst s)) (\<lambda>(bad, k).
            Ret (bad, s1\<lparr>kst := k\<rparr>))))"

text \<open>\<open>tot\<close> advances by at least one byte, so \<open>n\<close> rounds are enough.\<close>

primrec rw_clus_loop ::
  "nat \<Rightarrow> bool \<Rightarrow> bool \<Rightarrow> u32 \<Rightarrow> u64 \<Rightarrow> u32 \<Rightarrow> u32 \<Rightarrow> u32 \<Rightarrow> fsys \<Rightarrow> (u32 \<times> fsys) res" where
  "rw_clus_loop 0 wrt user sec data off tot n s = (if tot < n then Stuck else Ret (tot, s))"
| "rw_clus_loop (Suc k) wrt user sec data off tot n s =
     (if tot < n
      then let m = of_nat BSIZE - off mod of_nat BSIZE; m = (if n - tot < m then n - tot else m) in
        bind_res (rw_sec wrt user sec data (unat (off mod of_nat BSIZE)) m s) (\<lambda>(bad, s1).
          if bad = -1 then Ret (tot, s1)
          else rw_clus_loop k wrt user (sec + 1) (data + ucast m) (off + m) (tot + m) n s1)
      else Ret (tot, s))"

definition rw_clus :: "u32 \<Rightarrow> bool \<Rightarrow> bool \<Rightarrow> u64 \<Rightarrow> u32 \<Rightarrow> u32 \<Rightarrow> fsys \<Rightarrow> (u32 \<times> fsys) res" where
  "rw_clus cluster wrt user data off n s =
     (if off + n > byts_per_clus (vol s) then Panic ''offset out of range''
      else bind_res (first_sec_of_clus (vol s) cluster) (\<lambda>sec.
        rw_clus_loop (unat n) wrt user (sec + off div ucast (byts_per_sec (vol s))) data
          (off mod ucast (byts_per_sec (vol s))) 0 n s))"

section \<open>Files as chains of clusters\<close>

text \<open>The first loop of \<^verbatim>\<open>reloc_clus\<close> advances \<^verbatim>\<open>clus_cnt\<close> up to \<^verbatim>\<open>clus_num\<close>, \<open>k\<close> rounds; \<open>True\<close> when the chain
  ended before that. \<^verbatim>\<open>clus\<close> is an \<^verbatim>\<open>int\<close>, so its comparison with \<^verbatim>\<open>FAT32_EOC\<close> is signed.\<close>

primrec reloc_forward :: "nat \<Rightarrow> nat \<Rightarrow> bool \<Rightarrow> fsys \<Rightarrow> (bool \<times> fsys) res" where
  "reloc_forward 0 e alloc s = Ret (False, s)"
| "reloc_forward (Suc k) e alloc s =
     bind_res (read_fat (cur_clus (ents s e)) s) (\<lambda>(clus, s1).
       if FAT32_EOC \<le>s clus
       then if alloc
         then bind_res (alloc_clus (edev (ents s1 e)) s1) (\<lambda>(c, s2).
           bind_res (write_fat (cur_clus (ents s2 e)) c s2) (\<lambda>s3.
             reloc_forward k e alloc (set_ent e (\<lambda>x. x\<lparr>cur_clus := c, clus_cnt := clus_cnt x + 1\<rparr>) s3)))
         else Ret (True, set_ent e (\<lambda>x. x\<lparr>cur_clus := first_clus x, clus_cnt := 0\<rparr>) s1)
       else if clus = FAT32_BAD then Panic ''encounter a bad cluster''
       else reloc_forward k e alloc (set_ent e (\<lambda>x. x\<lparr>cur_clus := clus, clus_cnt := clus_cnt x + 1\<rparr>) s1))"

primrec reloc_again :: "nat \<Rightarrow> nat \<Rightarrow> fsys \<Rightarrow> fsys res" where
  "reloc_again 0 e s = Ret s"
| "reloc_again (Suc k) e s =
     bind_res (read_fat (cur_clus (ents s e)) s) (\<lambda>(clus, s1).
       if clus \<ge> FAT32_EOC then Panic ''reloc_clus''
       else reloc_again k e (set_ent e (\<lambda>x. x\<lparr>cur_clus := clus, clus_cnt := clus_cnt x + 1\<rparr>) s1))"

definition reloc_clus :: "nat \<Rightarrow> u32 \<Rightarrow> bool \<Rightarrow> fsys \<Rightarrow> (int \<times> fsys) res" where
  "reloc_clus e off alloc s =
     (let clus_num = off div byts_per_clus (vol s) in
      bind_res (reloc_forward (unat clus_num - unat (clus_cnt (ents s e))) e alloc s) (\<lambda>(ended, s1).
        if ended then Ret (-1, s1)
        else if clus_num < clus_cnt (ents s1 e)
          then bind_res (reloc_again (unat clus_num) e (set_ent e (\<lambda>x. x\<lparr>cur_clus := first_clus x, clus_cnt := 0\<rparr>) s1))
            (\<lambda>s2. Ret (uint (off mod byts_per_clus (vol s2)), s2))
          else Ret (uint (off mod byts_per_clus (vol s1)), s1)))"

primrec eread_loop :: "nat \<Rightarrow> nat \<Rightarrow> bool \<Rightarrow> u64 \<Rightarrow> u32 \<Rightarrow> u32 \<Rightarrow> u32 \<Rightarrow> fsys \<Rightarrow> (u32 \<times> fsys) res" where
  "eread_loop 0 e user dst off tot n s =
     (if cur_clus (ents s e) < FAT32_EOC \<and> tot < n then Stuck else Ret (tot, s))"
| "eread_loop (Suc k) e user dst off tot n s =
     (if cur_clus (ents s e) < FAT32_EOC \<and> tot < n
      then bind_res (reloc_clus e off False s) (\<lambda>(r, s1).
        let m = byts_per_clus (vol s1) - off mod byts_per_clus (vol s1); m = (if n - tot < m then n - tot else m) in
        bind_res (rw_clus (cur_clus (ents s1 e)) False user dst (off mod byts_per_clus (vol s1)) m s1) (\<lambda>(got, s2).
          if got \<noteq> m then Ret (tot, s2)
          else eread_loop k e user (dst + ucast m) (off + m) (tot + m) n s2))
      else Ret (tot, s))"

definition eread :: "nat \<Rightarrow> bool \<Rightarrow> u64 \<Rightarrow> u32 \<Rightarrow> u32 \<Rightarrow> fsys \<Rightarrow> (u32 \<times> fsys) res" where
  "eread e user dst off n s =
     (if off > file_size (ents s e) \<or> off + n < off \<or> attribute (ents s e) AND ATTR_DIRECTORY \<noteq> 0 then Ret (0, s)
      else let n = (if off + n > file_size (ents s e) then file_size (ents s e) - off else n) in
        eread_loop (unat n) e user dst off 0 n s)"

primrec ewrite_loop :: "nat \<Rightarrow> nat \<Rightarrow> bool \<Rightarrow> u64 \<Rightarrow> u32 \<Rightarrow> u32 \<Rightarrow> u32 \<Rightarrow> fsys \<Rightarrow> (u32 \<times> u32 \<times> fsys) res" where
  "ewrite_loop 0 e user src off tot n s = (if tot < n then Stuck else Ret (tot, off, s))"
| "ewrite_loop (Suc k) e user src off tot n s =
     (if tot < n
      then bind_res (reloc_clus e off True s) (\<lambda>(r, s1).
        let m = byts_per_clus (vol s1) - off mod byts_per_clus (vol s1); m = (if n - tot < m then n - tot else m) in
        bind_res (rw_clus (cur_clus (ents s1 e)) True user src (off mod byts_per_clus (vol s1)) m s1) (\<lambda>(put, s2).
          if put \<noteq> m then Ret (tot, off, s2)
          else ewrite_loop k e user (src + ucast m) (off + m) (tot + m) n s2))
      else Ret (tot, off, s))"

definition ewrite :: "nat \<Rightarrow> bool \<Rightarrow> u64 \<Rightarrow> u32 \<Rightarrow> u32 \<Rightarrow> fsys \<Rightarrow> (int \<times> fsys) res" where
  "ewrite e user src off n s =
     (if off > file_size (ents s e) \<or> off + n < off \<or> uint off + uint n > 0xffffffff
         \<or> attribute (ents s e) AND ATTR_READ_ONLY \<noteq> 0 then Ret (-1, s)
      else bind_res (if first_clus (ents s e) = 0
          then bind_res (alloc_clus (edev (ents s e)) s) (\<lambda>(c, s1).
            Ret (set_ent e (\<lambda>x. x\<lparr>cur_clus := c, first_clus := c, clus_cnt := 0, dirty := True\<rparr>) s1))
          else Ret s) (\<lambda>s1.
        bind_res (ewrite_loop (unat n) e user src off 0 n s1) (\<lambda>(tot, off', s2).
          Ret (sint tot, if n > 0 \<and> off' > file_size (ents s2 e)
            then set_ent e (\<lambda>x. x\<lparr>file_size := off', dirty := True\<rparr>) s2 else s2))))"

text \<open>\<^verbatim>\<open>etrunc\<close> and the two loops of \<^verbatim>\<open>etruncate\<close>. A chain has no more clusters than the volume, which bounds the
  rounds; a chain that never ends is \<open>Stuck\<close>. The variable \<^verbatim>\<open>i\<close> of \<^verbatim>\<open>etruncate\<close> stays 0.\<close>

definition in_chain :: "u32 \<Rightarrow> bool" where
  "in_chain clus \<longleftrightarrow> clus \<ge> 2 \<and> clus < FAT32_EOC"

primrec etrunc_loop :: "nat \<Rightarrow> u32 \<Rightarrow> fsys \<Rightarrow> fsys res" where
  "etrunc_loop 0 clus s = (if in_chain clus then Stuck else Ret s)"
| "etrunc_loop (Suc k) clus s =
     (if in_chain clus
      then bind_res (read_fat clus s) (\<lambda>(next, s1). bind_res (free_clus clus s1) (etrunc_loop k next))
      else Ret s)"

definition chain_bound :: "fsys \<Rightarrow> nat" where
  "chain_bound s = unat (data_clus_cnt (vol s)) + 2"

definition etrunc :: "nat \<Rightarrow> fsys \<Rightarrow> fsys res" where
  "etrunc e s = bind_res (etrunc_loop (chain_bound s) (first_clus (ents s e)) s) (\<lambda>s1.
     Ret (set_ent e (\<lambda>x. x\<lparr>file_size := 0, first_clus := 0, dirty := True\<rparr>) s1))"

primrec etruncate_skip :: "nat \<Rightarrow> bool \<Rightarrow> u32 \<Rightarrow> fsys \<Rightarrow> (u32 \<times> fsys) res" where
  "etruncate_skip 0 go clus s = (if go \<and> in_chain clus then Stuck else Ret (clus, s))"
| "etruncate_skip (Suc k) go clus s =
     (if go \<and> in_chain clus then bind_res (read_fat clus s) (\<lambda>(next, s1). etruncate_skip k go next s1)
      else Ret (clus, s))"

definition etruncate :: "nat \<Rightarrow> u32 \<Rightarrow> fsys \<Rightarrow> (int \<times> fsys) res" where
  "etruncate e len s =
     (if len > file_size (ents s e) then Ret (-1, s)
      else let s1 = set_ent e (\<lambda>x. x\<lparr>file_size := len\<rparr>) s;
               clus_num = (if len mod byts_per_clus (vol s) \<noteq> 0 then len div byts_per_clus (vol s) + 1
                           else len div byts_per_clus (vol s)) in
        bind_res (etruncate_skip (chain_bound s) (0 <s clus_num) (first_clus (ents s e)) s1) (\<lambda>(clus, s2).
        bind_res (etrunc_loop (chain_bound s) clus s2) (\<lambda>s3. Ret (0, s3))))"

end
