(* ===== verification/Fatvol.thy ===== *)
theory Fatvol
  imports Fat32
begin

text \<open>
  What the operations of \<^verbatim>\<open>Fat32\<close> do on a well-formed volume, in terms of the bytes of the disk: the
  table is an array of 32-bit entries, a cluster is a run of bytes, and a file is the
  bytes of the clusters of its chain.
\<close>

section \<open>Well-formed volumes\<close>

definition vol_ok :: "fat \<Rightarrow> bool" where
  "vol_ok f \<longleftrightarrow> byts_per_sec f = 512 \<and> sec_per_clus f \<noteq> 0
     \<and> byts_per_clus f = ucast (sec_per_clus f) * 512 \<and> fat_cnt f \<noteq> 0
     \<and> unat (data_clus_cnt f) + 1 < 0x0ffffff7
     \<and> unat (rsvd_sec_cnt f) + unat (fat_sz f) \<le> unat (first_data_sec f)
     \<and> (unat (data_clus_cnt f) + 2) * 4 \<le> unat (fat_sz f) * 512
     \<and> unat (first_data_sec f) + unat (data_clus_cnt f) * unat (sec_per_clus f) \<le> 0x800000"

definition fs_ok :: "fsys \<Rightarrow> bool" where
  "fs_ok s \<longleftrightarrow> quiet (bufs s) \<and> vol_ok (vol s)"

abbreviation dsk :: "fsys \<Rightarrow> memory" where "dsk s \<equiv> disk (bufs s)"

definition clus_ok :: "fat \<Rightarrow> u32 \<Rightarrow> bool" where
  "clus_ok f c \<longleftrightarrow> 2 \<le> unat c \<and> unat c \<le> unat (data_clus_cnt f) + 1"

text \<open>Byte addresses of a table entry and of a cluster.\<close>

definition fat_addr :: "fat \<Rightarrow> u32 \<Rightarrow> u64" where
  "fat_addr f c = of_nat (unat (rsvd_sec_cnt f) * 512 + unat c * 4)"

definition clus_addr :: "fat \<Rightarrow> u32 \<Rightarrow> u64" where
  "clus_addr f c = of_nat ((unat (first_data_sec f) + (unat c - 2) * unat (sec_per_clus f)) * 512)"

definition fat_entry :: "fsys \<Rightarrow> u32 \<Rightarrow> u32" where
  "fat_entry s c = le_word (read_bytes (dsk s) (fat_addr (vol s) c) 4)"

text \<open>\<open>io s s' d\<close>: only the cache and the disk changed, the disk to \<open>d\<close>.\<close>

definition io :: "fsys \<Rightarrow> fsys \<Rightarrow> memory \<Rightarrow> bool" where
  "io s s' d \<longleftrightarrow> (\<exists>c. s' = s\<lparr>bufs := c\<rparr> \<and> quiet c \<and> disk c = d)"

lemma ioD:
  "io s s' d \<Longrightarrow> vol s' = vol s" "io s s' d \<Longrightarrow> ents s' = ents s" "io s s' d \<Longrightarrow> kst s' = kst s"
  "io s s' d \<Longrightarrow> cur_pid s' = cur_pid s" "io s s' d \<Longrightarrow> cur_pt s' = cur_pt s"
  "io s s' d \<Longrightarrow> dsk s' = d" "io s s' d \<Longrightarrow> quiet (bufs s')" "io s s' d \<Longrightarrow> ksp s' = ksp s"
  by (auto simp: io_def)

lemma io_trans: "io s s1 d \<Longrightarrow> io s1 s2 d' \<Longrightarrow> io s s2 d'"
  unfolding io_def by auto

lemma io_fs_ok: "io s s' d \<Longrightarrow> fs_ok s \<Longrightarrow> fs_ok s'"
  by (auto simp: fs_ok_def io_def)

lemma io_refl: "fs_ok s \<Longrightarrow> io s s (dsk s)"
  unfolding io_def fs_ok_def by (rule exI [of _ "bufs s"]) simp

section \<open>The cache as the file system sees it\<close>

interpretation fsec: sector_store "use_sec 0" dsk "\<lambda>s. (vol s, ents s, kst s, cur_pid s, cur_pt s, ksp s)" "\<lambda>s. quiet (bufs s)"
proof
  show "\<exists>s'. use_sec 0 sec f s = Ret (sector (dsk s) sec, s') \<and> quiet (bufs s')
      \<and> (vol s', ents s', kst s', cur_pid s', cur_pt s', ksp s') = (vol s, ents s, kst s, cur_pid s, cur_pt s, ksp s)
      \<and> dsk s' = (if w then write_bytes (dsk s) (sector_addr sec) ds else dsk s)"
    if q: "quiet (bufs s)" "sec_ok sec" and f: "f (sector (dsk s) sec) = Ret (ds, w)" and
      ds: "length ds = BSIZE" "w \<or> ds = sector (dsk s) sec" for s sec f ds w
    using bs.use_view [of "bufs s" sec f ds w "cur_pid s"] q f ds by (fastforce simp: use_sec_def)
qed

lemma io_rest:
  "(vol s', ents s', kst s', cur_pid s', cur_pt s', ksp s') = (vol s, ents s, kst s, cur_pid s, cur_pt s, ksp s) \<Longrightarrow>
   quiet (bufs s') \<Longrightarrow> dsk s' = d \<Longrightarrow> io s s' d"
  unfolding io_def by (rule exI [of _ "bufs s'"]) simp

lemma read_sec_io:
  assumes "fs_ok s" "sec_ok sec"
  shows "\<exists>s'. read_sec sec s = Ret (sector (dsk s) sec, s') \<and> io s s' (dsk s)"
proof -
  have "quiet (bufs s)" using assms by (simp add: fs_ok_def)
  then show ?thesis using fsec.use_read [of s sec] assms(2) io_rest unfolding read_sec_def by metis
qed

lemma change_sec_io:
  assumes "fs_ok s" "sec_ok sec" "off + length bs \<le> 512"
  shows "\<exists>s'. change_sec sec (put_at off bs) s = Ret s' \<and> io s s' (write_bytes (dsk s) (sector_addr sec + of_nat off) bs)"
proof -
  have "quiet (bufs s)" using assms by (simp add: fs_ok_def)
  then obtain s' where u: "use_sec 0 sec (\<lambda>ds. Ret (put_at off bs ds, True)) s = Ret (sector (dsk s) sec, s')"
    and r: "(vol s', ents s', kst s', cur_pid s', cur_pt s', ksp s') = (vol s, ents s, kst s, cur_pid s, cur_pt s, ksp s)"
      "quiet (bufs s')" "dsk s' = write_bytes (dsk s) (sector_addr sec + of_nat off) bs"
    using fsec.use_write [of s sec "\<lambda>ds. Ret (put_at off bs ds, True)" off bs] assms(2,3) by auto
  show ?thesis using u io_rest [OF r] by (simp add: change_sec_def)
qed

section \<open>Sector arithmetic\<close>

lemma sector_addr_nat:
  assumes "sec_ok sec" shows "sector_addr sec = of_nat (unat sec * 512)"
proof -
  have "unat sec * 512 < 2 ^ 64" using unat_u32_less [of sec] by simp
  then have "unat (of_nat (unat sec * 512) :: u64) = unat sec * 512" by (rule unat_of_nat_u64)
  then show ?thesis using unat_sector_addr [OF assms] by (metis word_unat_eq_iff)
qed

lemma vol_okD:
  assumes "vol_ok f"
  shows "byts_per_sec f = 512" "0 < unat (sec_per_clus f)" "unat (byts_per_clus f) = unat (sec_per_clus f) * 512"
    "unat (rsvd_sec_cnt f) + unat (fat_sz f) \<le> unat (first_data_sec f)" "unat (first_data_sec f) \<le> 0x800000"
    "(unat (data_clus_cnt f) + 2) * 4 \<le> unat (fat_sz f) * 512" "\<not> fat_cnt f < 1"
    "unat (data_clus_cnt f) + 1 < 0x0ffffff7"
    "unat (first_data_sec f) + unat (data_clus_cnt f) * unat (sec_per_clus f) \<le> 0x800000"
proof -
  show "unat (byts_per_clus f) = unat (sec_per_clus f) * 512"
    using assms unsigned_less [where w = "sec_per_clus f" and 'a = nat]
    by (simp add: vol_ok_def unat_word_ariths unsigned_ucast_eq take_bit_nat_eq_self)
  show "\<not> fat_cnt f < 1" using assms by (simp add: vol_ok_def)
qed (use assms in \<open>auto simp: vol_ok_def word_unat_eq_iff\<close>)

lemma clus_bound: "vol_ok f \<Longrightarrow> clus_ok f c \<Longrightarrow> unat c < 0x40000000 \<and> c < FAT32_BAD"
proof -
  assume v: "vol_ok f" and c: "clus_ok f c"
  have "unat c < 0x0ffffff7" using vol_okD(8) [OF v] c by (simp add: clus_ok_def)
  then show "unat c < 0x40000000 \<and> c < FAT32_BAD" by (simp add: word_less_nat_alt)
qed

section \<open>The file allocation table\<close>

lemma unat_shl2: "unat (c :: u32) < 0x40000000 \<Longrightarrow> unat (push_bit 2 c) = unat c * 4"
  by (simp add: push_bit_eq_mult unat_word_ariths)

lemma not_bad_clus: "vol_ok f \<Longrightarrow> clus_ok f c \<Longrightarrow> \<not> bad_clus f c"
  using vol_okD(8) [of f]
  by (auto simp: bad_clus_def clus_ok_def word_less_nat_alt unat_word_ariths)

text \<open>The sector and the offset the code computes for an entry are those of its byte address.\<close>

lemma quad_mod_512: "(a::nat) * 4 mod 512 + 4 \<le> 512"
proof -
  have "a * 4 mod 512 = a mod 128 * 4" using mult_mod_left [of a 128 4] by simp
  moreover have "a mod 128 < 128" by simp
  ultimately show ?thesis by linarith
qed

lemma fat_sec_of_clus_ok:
  assumes v: "vol_ok f" and c: "clus_ok f c"
  shows "\<exists>sec off. fat_sec_of_clus f c 1 = Ret sec \<and> fat_offset_of_clus f c = Ret off \<and> sec_ok sec
    \<and> unat off + 4 \<le> 512 \<and> sector_addr sec + of_nat (unat off) = fat_addr f c"
proof -
  let ?sec = "ucast (rsvd_sec_cnt f) + push_bit 2 c div 512 :: u32" and ?off = "push_bit 2 c mod 512 :: u32"
  note vd = vol_okD [OF v]
  have c4: "unat (push_bit 2 c) = unat c * 4" using clus_bound [OF v c] by (simp add: unat_shl2)
  have d: "unat (push_bit 2 c div 512 :: u32) = unat c * 4 div 512" by (simp add: unat_div_distrib c4)
  have cm: "unat c * 4 + 4 \<le> unat (fat_sz f) * 512" using vd(6) c by (simp add: clus_ok_def)
  then have "unat c * 4 div 512 < unat (fat_sz f)" by (simp add: div_less_iff_less_mult)
  then have s: "unat ?sec = unat (rsvd_sec_cnt f) + unat c * 4 div 512"
    "unat (rsvd_sec_cnt f) + unat c * 4 div 512 < 0x800000"
    using vd(4,5) d by (simp_all add: unat_word_ariths unsigned_ucast_eq take_bit_nat_eq_self)
  then have ok: "sec_ok ?sec" by (simp add: sec_ok_def word_less_nat_alt)
  have o: "unat ?off = unat c * 4 mod 512" by (simp add: unat_mod_distrib c4)
  have m: "unat c * 4 mod 512 + 4 \<le> 512" by (rule quad_mod_512)
  have "unat c * 4 div 512 * 512 + unat c * 4 mod 512 = unat c * 4" by (rule div_mult_mod_eq)
  then have "(unat (rsvd_sec_cnt f) + unat c * 4 div 512) * 512 + unat c * 4 mod 512
      = unat (rsvd_sec_cnt f) * 512 + unat c * 4" by (simp only: add_mult_distrib)
  then have "sector_addr ?sec + of_nat (unat ?off) = fat_addr f c"
    unfolding sector_addr_nat [OF ok] s(1) o fat_addr_def by (metis of_nat_add)
  moreover have "fat_sec_of_clus f c 1 = Ret ?sec"
    using not_bad_clus [OF v c] vd(1,7) by (simp add: fat_sec_of_clus_def)
  moreover have "fat_offset_of_clus f c = Ret ?off"
    using not_bad_clus [OF v c] vd(1) by (simp add: fat_offset_of_clus_def)
  ultimately show ?thesis using ok o m by (intro exI [of _ ?sec] exI [of _ ?off]) simp
qed

lemma read_fat_ok:
  assumes s: "fs_ok s" and c: "clus_ok (vol s) c"
  shows "\<exists>s'. read_fat c s = Ret (fat_entry s c, s') \<and> io s s' (dsk s)"
proof -
  have v: "vol_ok (vol s)" using s by (simp add: fs_ok_def)
  obtain sec off where so: "fat_sec_of_clus (vol s) c 1 = Ret sec" "fat_offset_of_clus (vol s) c = Ret off"
    "sec_ok sec" "unat off + 4 \<le> 512" "sector_addr sec + of_nat (unat off) = fat_addr (vol s) c"
    using fat_sec_of_clus_ok [OF v c] by blast
  obtain s' where r: "read_sec sec s = Ret (sector (dsk s) sec, s')" "io s s' (dsk s)"
    using read_sec_io [OF s so(3)] by blast
  have e: "u32_at (sector (dsk s) sec) (unat off) = fat_entry s c"
    using take_drop_read_bytes [of "unat off" 4 512 "dsk s" "sector_addr sec"] so(4,5)
    by (simp add: u32_at_def sector_def fat_entry_def)
  have "\<not> c < 2" "\<not> FAT32_EOC \<le> c" "\<not> data_clus_cnt (vol s) + 1 < c"
    using not_bad_clus [OF v c] clus_bound [OF v c] by (auto simp: bad_clus_def word_less_nat_alt word_le_nat_alt)
  then show ?thesis using so(1,2) r e by (simp add: read_fat_def)
qed

lemma write_fat_ok:
  assumes s: "fs_ok s" and c: "clus_ok (vol s) c"
  shows "\<exists>s'. write_fat c v s = Ret s' \<and> io s s' (write_bytes (dsk s) (fat_addr (vol s) c) (le_bytes 4 v))"
proof -
  have v: "vol_ok (vol s)" using s by (simp add: fs_ok_def)
  obtain sec off where so: "fat_sec_of_clus (vol s) c 1 = Ret sec" "fat_offset_of_clus (vol s) c = Ret off"
    "sec_ok sec" "unat off + 4 \<le> 512" "sector_addr sec + of_nat (unat off) = fat_addr (vol s) c"
    using fat_sec_of_clus_ok [OF v c] by blast
  have "\<not> c < 2" using not_bad_clus [OF v c] by (simp add: bad_clus_def)
  then show ?thesis using change_sec_io [OF s so(3), of "unat off" "le_bytes 4 v"] so by (simp add: write_fat_def)
qed

text \<open>Entries of the table do not overlap.\<close>

lemma fat_entry_write:
  fixes v :: u32
  assumes v: "vol_ok f" and c: "clus_ok f c" "clus_ok f c'"
  shows "le_word (read_bytes (write_bytes d (fat_addr f c) (le_bytes 4 v)) (fat_addr f c') 4) =
    (if c' = c then v else le_word (read_bytes d (fat_addr f c') 4))" (is "?L = _")
proof (cases "c' = c")
  case True
  then show ?thesis using read_write_bytes_same [of "le_bytes 4 v" d "fat_addr f c"] by simp
next
  case False
  then have ne: "unat c \<noteq> unat c'" by (simp add: word_unat_eq_iff)
  have b: "unat c < 0x40000000" "unat c' < 0x40000000" using clus_bound [OF v] c by auto
  have r: "unat (rsvd_sec_cnt f) < 0x10000" using unsigned_less [where w = "rsvd_sec_cnt f" and 'a = nat] by simp
  have "write_bytes d (fat_addr f c) (le_bytes 4 v) (fat_addr f c' + of_nat i) = d (fat_addr f c' + of_nat i)" if "i < 4" for i
  proof (rule write_bytes_outside)
    let ?a = "unat (rsvd_sec_cnt f) * 512 + unat c * 4" and ?b = "unat (rsvd_sec_cnt f) * 512 + unat c' * 4 + i"
    have eq: "fat_addr f c' + of_nat i = of_nat ?b" "fat_addr f c = of_nat ?a" by (simp_all add: fat_addr_def)
    have u: "unat (of_nat ?a :: u64) = ?a" "unat (of_nat ?b :: u64) = ?b" by (rule unat_of_nat_u64, use b r that in simp)+
    show "length (le_bytes 4 v) \<le> unat (fat_addr f c' + of_nat i - fat_addr f c)"
      unfolding eq unat_sub_if_size u word_size word_le_nat_alt using ne b r that by auto
  qed
  then show ?thesis using False read_bytes_cong [of 4 "write_bytes d (fat_addr f c) (le_bytes 4 v)" "fat_addr f c'" d] by simp
qed

lemma fat_write_data:
  fixes v :: u32
  assumes v: "vol_ok f" and c: "clus_ok f c" and a: "unat (first_data_sec f) * 512 \<le> unat a"
  shows "write_bytes d (fat_addr f c) (le_bytes 4 v) a = d a"
proof (rule write_bytes_outside)
  let ?b = "unat (rsvd_sec_cnt f) * 512 + unat c * 4"
  note vd = vol_okD [OF v]
  have b: "?b + 4 \<le> unat (first_data_sec f) * 512" using vd(4,6) c by (simp add: clus_ok_def)
  have u: "unat (fat_addr f c) = ?b" unfolding fat_addr_def by (rule unat_of_nat_u64) (use b vd(5) in simp)
  then have "fat_addr f c \<le> a" using a b by (simp add: word_le_nat_alt)
  then have "unat (a - fat_addr f c) = unat a - ?b" using u by (simp add: unat_sub)
  then show "length (le_bytes 4 v) \<le> unat (a - fat_addr f c)" using a b by simp
qed

section \<open>Chains of clusters\<close>

text \<open>The end of a chain is recognised by a signed comparison in one place and an unsigned one in another.\<close>

definition end_mark :: "u32 \<Rightarrow> bool" where "end_mark v \<longleftrightarrow> FAT32_EOC \<le>s v"

fun chain :: "(u32 \<Rightarrow> u32) \<Rightarrow> fat \<Rightarrow> u32 list \<Rightarrow> bool" where
  "chain F f [] \<longleftrightarrow> False"
| "chain F f [c] \<longleftrightarrow> clus_ok f c \<and> end_mark (F c)"
| "chain F f (c # d # cs) \<longleftrightarrow> clus_ok f c \<and> F c = d \<and> chain F f (d # cs)"

lemma end_mark_le: "end_mark v \<Longrightarrow> FAT32_EOC \<le> v"
proof -
  assume "end_mark v"
  then have "0x0ffffff8 \<le> sint v" by (simp add: end_mark_def word_sle_eq)
  moreover have "sint v \<le> uint v"
    unfolding sint_uint signed_take_bit_int_less_eq_self_iff by (rule order_trans [OF _ unsigned_greater_eq]) simp
  ultimately show "FAT32_EOC \<le> v" by (simp add: word_le_def)
qed

lemma clus_ok_not_end: "vol_ok f \<Longrightarrow> clus_ok f c \<Longrightarrow> \<not> end_mark c \<and> c < FAT32_EOC \<and> c \<noteq> FAT32_BAD \<and> in_chain c"
  using clus_bound [of f c] end_mark_le [of c]
  by (auto simp: in_chain_def clus_ok_def word_less_nat_alt word_le_nat_alt)

lemma chain_ok: "chain F f cs \<Longrightarrow> c \<in> set cs \<Longrightarrow> clus_ok f c"
  by (induction F f cs rule: chain.induct) auto

lemma chain_cong:
  "(\<And>c. c \<in> set cs \<Longrightarrow> F c = G c) \<Longrightarrow> chain F f cs = chain G f cs"
  by (induction F f cs rule: chain.induct) auto

lemma chain_nth: "chain F f cs \<Longrightarrow> Suc i < length cs \<Longrightarrow> F (cs ! i) = cs ! Suc i"
proof (induction F f cs arbitrary: i rule: chain.induct)
  case (3 F f c d cs)
  then show ?case by (cases i) auto
qed auto

lemma chain_last: "chain F f cs \<Longrightarrow> end_mark (F (last cs))"
  by (induction F f cs rule: chain.induct) auto

lemma distinct_clusters_length:
  assumes "distinct cs" "\<And>c. c \<in> set cs \<Longrightarrow> clus_ok f c"
  shows "length cs \<le> unat (data_clus_cnt f)"
proof -
  have "unat ` set cs \<subseteq> {2..<unat (data_clus_cnt f) + 2}" using assms(2) by (auto simp: clus_ok_def less_Suc_eq_le)
  then have "card (unat ` set cs) \<le> card {2..<unat (data_clus_cnt f) + 2}" by (intro card_mono) auto
  moreover have "card (unat ` set cs) = length cs"
    using assms(1) card_image [of unat "set cs"] by (simp add: inj_on_def word_unat_eq_iff distinct_card)
  ultimately show ?thesis by simp
qed

text \<open>Freeing the clusters of a chain.\<close>

lemma etrunc_loop_frees:
  assumes "fs_ok s" "chain (fat_entry s) (vol s) cs" "distinct cs" "length cs \<le> k"
  shows "\<exists>s' d. etrunc_loop k (hd cs) s = Ret s' \<and> io s s' d
    \<and> (\<forall>c. clus_ok (vol s) c \<longrightarrow> fat_entry s' c = (if c \<in> set cs then 0 else fat_entry s c))
    \<and> (\<forall>a. unat (first_data_sec (vol s)) * 512 \<le> unat a \<longrightarrow> d a = dsk s a)"
  using assms
proof (induction cs arbitrary: s k)
  case (Cons c cs)
  obtain k' where k: "k = Suc k'" using Cons.prems(4) by (cases k) auto
  have v: "vol_ok (vol s)" using Cons.prems(1) by (simp add: fs_ok_def)
  have c: "clus_ok (vol s) c" using chain_ok [OF Cons.prems(2)] by simp
  obtain s1 where s1: "read_fat c s = Ret (fat_entry s c, s1)" "io s s1 (dsk s)" using read_fat_ok [OF Cons.prems(1) c] by blast
  have ok1: "fs_ok s1" using io_fs_ok [OF s1(2)] Cons.prems(1) by blast
  have c1: "clus_ok (vol s1) c" using c ioD(1) [OF s1(2)] by simp
  obtain s2 where s2: "free_clus c s1 = Ret s2" "io s1 s2 (write_bytes (dsk s1) (fat_addr (vol s1) c) (le_bytes 4 (0 :: u32)))"
    using write_fat_ok [OF ok1 c1, of 0] unfolding free_clus_def by blast
  let ?d = "write_bytes (dsk s) (fat_addr (vol s) c) (le_bytes 4 (0 :: u32))"
  have io2: "io s s2 ?d" using io_trans [OF s1(2) s2(2)] ioD(1,6) [OF s1(2)] by simp
  have ok2: "fs_ok s2" using io_fs_ok [OF io2] Cons.prems(1) by blast
  have v2: "vol s2 = vol s" by (rule ioD(1) [OF io2])
  have f2: "fat_entry s2 x = (if x = c then 0 else fat_entry s x)" if "clus_ok (vol s) x" for x
    using fat_entry_write [OF v c that] unfolding fat_entry_def v2 ioD(6) [OF io2] .
  have d2: "?d a = dsk s a" if "unat (first_data_sec (vol s)) * 512 \<le> unat a" for a
    by (rule fat_write_data [OF v c that])
  have step: "etrunc_loop k c s = etrunc_loop k' (fat_entry s c) s2"
    using clus_ok_not_end [OF v c] s1(1) s2(1) k by simp
  show ?case
  proof (cases cs)
    case Nil
    then have "\<not> in_chain (fat_entry s c)" using Cons.prems(2) end_mark_le [of "fat_entry s c"] by (auto simp: in_chain_def not_less)
    then have "etrunc_loop k' (fat_entry s c) s2 = Ret s2" by (cases k') auto
    then show ?thesis using step io2 f2 d2 Nil by auto
  next
    case (Cons c' cs')
    then have ch: "chain (fat_entry s) (vol s) cs" "fat_entry s c = hd cs" using Cons.prems(2) by auto
    have "chain (fat_entry s2) (vol s2) cs"
      unfolding v2 using ch(1) chain_ok [OF ch(1)] f2 \<open>distinct (c # cs)\<close>
      by (subst chain_cong [where G = "fat_entry s"]) auto
    then obtain s' d where ih: "etrunc_loop k' (hd cs) s2 = Ret s'" "io s2 s' d"
      "\<forall>x. clus_ok (vol s2) x \<longrightarrow> fat_entry s' x = (if x \<in> set cs then 0 else fat_entry s2 x)"
      "\<forall>a. unat (first_data_sec (vol s2)) * 512 \<le> unat a \<longrightarrow> d a = dsk s2 a"
      using Cons.IH [OF ok2, of k'] Cons.prems(3,4) k by auto
    have e: "fat_entry s' x = (if x \<in> set (c # cs) then 0 else fat_entry s x)" if "clus_ok (vol s) x" for x
      using ih(3) f2 [OF that] that v2 by auto
    have "d a = dsk s a" if "unat (first_data_sec (vol s)) * 512 \<le> unat a" for a
      using ih(4) d2 [OF that] that v2 ioD(6) [OF io2] by auto
    then show ?thesis using step ch(2) ih(1) io_trans [OF io2 ih(2)] e by auto
  qed
qed simp

section \<open>Moving to a cluster of a file\<close>

text \<open>\<open>on_chain s e cs\<close>: \<^verbatim>\<open>cur_clus\<close> of the entry is the cluster of its chain that \<^verbatim>\<open>clus_cnt\<close> says.\<close>

definition on_chain :: "fsys \<Rightarrow> nat \<Rightarrow> u32 list \<Rightarrow> bool" where
  "on_chain s e cs \<longleftrightarrow> chain (fat_entry s) (vol s) cs \<and> distinct cs \<and> first_clus (ents s e) = hd cs
     \<and> unat (clus_cnt (ents s e)) < length cs \<and> cur_clus (ents s e) = cs ! unat (clus_cnt (ents s e))"

definition at_clus :: "nat \<Rightarrow> u32 list \<Rightarrow> nat \<Rightarrow> dirent \<Rightarrow> dirent" where
  "at_clus e cs i x = x\<lparr>cur_clus := cs ! i, clus_cnt := of_nat i\<rparr>"

text \<open>\<open>moved s s' e cs i\<close>: the disk is as before and the entry is at cluster \<open>i\<close> of the chain.\<close>

definition moved :: "fsys \<Rightarrow> fsys \<Rightarrow> nat \<Rightarrow> u32 list \<Rightarrow> nat \<Rightarrow> bool" where
  "moved s s' e cs i \<longleftrightarrow> (\<exists>c. s' = s\<lparr>bufs := c, ents := (ents s)(e := at_clus e cs i (ents s e))\<rparr>
     \<and> quiet c \<and> disk c = dsk s)"

lemma movedD:
  assumes "moved s s' e cs i"
  shows "vol s' = vol s" "kst s' = kst s" "cur_pt s' = cur_pt s" "cur_pid s' = cur_pid s" "dsk s' = dsk s" "quiet (bufs s')"
    "ents s' e = at_clus e cs i (ents s e)" "\<And>x. x \<noteq> e \<Longrightarrow> ents s' x = ents s x" "fat_entry s' c = fat_entry s c"
  using assms by (auto simp: moved_def fat_entry_def)

lemma moved_trans: "moved s s1 e cs i \<Longrightarrow> moved s1 s2 e cs j \<Longrightarrow> moved s s2 e cs j"
  unfolding moved_def at_clus_def by force

lemma moved_read:
  assumes "io s s1 (dsk s)" "i < length cs"
  shows "moved s (set_ent e (\<lambda>x. x\<lparr>cur_clus := cs ! i, clus_cnt := of_nat i\<rparr>) s1) e cs i"
  using assms unfolding io_def moved_def at_clus_def by auto

lemma moved_ok: "moved s s' e cs i \<Longrightarrow> fs_ok s \<Longrightarrow> fs_ok s'"
  using movedD [of s s' e cs i] by (simp add: fs_ok_def)

lemma moved_on_chain:
  assumes "moved s s' e cs i" "chain (fat_entry s) (vol s) cs" "distinct cs" "first_clus (ents s e) = hd cs" "i < length cs" "i < 2 ^ 32"
  shows "on_chain s' e cs"
  using movedD [OF assms(1)] assms(2-6) chain_cong [of cs "fat_entry s'" "fat_entry s"]
  by (simp add: on_chain_def at_clus_def unat_of_nat)

text \<open>One step along the chain, as both loops of \<^verbatim>\<open>reloc_clus\<close> make it.\<close>

lemma read_next:
  assumes "fs_ok s" "chain (fat_entry s) (vol s) cs" "Suc i < length cs" "cur_clus (ents s e) = cs ! i"
  shows "\<exists>s1. read_fat (cur_clus (ents s e)) s = Ret (cs ! Suc i, s1) \<and> io s s1 (dsk s)"
  using read_fat_ok [OF assms(1), of "cs ! i"] chain_nth [OF assms(2,3)] chain_ok [OF assms(2), of "cs ! i"] assms(3,4) by auto

lemma reloc_forward_ok:
  assumes "fs_ok s" "on_chain s e cs" "unat (clus_cnt (ents s e)) + k < length cs" "length cs < 2 ^ 32"
  shows "\<exists>s'. reloc_forward k e alloc s = Ret (False, s') \<and> moved s s' e cs (unat (clus_cnt (ents s e)) + k)"
  using assms
proof (induction k arbitrary: s)
  case 0
  have "at_clus e cs (unat (clus_cnt (ents s e))) (ents s e) = ents s e"
    using 0 by (simp add: on_chain_def at_clus_def)
  then have "moved s s e cs (unat (clus_cnt (ents s e)))"
    using 0 unfolding moved_def fs_ok_def by (intro exI [of _ "bufs s"]) (simp add: fun_upd_idem)
  then show ?case by simp
next
  case (Suc k)
  let ?i = "unat (clus_cnt (ents s e))"
  have ch: "chain (fat_entry s) (vol s) cs" "distinct cs" and f: "first_clus (ents s e) = hd cs" and cu: "cur_clus (ents s e) = cs ! ?i"
    using Suc.prems(2) by (auto simp: on_chain_def)
  have v: "vol_ok (vol s)" using Suc.prems(1) by (simp add: fs_ok_def)
  have lt: "Suc ?i < length cs" using Suc.prems(3) by simp
  obtain s1 where r: "read_fat (cur_clus (ents s e)) s = Ret (cs ! Suc ?i, s1)" "io s s1 (dsk s)"
    using read_next [OF Suc.prems(1) ch(1) lt cu] by blast
  have "clus_ok (vol s) (cs ! Suc ?i)" using chain_ok [OF ch(1)] lt by simp
  then have n: "\<not> FAT32_EOC \<le>s cs ! Suc ?i" "cs ! Suc ?i \<noteq> FAT32_BAD"
    using clus_ok_not_end [OF v] by (auto simp: end_mark_def)
  let ?s2 = "set_ent e (\<lambda>x. x\<lparr>cur_clus := cs ! Suc ?i, clus_cnt := clus_cnt x + 1\<rparr>) s1"
  have "(clus_cnt (ents s1 e) + 1 :: u32) = of_nat (Suc ?i)" using ioD(2) [OF r(2)] by (simp add: add.commute)
  then have m: "moved s ?s2 e cs (Suc ?i)" using moved_read [OF r(2) lt, of e] by (simp add: add.commute)
  have u: "unat (clus_cnt (ents ?s2 e)) = Suc ?i"
    using movedD(7) [OF m] lt Suc.prems(4) by (simp add: at_clus_def unat_of_nat del: of_nat_Suc)
  have "on_chain ?s2 e cs" by (rule moved_on_chain [OF m ch f lt]) (use lt Suc.prems(4) in simp)
  then obtain s' where "reloc_forward k e alloc ?s2 = Ret (False, s')" "moved ?s2 s' e cs (unat (clus_cnt (ents ?s2 e)) + k)"
    using Suc.IH [of ?s2] moved_ok [OF m Suc.prems(1)] Suc.prems(3,4) u by auto
  then show ?case using r(1) n moved_trans [OF m] u by auto
qed

lemma reloc_again_ok:
  assumes "fs_ok s" "on_chain s e cs" "unat (clus_cnt (ents s e)) + k < length cs" "length cs < 2 ^ 32"
  shows "\<exists>s'. reloc_again k e s = Ret s' \<and> moved s s' e cs (unat (clus_cnt (ents s e)) + k)"
  using assms
proof (induction k arbitrary: s)
  case 0
  then show ?case using reloc_forward_ok [of s e cs 0 False] by simp
next
  case (Suc k)
  let ?i = "unat (clus_cnt (ents s e))"
  have ch: "chain (fat_entry s) (vol s) cs" "distinct cs" and f: "first_clus (ents s e) = hd cs" and cu: "cur_clus (ents s e) = cs ! ?i"
    using Suc.prems(2) by (auto simp: on_chain_def)
  have v: "vol_ok (vol s)" using Suc.prems(1) by (simp add: fs_ok_def)
  have lt: "Suc ?i < length cs" using Suc.prems(3) by simp
  obtain s1 where r: "read_fat (cur_clus (ents s e)) s = Ret (cs ! Suc ?i, s1)" "io s s1 (dsk s)"
    using read_next [OF Suc.prems(1) ch(1) lt cu] by blast
  have "clus_ok (vol s) (cs ! Suc ?i)" using chain_ok [OF ch(1)] lt by simp
  then have n: "\<not> FAT32_EOC \<le> cs ! Suc ?i" using clus_ok_not_end [OF v] by (simp add: not_le)
  let ?s2 = "set_ent e (\<lambda>x. x\<lparr>cur_clus := cs ! Suc ?i, clus_cnt := clus_cnt x + 1\<rparr>) s1"
  have "(clus_cnt (ents s1 e) + 1 :: u32) = of_nat (Suc ?i)" using ioD(2) [OF r(2)] by (simp add: add.commute)
  then have m: "moved s ?s2 e cs (Suc ?i)" using moved_read [OF r(2) lt, of e] by (simp add: add.commute)
  have u: "unat (clus_cnt (ents ?s2 e)) = Suc ?i"
    using movedD(7) [OF m] lt Suc.prems(4) by (simp add: at_clus_def unat_of_nat del: of_nat_Suc)
  have "on_chain ?s2 e cs" by (rule moved_on_chain [OF m ch f lt]) (use lt Suc.prems(4) in simp)
  then obtain s' where "reloc_again k e ?s2 = Ret s'" "moved ?s2 s' e cs (unat (clus_cnt (ents ?s2 e)) + k)"
    using Suc.IH [of ?s2] moved_ok [OF m Suc.prems(1)] Suc.prems(3,4) u by auto
  then show ?case using r(1) n moved_trans [OF m] u by auto
qed

lemma on_chain_length: "fs_ok s \<Longrightarrow> on_chain s e cs \<Longrightarrow> length cs < 2 ^ 32"
  using distinct_clusters_length [of cs "vol s"] chain_ok [of "fat_entry s" "vol s" cs] unat_u32_less [of "data_clus_cnt (vol s)"]
  by (fastforce simp: on_chain_def)

lemma reloc_clus_ok:
  assumes s: "fs_ok s" and oc: "on_chain s e cs" and lt: "unat off div unat (byts_per_clus (vol s)) < length cs"
  shows "\<exists>s'. reloc_clus e off alloc s = Ret (uint (off mod byts_per_clus (vol s)), s')
    \<and> moved s s' e cs (unat off div unat (byts_per_clus (vol s)))"
proof -
  let ?n = "off div byts_per_clus (vol s)" and ?i = "unat (clus_cnt (ents s e))"
  have n: "unat ?n = unat off div unat (byts_per_clus (vol s))" by (simp add: unat_div_distrib)
  have len: "length cs < 2 ^ 32" by (rule on_chain_length [OF s oc])
  have ch: "chain (fat_entry s) (vol s) cs" "distinct cs" "first_clus (ents s e) = hd cs" "?i < length cs" using oc by (auto simp: on_chain_def)
  show ?thesis
  proof (cases "?i \<le> unat ?n")
    case True
    then obtain s' where f: "reloc_forward (unat ?n - ?i) e alloc s = Ret (False, s')" and m: "moved s s' e cs (unat ?n)"
      using reloc_forward_ok [OF s oc, of "unat ?n - ?i"] lt n len by auto
    have "clus_cnt (ents s' e) = ?n" using movedD(7) [OF m] by (simp add: at_clus_def)
    then show ?thesis using f m movedD(1) [OF m] n by (simp add: reloc_clus_def Let_def)
  next
    case False
    then have f: "reloc_forward (unat ?n - ?i) e alloc s = Ret (False, s)" by simp
    let ?s1 = "set_ent e (\<lambda>x. x\<lparr>cur_clus := first_clus x, clus_cnt := 0\<rparr>) s"
    have "hd cs = cs ! 0" using ch(4) by (cases cs) auto
    then have m: "moved s ?s1 e cs 0" using s ch(3) unfolding moved_def at_clus_def fs_ok_def
      by (intro exI [of _ "bufs s"]) simp
    have "on_chain ?s1 e cs" by (rule moved_on_chain [OF m ch(1-3)]) (use ch(4) in auto)
    then obtain s' where a: "reloc_again (unat ?n) e ?s1 = Ret s'" "moved ?s1 s' e cs (unat ?n)"
      using reloc_again_ok [of ?s1 e cs "unat ?n"] moved_ok [OF m s] lt n len by auto
    have "?n < clus_cnt (ents s e)" using False by (simp add: word_less_nat_alt)
    then show ?thesis using f a(1) moved_trans [OF m a(2)] movedD(1) [OF a(2)] n by (simp add: reloc_clus_def Let_def)
  qed
qed

section \<open>Reading and writing clusters\<close>

text \<open>The part of a sector one round handles: \<open>p\<close> is the position, \<open>r\<close> the number of bytes left.\<close>

lemma chunk_nat:
  fixes p r :: nat
  assumes "0 < r"
  defines "m \<equiv> min (512 - p mod 512) r"
  shows "0 < m" "m \<le> r" "p mod 512 + m \<le> 512" "m < r \<Longrightarrow> (p + m) div 512 = p div 512 + 1 \<and> (p + m) mod 512 = 0"
proof -
  have l: "p mod 512 < 512" by simp
  then show "0 < m" "m \<le> r" "p mod 512 + m \<le> 512" using assms by auto
  assume "m < r"
  then have "m = 512 - p mod 512" by (simp add: m_def min_def split: if_splits)
  then have "m + p mod 512 = 512" using l by simp
  then have "p + m = (p div 512 + 1) * 512" unfolding add_mult_distrib using div_mult_mod_eq [of p 512] by linarith
  then show "(p + m) div 512 = p div 512 + 1 \<and> (p + m) mod 512 = 0" by simp
qed

lemma chunk_word:
  fixes off tot n :: u32
  assumes "tot < n"
  shows "unat (let m = 512 - off mod 512 in if n - tot < m then n - tot else m)
    = min (512 - unat off mod 512) (unat n - unat tot)"
proof -
  have "unat (off mod 512) = unat off mod 512" by (simp add: unat_mod_distrib)
  moreover have "off mod 512 \<le> 512" by (simp add: word_le_nat_alt unat_mod_distrib)
  ultimately have m: "unat (512 - off mod 512) = 512 - unat off mod 512" by (simp add: unat_sub)
  have "unat (n - tot) = unat n - unat tot" using assms by (intro unat_sub) simp
  then show ?thesis using m by (auto simp: Let_def word_less_nat_alt min_def)
qed

text \<open>Memory written, disk as before.\<close>

definition loaded :: "fsys \<Rightarrow> fsys \<Rightarrow> u64 \<Rightarrow> u8 list \<Rightarrow> bool" where
  "loaded s s' a bs \<longleftrightarrow> (\<exists>c. s' = s\<lparr>bufs := c, kst := (kst s)\<lparr>mem := write_bytes (mem (kst s)) a bs\<rparr>\<rparr>
     \<and> quiet c \<and> disk c = dsk s)"

lemma loadedD:
  assumes "loaded s s' a bs"
  shows "vol s' = vol s" "ents s' = ents s" "cur_pt s' = cur_pt s" "dsk s' = dsk s" "quiet (bufs s')"
    "mem (kst s') = write_bytes (mem (kst s)) a bs" "fat_entry s' c = fat_entry s c"
  using assms by (auto simp: loaded_def fat_entry_def)

lemma loaded_append:
  assumes "loaded s s1 a xs" "loaded s1 s2 (a + of_nat (length xs)) ys" "length xs + length ys < 2 ^ 64"
  shows "loaded s s2 a (xs @ ys)"
  using assms(1,2) write_bytes_append [OF assms(3)] unfolding loaded_def by auto

lemma loaded_ok: "loaded s s' a bs \<Longrightarrow> fs_ok s \<Longrightarrow> fs_ok s'"
  using loadedD [of s s' a bs] by (simp add: fs_ok_def)

text \<open>One round on a sector, for a kernel buffer.\<close>

lemma rw_sec_read:
  assumes s: "fs_ok s" and sec: "sec_ok sec" and o: "off + unat m \<le> 512"
  shows "\<exists>s'. rw_sec False False sec data off m s = Ret (0, s')
    \<and> loaded s s' data (read_bytes (dsk s) (sector_addr sec + of_nat off) (unat m))"
proof -
  obtain s1 where r: "read_sec sec s = Ret (sector (dsk s) sec, s1)" "io s s1 (dsk s)" using read_sec_io [OF s sec] by blast
  have e: "take (unat m) (drop off (sector (dsk s) sec)) = read_bytes (dsk s) (sector_addr sec + of_nat off) (unat m)"
    using take_drop_read_bytes [OF o, of "dsk s" "sector_addr sec"] by (simp add: sector_def)
  show ?thesis using r e unfolding io_def loaded_def
    by (auto simp: rw_sec_def either_copyout_def)
qed

lemma rw_sec_write:
  assumes s: "fs_ok s" and sec: "sec_ok sec" and o: "off + unat m \<le> 512"
  shows "\<exists>s'. rw_sec True False sec data off m s = Ret (0, s')
    \<and> io s s' (write_bytes (dsk s) (sector_addr sec + of_nat off) (read_bytes (mem (kst s)) data (unat m)))"
proof -
  let ?f = "\<lambda>ds. bind_res (either_copyin (cur_pt s) False data (ucast m) (kst s)) (\<lambda>(bad, bs). Ret (put_at off bs ds, bad \<noteq> -1))"
  let ?bs = "read_bytes (mem (kst s)) data (unat m)"
  have q: "quiet (bufs s)" using s by (simp add: fs_ok_def)
  have f: "?f ds = Ret (put_at off ?bs ds, True)" for ds by (simp add: either_copyin_def)
  obtain s' where u: "use_sec 0 sec ?f s = Ret (sector (dsk s) sec, s')"
    and r: "(vol s', ents s', kst s', cur_pid s', cur_pt s', ksp s') = (vol s, ents s, kst s, cur_pid s, cur_pt s, ksp s)"
      "quiet (bufs s')" "dsk s' = write_bytes (dsk s) (sector_addr sec + of_nat off) ?bs"
    using fsec.use_write [of s sec ?f off ?bs] q sec f o by auto
  show ?thesis using u io_rest [OF r] by (simp add: rw_sec_def either_copyin_def)
qed

text \<open>The common arithmetic of one round: the cursor is at byte \<open>p\<close> after sector \<open>base\<close>.\<close>

lemma round_facts:
  fixes off tot n :: u32
  assumes lt: "tot < n" and off: "unat off mod 512 = p mod 512"
    and b: "base * 512 + p + (unat n - unat tot) \<le> 0x100000000" and nv: "unat off + (unat n - unat tot) < 2 ^ 32"
  defines "m \<equiv> let m = of_nat BSIZE - off mod of_nat BSIZE in if n - tot < m then n - tot else m"
  shows "0 < unat m" "unat m \<le> unat n - unat tot" "p mod 512 + unat m \<le> 512"
    "sec_ok (of_nat (base + p div 512))"
    "sector_addr (of_nat (base + p div 512)) + of_nat (p mod 512) = of_nat (base * 512 + p)"
    "unat (tot + m) = unat tot + unat m" "unat (off + m) = unat off + unat m"
    "unat m < unat n - unat tot \<Longrightarrow> (of_nat (base + p div 512) + 1 :: u32) = of_nat (base + (p + unat m) div 512)
       \<and> unat (off + m) mod 512 = (p + unat m) mod 512"
    "unat (off mod of_nat BSIZE) = p mod 512"
proof -
  have r: "0 < unat n - unat tot" using lt by (simp add: word_less_nat_alt)
  have m: "unat m = min (512 - p mod 512) (unat n - unat tot)" using chunk_word [OF lt, of off] off by (simp add: m_def)
  note c = chunk_nat [OF r, of p, folded m]
  show m1: "0 < unat m" "unat m \<le> unat n - unat tot" "p mod 512 + unat m \<le> 512" using c(1-3) by auto
  have p: "p div 512 * 512 \<le> p" by simp
  then have sb: "base + p div 512 < 0x800000" using b r by linarith
  have us: "unat (of_nat (base + p div 512) :: u32) = base + p div 512" by (rule unat_of_nat_u32) (use sb in simp)
  show so: "sec_ok (of_nat (base + p div 512))" unfolding sec_ok_def word_less_nat_alt us using sb by simp
  have "(base + p div 512) * 512 + p mod 512 = base * 512 + p"
    unfolding add_mult_distrib using div_mult_mod_eq [of p 512] by linarith
  then show "sector_addr (of_nat (base + p div 512)) + of_nat (p mod 512) = of_nat (base * 512 + p)"
    unfolding sector_addr_nat [OF so] us by (metis of_nat_add)
  have "unat tot + unat m < 2 ^ 32" using m1(2) unat_u32_less [of n] r by linarith
  then show "unat (tot + m) = unat tot + unat m" by (simp add: unat_word_ariths)
  have "unat off + unat m < 2 ^ 32" using m1(2) nv by linarith
  then show o: "unat (off + m) = unat off + unat m" by (simp add: unat_word_ariths)
  show "unat (off mod of_nat BSIZE) = p mod 512" using off by (simp add: unat_mod_distrib)
  assume "unat m < unat n - unat tot"
  then have d: "(p + unat m) div 512 = p div 512 + 1" "(p + unat m) mod 512 = 0" using c(4) by auto
  moreover have "(unat off + unat m) mod 512 = (p + unat m) mod 512" using off by (metis mod_add_left_eq)
  ultimately show "(of_nat (base + p div 512) + 1 :: u32) = of_nat (base + (p + unat m) div 512)
      \<and> unat (off + m) mod 512 = (p + unat m) mod 512" using o by (simp add: add.assoc)
qed

lemma read_bytes_split: "m \<le> n \<Longrightarrow> read_bytes d a n = read_bytes d a m @ read_bytes d (a + of_nat m) (n - m)"
  using read_bytes_append [of d a m "n - m"] by simp

lemma rw_loop_read:
  assumes "fs_ok s" "tot \<le> n" "unat off mod 512 = p mod 512" "base * 512 + p + (unat n - unat tot) \<le> 0x100000000"
    "unat off + (unat n - unat tot) < 2 ^ 32" "unat n - unat tot \<le> k" "sec = of_nat (base + p div 512) \<or> tot = n"
  shows "\<exists>s'. rw_clus_loop k False False sec data off tot n s = Ret (n, s')
    \<and> loaded s s' data (read_bytes (dsk s) (of_nat (base * 512 + p)) (unat n - unat tot))"
  using assms
proof (induction k arbitrary: s tot off p sec data)
  case 0
  then have "tot = n" by (simp add: word_le_nat_alt word_unat_eq_iff)
  then show ?case using 0(1) by (auto simp: loaded_def fs_ok_def intro!: exI [of _ "bufs s"])
next
  case (Suc k)
  show ?case
  proof (cases "tot < n")
    case False
    then have "tot = n" using Suc.prems(2) by simp
    then show ?thesis using Suc.prems(1) by (auto simp: loaded_def fs_ok_def intro!: exI [of _ "bufs s"])
  next
    case True
    let ?m = "let m = of_nat BSIZE - off mod of_nat BSIZE in if n - tot < m then n - tot else m :: u32"
    note r = round_facts [OF True Suc.prems(3,4,5)]
    have sec: "sec = of_nat (base + p div 512)" using Suc.prems(7) True by auto
    let ?bs = "read_bytes (dsk s) (of_nat (base * 512 + p)) (unat ?m)"
    obtain s1 where s1: "rw_sec False False sec data (p mod 512) ?m s = Ret (0, s1)" "loaded s s1 data ?bs"
      using rw_sec_read [OF Suc.prems(1) r(4,3), of data] r(5) sec by auto
    have tn: "unat n - unat (tot + ?m) = unat n - unat tot - unat ?m" using r(6) by simp
    have "\<exists>s'. rw_clus_loop k False False (sec + 1) (data + ucast ?m) (off + ?m) (tot + ?m) n s1 = Ret (n, s')
      \<and> loaded s1 s' (data + ucast ?m) (read_bytes (dsk s1) (of_nat (base * 512 + (p + unat ?m))) (unat n - unat (tot + ?m)))"
    proof (rule Suc.IH)
      show "fs_ok s1" by (rule loaded_ok [OF s1(2) Suc.prems(1)])
      show "tot + ?m \<le> n" using r(2,6) True by (simp add: word_le_nat_alt word_less_nat_alt)
      show "base * 512 + (p + unat ?m) + (unat n - unat (tot + ?m)) \<le> 0x100000000" unfolding tn using r(2) Suc.prems(4) by linarith
      show "unat (off + ?m) + (unat n - unat (tot + ?m)) < 2 ^ 32" unfolding tn r(7) using r(2) Suc.prems(5) by linarith
      show "unat n - unat (tot + ?m) \<le> k" unfolding tn using r(1) Suc.prems(6) by linarith
      show "sec + 1 = of_nat (base + (p + unat ?m) div 512) \<or> tot + ?m = n"
        "unat (off + ?m) mod 512 = (p + unat ?m) mod 512"
      proof -
        have "unat ?m < unat n - unat tot \<or> tot + ?m = n" using r(2,6) True
          by (auto simp: word_less_nat_alt word_unat_eq_iff)
        then show "sec + 1 = of_nat (base + (p + unat ?m) div 512) \<or> tot + ?m = n" using r(8) sec by blast
        show "unat (off + ?m) mod 512 = (p + unat ?m) mod 512" unfolding r(7) by (rule mod_add_cong [OF Suc.prems(3) refl])
      qed
    qed
    then obtain s' where s': "rw_clus_loop k False False (sec + 1) (data + ucast ?m) (off + ?m) (tot + ?m) n s1 = Ret (n, s')"
      "loaded s1 s' (data + ucast ?m) (read_bytes (dsk s) (of_nat (base * 512 + p) + of_nat (unat ?m)) (unat n - unat tot - unat ?m))"
      using tn loadedD(4) [OF s1(2)] by (auto simp: add.assoc)
    have u: "(ucast ?m :: u64) = of_nat (length ?bs)" by simp
    have "loaded s s' data (?bs @ read_bytes (dsk s) (of_nat (base * 512 + p) + of_nat (unat ?m)) (unat n - unat tot - unat ?m))"
      by (rule loaded_append [OF s1(2)]) (use s'(2) u r(2) unat_u32_less [of n] in simp_all)
    then have "loaded s s' data (read_bytes (dsk s) (of_nat (base * 512 + p)) (unat n - unat tot))"
      by (simp only: read_bytes_split [OF r(2), of "dsk s" "of_nat (base * 512 + p)"])
    moreover have "rw_clus_loop (Suc k) False False sec data off tot n s = Ret (n, s')"
      using True s1(1) s'(1) r(9) by (simp add: Let_def)
    ultimately show ?thesis by blast
  qed
qed

lemma io_append:
  assumes "io s s1 (write_bytes (dsk s) a xs)" "io s1 s2 (write_bytes (dsk s1) (a + of_nat (length xs)) ys)"
    "length xs + length ys < 2 ^ 64"
  shows "io s s2 (write_bytes (dsk s) a (xs @ ys))"
  using io_trans [OF assms(1,2)] ioD(6) [OF assms(1)] write_bytes_append [OF assms(3), of "dsk s" a] by simp

lemma rw_loop_write:
  assumes "fs_ok s" "tot \<le> n" "unat off mod 512 = p mod 512" "base * 512 + p + (unat n - unat tot) \<le> 0x100000000"
    "unat off + (unat n - unat tot) < 2 ^ 32" "unat n - unat tot \<le> k" "sec = of_nat (base + p div 512) \<or> tot = n"
  shows "\<exists>s'. rw_clus_loop k True False sec data off tot n s = Ret (n, s')
    \<and> io s s' (write_bytes (dsk s) (of_nat (base * 512 + p)) (read_bytes (mem (kst s)) data (unat n - unat tot)))"
  using assms
proof (induction k arbitrary: s tot off p sec data)
  case 0
  then have "tot = n" by (simp add: word_le_nat_alt word_unat_eq_iff)
  then show ?case using io_refl [OF 0(1)] by (auto simp: read_bytes_def)
next
  case (Suc k)
  show ?case
  proof (cases "tot < n")
    case False
    then have "tot = n" using Suc.prems(2) by simp
    then show ?thesis using io_refl [OF Suc.prems(1)] by (auto simp: read_bytes_def)
  next
    case True
    let ?m = "let m = of_nat BSIZE - off mod of_nat BSIZE in if n - tot < m then n - tot else m :: u32"
    note r = round_facts [OF True Suc.prems(3,4,5)]
    have sec: "sec = of_nat (base + p div 512)" using Suc.prems(7) True by auto
    let ?a = "of_nat (base * 512 + p) :: u64" and ?bs = "read_bytes (mem (kst s)) data (unat ?m)"
    obtain s1 where s1: "rw_sec True False sec data (p mod 512) ?m s = Ret (0, s1)" "io s s1 (write_bytes (dsk s) ?a ?bs)"
      using rw_sec_write [OF Suc.prems(1) r(4,3), of data] r(5) sec by auto
    have tn: "unat n - unat (tot + ?m) = unat n - unat tot - unat ?m" using r(6) by simp
    have "\<exists>s'. rw_clus_loop k True False (sec + 1) (data + ucast ?m) (off + ?m) (tot + ?m) n s1 = Ret (n, s')
      \<and> io s1 s' (write_bytes (dsk s1) (of_nat (base * 512 + (p + unat ?m)))
          (read_bytes (mem (kst s1)) (data + ucast ?m) (unat n - unat (tot + ?m))))"
    proof (rule Suc.IH)
      show "fs_ok s1" by (rule io_fs_ok [OF s1(2) Suc.prems(1)])
      show "tot + ?m \<le> n" using r(2,6) True by (simp add: word_le_nat_alt word_less_nat_alt)
      show "base * 512 + (p + unat ?m) + (unat n - unat (tot + ?m)) \<le> 0x100000000" unfolding tn using r(2) Suc.prems(4) by linarith
      show "unat (off + ?m) + (unat n - unat (tot + ?m)) < 2 ^ 32" unfolding tn r(7) using r(2) Suc.prems(5) by linarith
      show "unat n - unat (tot + ?m) \<le> k" unfolding tn using r(1) Suc.prems(6) by linarith
      show "unat (off + ?m) mod 512 = (p + unat ?m) mod 512" unfolding r(7) by (rule mod_add_cong [OF Suc.prems(3) refl])
      have "unat ?m < unat n - unat tot \<or> tot + ?m = n" using r(2,6) True by (auto simp: word_less_nat_alt word_unat_eq_iff)
      then show "sec + 1 = of_nat (base + (p + unat ?m) div 512) \<or> tot + ?m = n" using r(8) sec by blast
    qed
    then obtain s' where s': "rw_clus_loop k True False (sec + 1) (data + ucast ?m) (off + ?m) (tot + ?m) n s1 = Ret (n, s')"
      "io s1 s' (write_bytes (dsk s1) (?a + of_nat (length ?bs)) (read_bytes (mem (kst s)) (data + of_nat (unat ?m)) (unat n - unat tot - unat ?m)))"
      using tn ioD(3) [OF s1(2)] by (auto simp: add.assoc)
    have "io s s' (write_bytes (dsk s) ?a (?bs @ read_bytes (mem (kst s)) (data + of_nat (unat ?m)) (unat n - unat tot - unat ?m)))"
      by (rule io_append [OF s1(2) s'(2)]) (use r(2) unat_u32_less [of n] in simp)
    then have "io s s' (write_bytes (dsk s) ?a (read_bytes (mem (kst s)) data (unat n - unat tot)))"
      by (simp only: read_bytes_split [OF r(2), of "mem (kst s)" data])
    moreover have "rw_clus_loop (Suc k) True False sec data off tot n s = Ret (n, s')"
      using True s1(1) s'(1) r(9) by (simp add: Let_def)
    ultimately show ?thesis by blast
  qed
qed

text \<open>A cluster is a run of bytes of the disk, for reads and for writes.\<close>

lemma first_sec_ok:
  assumes v: "vol_ok f" and c: "clus_ok f c"
  shows "\<exists>sec. first_sec_of_clus f c = Ret sec \<and> unat sec = unat (first_data_sec f) + (unat c - 2) * unat (sec_per_clus f)
    \<and> unat (first_data_sec f) + (unat c - 2) * unat (sec_per_clus f) + unat (sec_per_clus f) \<le> 0x800000"
proof -
  have "unat c - 2 + 1 \<le> unat (data_clus_cnt f)" using c unfolding clus_ok_def by arith
  then have "(unat c - 2 + 1) * unat (sec_per_clus f) \<le> unat (data_clus_cnt f) * unat (sec_per_clus f)" by (rule mult_le_mono1)
  then have b: "unat (first_data_sec f) + (unat c - 2) * unat (sec_per_clus f) + unat (sec_per_clus f) \<le> 0x800000"
    using vol_okD(9) [OF v] by simp
  have "unat (c - 2) = unat c - 2" using c by (simp add: clus_ok_def unat_sub word_le_nat_alt)
  moreover have "unat (ucast (sec_per_clus f) :: u32) = unat (sec_per_clus f)"
    using unsigned_less [where w = "sec_per_clus f" and 'a = nat] by (simp add: unsigned_ucast_eq take_bit_nat_eq_self)
  moreover have p: "(unat c - 2) * unat (sec_per_clus f) < 2 ^ 32" using b by simp
  ultimately have m: "unat ((c - 2) * ucast (sec_per_clus f)) = (unat c - 2) * unat (sec_per_clus f)"
    by (simp add: unat_word_ariths)
  have "unat ((c - 2) * ucast (sec_per_clus f) + first_data_sec f) = (unat c - 2) * unat (sec_per_clus f) + unat (first_data_sec f)"
    unfolding unat_word_ariths(1) m by (rule mod_less) (use b in simp)
  then show ?thesis using b not_bad_clus [OF v c] by (simp add: first_sec_of_clus_def)
qed

lemma rw_clus_pre:
  assumes s: "fs_ok s" and c: "clus_ok (vol s) c" and n: "unat off + unat n \<le> unat (byts_per_clus (vol s))"
  shows "\<exists>base. rw_clus c wrt user data off n s =
      rw_clus_loop (unat n) wrt user (of_nat (base + unat off div 512)) data (off mod 512) 0 n s
    \<and> base * 512 + unat off + unat n \<le> 0x100000000 \<and> clus_addr (vol s) c + ucast off = of_nat (base * 512 + unat off)
    \<and> unat (off mod 512) mod 512 = unat off mod 512 \<and> unat (off mod 512) + unat n < 2 ^ 32"
proof -
  have v: "vol_ok (vol s)" using s by (simp add: fs_ok_def)
  note vd = vol_okD [OF v]
  obtain sec where sec: "first_sec_of_clus (vol s) c = Ret sec"
    "unat sec = unat (first_data_sec (vol s)) + (unat c - 2) * unat (sec_per_clus (vol s))"
    "unat sec + unat (sec_per_clus (vol s)) \<le> 0x800000" using first_sec_ok [OF v c] by auto
  have spc: "unat (sec_per_clus (vol s)) < 256" using unsigned_less [where w = "sec_per_clus (vol s)" and 'a = nat] by simp
  have "unat off + unat n < 2 ^ 32" using n vd(3) spc by simp
  then have o: "\<not> off + n > byts_per_clus (vol s)" using n by (simp add: word_less_nat_alt unat_word_ariths)
  have "unat (off div 512) = unat off div 512" by (simp add: unat_div_distrib)
  then have q: "off div 512 = of_nat (unat off div 512)" by (metis of_nat_unat ucast_id)
  have e: "sec + off div 512 = of_nat (unat sec + unat off div 512)" using q by simp
  have r: "rw_clus c wrt user data off n s =
      rw_clus_loop (unat n) wrt user (of_nat (unat sec + unat off div 512)) data (off mod 512) 0 n s"
    using o sec(1) vd(1) e by (simp add: rw_clus_def)
  have b: "unat sec * 512 + unat off + unat n \<le> 0x100000000" using n vd(3) sec(3) by simp
  have a: "clus_addr (vol s) c + ucast off = of_nat (unat sec * 512 + unat off)"
    unfolding clus_addr_def sec(2) by simp
  have "unat (off mod 512) = unat off mod 512" by (simp add: unat_mod_distrib)
  moreover have "unat off mod 512 + unat n < 2 ^ 32" using n vd(3) spc mod_less_eq_dividend [of "unat off" 512] by simp
  ultimately show ?thesis using r b a by (intro exI [of _ "unat sec"]) simp
qed

lemma rw_clus_read:
  assumes s: "fs_ok s" and c: "clus_ok (vol s) c" and n: "unat off + unat n \<le> unat (byts_per_clus (vol s))"
  shows "\<exists>s'. rw_clus c False False data off n s = Ret (n, s')
    \<and> loaded s s' data (read_bytes (dsk s) (clus_addr (vol s) c + ucast off) (unat n))"
proof -
  obtain base where b: "rw_clus c False False data off n s =
      rw_clus_loop (unat n) False False (of_nat (base + unat off div 512)) data (off mod 512) 0 n s"
    "base * 512 + unat off + unat n \<le> 0x100000000" "clus_addr (vol s) c + ucast off = of_nat (base * 512 + unat off)"
    "unat (off mod 512) mod 512 = unat off mod 512" "unat (off mod 512) + unat n < 2 ^ 32"
    using rw_clus_pre [OF assms] by blast
  show ?thesis unfolding b(1,3)
    using rw_loop_read [OF s, of 0 n "off mod 512" "unat off" base "unat n" "of_nat (base + unat off div 512)" data] b(2,4,5) by simp
qed

lemma rw_clus_write:
  assumes s: "fs_ok s" and c: "clus_ok (vol s) c" and n: "unat off + unat n \<le> unat (byts_per_clus (vol s))"
  shows "\<exists>s'. rw_clus c True False data off n s = Ret (n, s')
    \<and> io s s' (write_bytes (dsk s) (clus_addr (vol s) c + ucast off) (read_bytes (mem (kst s)) data (unat n)))"
proof -
  obtain base where b: "rw_clus c True False data off n s =
      rw_clus_loop (unat n) True False (of_nat (base + unat off div 512)) data (off mod 512) 0 n s"
    "base * 512 + unat off + unat n \<le> 0x100000000" "clus_addr (vol s) c + ucast off = of_nat (base * 512 + unat off)"
    "unat (off mod 512) mod 512 = unat off mod 512" "unat (off mod 512) + unat n < 2 ^ 32"
    using rw_clus_pre [OF assms] by blast
  show ?thesis unfolding b(1,3)
    using rw_loop_write [OF s, of 0 n "off mod 512" "unat off" base "unat n" "of_nat (base + unat off div 512)" data] b(2,4,5) by simp
qed

section \<open>The bytes of a file\<close>

definition file_addr :: "fat \<Rightarrow> u32 list \<Rightarrow> nat \<Rightarrow> u64" where
  "file_addr f cs i = clus_addr f (cs ! (i div unat (byts_per_clus f))) + of_nat (i mod unat (byts_per_clus f))"

definition file_bytes :: "fsys \<Rightarrow> u32 list \<Rightarrow> nat \<Rightarrow> nat \<Rightarrow> u8 list" where
  "file_bytes s cs off n = map (\<lambda>i. dsk s (file_addr (vol s) cs i)) [off..<off + n]"

lemma length_file_bytes [simp]: "length (file_bytes s cs off n) = n" by (simp add: file_bytes_def)

lemma file_bytes_append: "file_bytes s cs off (m + n) = file_bytes s cs off m @ file_bytes s cs (off + m) n"
proof -
  have "[off..<off + (m + n)] = [off..<off + m] @ [off + m..<off + m + n]"
    by (metis upt_add_eq_append le_add1 add.assoc)
  then show ?thesis by (simp add: file_bytes_def)
qed

lemma divmod_unique:
  fixes a b r r' B :: nat
  assumes "r < B" "r' < B" "a * B + r = b * B + r'" shows "a = b \<and> r = r'"
proof -
  have "(a * B + r) div B = a" "(b * B + r') div B = b" using assms(1,2) by simp_all
  then show ?thesis using assms(3) by auto
qed

lemma div_mod_unique_within: "(r :: nat) < B \<Longrightarrow> (a * B + r) div B = a \<and> (a * B + r) mod B = r"
  by simp

lemma div_mod_within:
  fixes off i B :: nat
  assumes "off mod B + i < B"
  shows "(off + i) div B = off div B" "(off + i) mod B = off mod B + i"
proof -
  have "off + i = off div B * B + (off mod B + i)" by (simp add: div_mult_mod_eq)
  then show "(off + i) div B = off div B" "(off + i) mod B = off mod B + i"
    using assms div_mod_unique_within [of "off mod B + i" B "off div B"] by auto
qed

text \<open>The bytes from an offset to the end of its cluster are contiguous.\<close>

lemma file_addr_within:
  assumes "off mod unat (byts_per_clus f) + i < unat (byts_per_clus f)"
  shows "file_addr f cs (off + i) = file_addr f cs off + of_nat i"
  using div_mod_within [OF assms] by (simp add: file_addr_def add.assoc)

lemma read_in_clus:
  assumes "off mod unat (byts_per_clus (vol s)) + m \<le> unat (byts_per_clus (vol s))"
  shows "read_bytes (dsk s) (file_addr (vol s) cs off) m = file_bytes s cs off m"
proof (rule nth_equalityI)
  fix i assume "i < length (read_bytes (dsk s) (file_addr (vol s) cs off) m)"
  then have "i < m" by simp
  then show "read_bytes (dsk s) (file_addr (vol s) cs off) m ! i = file_bytes s cs off m ! i"
    using file_addr_within [of off "vol s" i cs] assms by (simp add: file_bytes_def)
qed simp

lemma unat_file_addr:
  assumes v: "vol_ok f" and c: "\<And>c. c \<in> set cs \<Longrightarrow> clus_ok f c" and i: "i < length cs * unat (byts_per_clus f)"
  defines "B \<equiv> unat (byts_per_clus f)"
  shows "i div B < length cs" "clus_ok f (cs ! (i div B))"
    "unat (file_addr f cs i) = unat (first_data_sec f) * 512 + (unat (cs ! (i div B)) - 2) * B + i mod B"
proof -
  have B: "0 < B" "B = unat (sec_per_clus f) * 512" using vol_okD(2,3) [OF v] by (simp_all add: B_def)
  show q: "i div B < length cs" using i B(1) by (simp add: less_mult_imp_div_less B_def)
  show k: "clus_ok f (cs ! (i div B))" using c q by simp
  let ?c = "unat (cs ! (i div B)) - 2"
  have "unat (first_data_sec f) + ?c * unat (sec_per_clus f) + unat (sec_per_clus f) \<le> 0x800000"
    using first_sec_ok [OF v k] by blast
  then have le: "unat (first_data_sec f) * 512 + ?c * B + B \<le> 0x100000000" unfolding B(2) by linarith
  have im: "i mod B < B" using B(1) by simp
  have "(unat (first_data_sec f) + ?c * unat (sec_per_clus f)) * 512 = unat (first_data_sec f) * 512 + ?c * B"
    unfolding B(2) by (simp add: add_mult_distrib)
  then have e: "file_addr f cs i = of_nat (unat (first_data_sec f) * 512 + ?c * B + i mod B)"
    unfolding file_addr_def clus_addr_def B_def [symmetric] by (metis of_nat_add)
  show "unat (file_addr f cs i) = unat (first_data_sec f) * 512 + ?c * B + i mod B"
    unfolding e by (rule unat_of_nat_u64) (use le im in simp)
qed

lemma file_addr_inj:
  assumes v: "vol_ok f" and c: "\<And>c. c \<in> set cs \<Longrightarrow> clus_ok f c" and d: "distinct cs"
  shows "inj_on (file_addr f cs) {..<length cs * unat (byts_per_clus f)}"
proof (rule inj_onI)
  let ?B = "unat (byts_per_clus f)"
  fix i j assume ij: "i \<in> {..<length cs * ?B}" "j \<in> {..<length cs * ?B}" "file_addr f cs i = file_addr f cs j"
  note ui = unat_file_addr [of f cs i, OF v c] and uj = unat_file_addr [of f cs j, OF v c]
  have B: "0 < ?B" using vol_okD(2,3) [OF v] by simp
  have "(unat (cs ! (i div ?B)) - 2) * ?B + i mod ?B = (unat (cs ! (j div ?B)) - 2) * ?B + j mod ?B"
    using ui(3) uj(3) ij by auto
  then have q: "unat (cs ! (i div ?B)) - 2 = unat (cs ! (j div ?B)) - 2" and m: "i mod ?B = j mod ?B"
    using divmod_unique [of "i mod ?B" ?B "j mod ?B" "unat (cs ! (i div ?B)) - 2" "unat (cs ! (j div ?B)) - 2"] B by simp_all
  have ge: "2 \<le> unat (cs ! (i div ?B))" "2 \<le> unat (cs ! (j div ?B))" using ui(2) uj(2) ij by (auto simp: clus_ok_def)
  then have "cs ! (i div ?B) = cs ! (j div ?B)" using q by (simp add: word_unat_eq_iff)
  then have "i div ?B = j div ?B" using nth_eq_iff_index_eq [OF d] ui(1) uj(1) ij by auto
  then show "i = j" using m by (metis div_mult_mod_eq)
qed

section \<open>Reading a file\<close>

definition file_read :: "fsys \<Rightarrow> fsys \<Rightarrow> nat \<Rightarrow> u32 list \<Rightarrow> u64 \<Rightarrow> u8 list \<Rightarrow> bool" where
  "file_read s s' e cs dst bs \<longleftrightarrow> (\<exists>c i. i < length cs \<and> quiet c \<and> disk c = dsk s
     \<and> s' = s\<lparr>bufs := c, ents := (ents s)(e := at_clus e cs i (ents s e)),
              kst := (kst s)\<lparr>mem := write_bytes (mem (kst s)) dst bs\<rparr>\<rparr>)"

lemma file_read_step:
  assumes "moved s s1 e cs i" "i < length cs" "loaded s1 s2 dst bs"
  shows "file_read s s2 e cs dst bs"
  using assms unfolding moved_def loaded_def file_read_def by (auto intro!: exI [of _ i])

lemma file_read_refl: "fs_ok s \<Longrightarrow> on_chain s e cs \<Longrightarrow> file_read s s e cs dst []"
  unfolding file_read_def
  by (intro exI [of _ "bufs s"] exI [of _ "unat (clus_cnt (ents s e))"]) (auto simp: fs_ok_def on_chain_def at_clus_def fun_upd_idem)

lemma file_read_trans:
  assumes "file_read s s1 e cs a xs" "file_read s1 s2 e cs (a + of_nat (length xs)) ys" "length xs + length ys < 2 ^ 64"
  shows "file_read s s2 e cs a (xs @ ys)"
proof -
  obtain c i where 1: "disk c = dsk s" "s1 = s\<lparr>bufs := c, ents := (ents s)(e := at_clus e cs i (ents s e)),
      kst := (kst s)\<lparr>mem := write_bytes (mem (kst s)) a xs\<rparr>\<rparr>" using assms(1) unfolding file_read_def by blast
  obtain c' j where 2: "j < length cs" "quiet c'" "disk c' = dsk s1"
    "s2 = s1\<lparr>bufs := c', ents := (ents s1)(e := at_clus e cs j (ents s1 e)),
      kst := (kst s1)\<lparr>mem := write_bytes (mem (kst s1)) (a + of_nat (length xs)) ys\<rparr>\<rparr>"
    using assms(2) unfolding file_read_def by blast
  show ?thesis unfolding file_read_def
    by (intro exI [of _ c'] exI [of _ j]) (use 1 2 write_bytes_append [OF assms(3)] in \<open>simp add: at_clus_def\<close>)
qed

lemma file_readD:
  assumes "file_read s s' e cs a bs"
  shows "vol s' = vol s" "dsk s' = dsk s" "quiet (bufs s')" "fat_entry s' c = fat_entry s c"
    "first_clus (ents s' e) = first_clus (ents s e)" "mem (kst s') = write_bytes (mem (kst s)) a bs"
  using assms by (auto simp: file_read_def fat_entry_def at_clus_def)

lemma file_read_on_chain:
  assumes r: "file_read s s' e cs a bs" and s: "fs_ok s" "on_chain s e cs"
  shows "fs_ok s'" "on_chain s' e cs"
proof -
  show "fs_ok s'" using file_readD [OF r] s(1) by (simp add: fs_ok_def)
  obtain i where i: "i < length cs" "ents s' e = at_clus e cs i (ents s e)" using r unfolding file_read_def by auto
  have "unat (of_nat i :: u32) = i" using on_chain_length [OF s] i(1) by (simp add: unat_of_nat)
  moreover have "chain (fat_entry s') (vol s') cs"
    using s(2) file_readD(1,4) [OF r] chain_cong [of cs "fat_entry s'" "fat_entry s" "vol s"] by (simp add: on_chain_def)
  ultimately show "on_chain s' e cs" using s(2) i by (simp add: on_chain_def at_clus_def)
qed

lemma clus_chunk_word:
  fixes off tot n B :: u32
  assumes "tot < n" "0 < B"
  defines "m \<equiv> let m = B - off mod B in if n - tot < m then n - tot else m"
  shows "0 < unat m" "unat m \<le> unat n - unat tot" "unat off mod unat B + unat m \<le> unat B" "unat (tot + m) = unat tot + unat m"
proof -
  have B: "0 < unat B" using assms(2) by (simp add: word_less_nat_alt)
  have om: "unat (off mod B) = unat off mod unat B" by (simp add: unat_mod_distrib)
  have ob: "unat off mod unat B < unat B" using B by simp
  then have "off mod B \<le> B" using om by (simp add: word_le_nat_alt)
  then have bm: "unat (B - off mod B) = unat B - unat off mod unat B" using om by (simp add: unat_sub)
  have nt: "unat (n - tot) = unat n - unat tot" using assms(1) by (intro unat_sub) simp
  have r: "0 < unat n - unat tot" using assms(1) by (simp add: word_less_nat_alt)
  have m: "unat m = min (unat B - unat off mod unat B) (unat n - unat tot)"
    using bm nt by (auto simp: m_def Let_def word_less_nat_alt min_def)
  then show "0 < unat m" "unat m \<le> unat n - unat tot" "unat off mod unat B + unat m \<le> unat B" using r ob by auto
  then have "unat tot + unat m < 2 ^ 32" using unat_u32_less [of n] r by linarith
  then show "unat (tot + m) = unat tot + unat m" by (simp add: unat_word_ariths)
qed

lemma eread_loop_ok:
  assumes "fs_ok s" "on_chain s e cs" "tot \<le> n" "unat off + (unat n - unat tot) \<le> length cs * unat (byts_per_clus (vol s))"
    "unat off + (unat n - unat tot) < 2 ^ 32" "unat n - unat tot \<le> k"
  shows "\<exists>s'. eread_loop k e False dst off tot n s = Ret (n, s')
    \<and> file_read s s' e cs dst (file_bytes s cs (unat off) (unat n - unat tot))"
  using assms
proof (induction k arbitrary: s tot off dst)
  case 0
  then have "tot = n" by (simp add: word_le_nat_alt word_unat_eq_iff)
  then show ?case using file_read_refl [OF 0(1,2)] by (simp add: file_bytes_def)
next
  case (Suc k)
  show ?case
  proof (cases "tot < n")
    case False
    then have "tot = n" using Suc.prems(3) by simp
    then show ?thesis using file_read_refl [OF Suc.prems(1,2)] by (simp add: file_bytes_def)
  next
    case True
    let ?B = "byts_per_clus (vol s)"
    let ?m = "let m = ?B - off mod ?B in if n - tot < m then n - tot else m"
    have v: "vol_ok (vol s)" using Suc.prems(1) by (simp add: fs_ok_def)
    have B: "0 < unat ?B" using vol_okD(2,3) [OF v] by simp
    then have B': "0 < ?B" by (simp add: word_less_nat_alt)
    note m = clus_chunk_word [OF True B', of off]
    let ?i = "unat off div unat ?B"
    have i: "?i < length cs" using Suc.prems(4) True by (intro less_mult_imp_div_less) (simp add: word_less_nat_alt)
    obtain s1 where s1: "reloc_clus e off False s = Ret (uint (off mod ?B), s1)" "moved s s1 e cs ?i"
      using reloc_clus_ok [OF Suc.prems(1,2) i] by blast
    have ok1: "fs_ok s1" by (rule moved_ok [OF s1(2) Suc.prems(1)])
    have ch: "chain (fat_entry s) (vol s) cs" using Suc.prems(2) by (simp add: on_chain_def)
    have c: "clus_ok (vol s) (cs ! ?i)" using chain_ok [OF ch] i by simp
    have cc: "cur_clus (ents s1 e) = cs ! ?i" using movedD(7) [OF s1(2)] by (simp add: at_clus_def)
    have om: "unat (off mod ?B) = unat off mod unat ?B" by (simp add: unat_mod_distrib)
    have fa: "clus_addr (vol s) (cs ! ?i) + ucast (off mod ?B) = file_addr (vol s) cs (unat off)"
      unfolding file_addr_def om [symmetric] by simp
    obtain s2 where s2: "rw_clus (cs ! ?i) False False dst (off mod ?B) ?m s1 = Ret (?m, s2)"
      "loaded s1 s2 dst (read_bytes (dsk s) (file_addr (vol s) cs (unat off)) (unat ?m))"
      using rw_clus_read [OF ok1, of "cs ! ?i" "off mod ?B" ?m dst] c m(3) om fa movedD(1,5) [OF s1(2)] by auto
    let ?bs = "file_bytes s cs (unat off) (unat ?m)"
    have fr: "file_read s s2 e cs dst ?bs"
      using file_read_step [OF s1(2) i s2(2)] read_in_clus [of "unat off" s "unat ?m" cs] m(3) by simp
    have cur: "cur_clus (ents s e) < FAT32_EOC"
      using Suc.prems(2) chain_ok [OF ch] clus_ok_not_end [OF v] by (simp add: on_chain_def)
    have o: "unat (off + ?m) = unat off + unat ?m"
      using Suc.prems(5) m(2) by (simp add: unat_word_ariths del: Let_def)
    have tn: "unat n - unat (tot + ?m) = unat n - unat tot - unat ?m" using m(4) by simp
    have "\<exists>s'. eread_loop k e False (dst + ucast ?m) (off + ?m) (tot + ?m) n s2 = Ret (n, s')
      \<and> file_read s2 s' e cs (dst + ucast ?m) (file_bytes s2 cs (unat (off + ?m)) (unat n - unat (tot + ?m)))"
    proof (rule Suc.IH)
      show "fs_ok s2" "on_chain s2 e cs" using file_read_on_chain [OF fr Suc.prems(1,2)] by auto
      show "tot + ?m \<le> n" using m(2,4) True by (simp add: word_le_nat_alt word_less_nat_alt)
      show "unat (off + ?m) + (unat n - unat (tot + ?m)) \<le> length cs * unat (byts_per_clus (vol s2))"
        unfolding tn o file_readD(1) [OF fr] using m(2) Suc.prems(4) by linarith
      show "unat (off + ?m) + (unat n - unat (tot + ?m)) < 2 ^ 32" unfolding tn o using m(2) Suc.prems(5) by linarith
      show "unat n - unat (tot + ?m) \<le> k" unfolding tn using m(1) Suc.prems(6) by linarith
    qed
    then obtain s' where s': "eread_loop k e False (dst + ucast ?m) (off + ?m) (tot + ?m) n s2 = Ret (n, s')"
      "file_read s2 s' e cs (dst + of_nat (length ?bs)) (file_bytes s cs (unat off + unat ?m) (unat n - unat tot - unat ?m))"
      using tn o file_readD(1,2) [OF fr] by (auto simp: file_bytes_def)
    have "file_read s s' e cs dst (?bs @ file_bytes s cs (unat off + unat ?m) (unat n - unat tot - unat ?m))"
      by (rule file_read_trans [OF fr s'(2)]) (use m(2) unat_u32_less [of n] in simp)
    then have "file_read s s' e cs dst (file_bytes s cs (unat off) (unat n - unat tot))"
      using file_bytes_append [of s cs "unat off" "unat ?m" "unat n - unat tot - unat ?m"] m(2)
      by (metis le_add_diff_inverse)
    moreover have "eread_loop (Suc k) e False dst off tot n s = Ret (n, s')"
      using True cur s1(1) s2(1) s'(1) cc movedD(1) [OF s1(2)]
      by (cases "n - tot < ?B - off mod ?B") (simp_all add: Let_def)
    ultimately show ?thesis by blast
  qed
qed

section \<open>Writing a file\<close>

definition file_written :: "fsys \<Rightarrow> fsys \<Rightarrow> nat \<Rightarrow> u32 list \<Rightarrow> nat \<Rightarrow> u8 list \<Rightarrow> bool" where
  "file_written s s' e cs off bs \<longleftrightarrow> (\<exists>c i. i < length cs \<and> quiet c
     \<and> s' = s\<lparr>bufs := c, ents := (ents s)(e := at_clus e cs i (ents s e))\<rparr>)
     \<and> (\<forall>j < length bs. dsk s' (file_addr (vol s) cs (off + j)) = bs ! j)
     \<and> (\<forall>a. a \<notin> file_addr (vol s) cs ` {off..<off + length bs} \<longrightarrow> dsk s' a = dsk s a)"

lemma file_writtenD:
  assumes "file_written s s' e cs off bs"
  shows "vol s' = vol s" "kst s' = kst s" "quiet (bufs s')" "cur_pt s' = cur_pt s"
    "first_clus (ents s' e) = first_clus (ents s e)" "file_size (ents s' e) = file_size (ents s e)"
  using assms by (auto simp: file_written_def at_clus_def)

lemma file_written_refl: "fs_ok s \<Longrightarrow> on_chain s e cs \<Longrightarrow> file_written s s e cs off []"
  unfolding file_written_def
  by (auto simp: fs_ok_def on_chain_def at_clus_def fun_upd_idem
      intro!: exI [of _ "bufs s"] exI [of _ "unat (clus_cnt (ents s e))"])

text \<open>Bytes of the table are not bytes of a file.\<close>

lemma file_addr_above:
  assumes "vol_ok f" "\<And>c. c \<in> set cs \<Longrightarrow> clus_ok f c" "i < length cs * unat (byts_per_clus f)"
  shows "unat (first_data_sec f) * 512 \<le> unat (file_addr f cs i)"
  using unat_file_addr(3) [of f cs i, OF assms(1,2,3)] by simp

lemma fat_entry_file_written:
  assumes w: "file_written s s' e cs off bs" and v: "vol_ok (vol s)" and c: "\<And>c. c \<in> set cs \<Longrightarrow> clus_ok (vol s) c"
    and b: "off + length bs \<le> length cs * unat (byts_per_clus (vol s))" and x: "clus_ok (vol s) x"
  shows "fat_entry s' x = fat_entry s x"
proof -
  have "dsk s' (fat_addr (vol s) x + of_nat i) = dsk s (fat_addr (vol s) x + of_nat i)" if i: "i < 4" for i
  proof -
    let ?b = "unat (rsvd_sec_cnt (vol s)) * 512 + unat x * 4 + i"
    note vd = vol_okD [OF v]
    have le: "?b < unat (first_data_sec (vol s)) * 512" using vd(4,6) x i by (simp add: clus_ok_def)
    have e: "fat_addr (vol s) x + of_nat i = of_nat ?b" by (simp add: fat_addr_def)
    have "unat (fat_addr (vol s) x + of_nat i) = ?b" unfolding e by (rule unat_of_nat_u64) (use le vd(5) in simp)
    then have "file_addr (vol s) cs j \<noteq> fat_addr (vol s) x + of_nat i" if "j < off + length bs" for j
      using file_addr_above [of "vol s" cs j, OF v c] b le that by auto
    then have "fat_addr (vol s) x + of_nat i \<notin> file_addr (vol s) cs ` {off..<off + length bs}" by force
    then show ?thesis using w by (simp add: file_written_def)
  qed
  then show ?thesis using read_bytes_cong [of 4 "dsk s'" "fat_addr (vol s) x" "dsk s"] file_writtenD(1) [OF w]
    by (simp add: fat_entry_def)
qed

lemma file_written_on_chain:
  assumes w: "file_written s s' e cs off bs" and s: "fs_ok s" "on_chain s e cs"
    and b: "off + length bs \<le> length cs * unat (byts_per_clus (vol s))"
  shows "fs_ok s'" "on_chain s' e cs"
proof -
  have v: "vol_ok (vol s)" using s(1) by (simp add: fs_ok_def)
  have ch: "chain (fat_entry s) (vol s) cs" using s(2) by (simp add: on_chain_def)
  show "fs_ok s'" using file_writtenD [OF w] s(1) by (simp add: fs_ok_def)
  obtain i where i: "i < length cs" "ents s' e = at_clus e cs i (ents s e)" using w unfolding file_written_def by auto
  have "unat (of_nat i :: u32) = i" using on_chain_length [OF s] i(1) by (simp add: unat_of_nat)
  moreover have "chain (fat_entry s') (vol s') cs"
    using ch file_writtenD(1) [OF w] fat_entry_file_written [OF w v chain_ok [OF ch] b chain_ok [OF ch]]
      chain_cong [of cs "fat_entry s'" "fat_entry s" "vol s"] by simp
  ultimately show "on_chain s' e cs" using s(2) i by (simp add: on_chain_def at_clus_def)
qed

lemma file_written_trans:
  assumes w1: "file_written s s1 e cs off xs" and w2: "file_written s1 s2 e cs (off + length xs) ys"
    and inj: "inj_on (file_addr (vol s) cs) {..<length cs * unat (byts_per_clus (vol s))}"
    and b: "off + length xs + length ys \<le> length cs * unat (byts_per_clus (vol s))"
  shows "file_written s s2 e cs off (xs @ ys)"
proof -
  let ?A = "file_addr (vol s) cs"
  have v1: "vol s1 = vol s" by (rule file_writtenD(1) [OF w1])
  have st: "\<exists>c i. i < length cs \<and> quiet c \<and> s2 = s\<lparr>bufs := c, ents := (ents s)(e := at_clus e cs i (ents s e))\<rparr>"
  proof -
    obtain c i where 1: "s1 = s\<lparr>bufs := c, ents := (ents s)(e := at_clus e cs i (ents s e))\<rparr>"
      using w1 unfolding file_written_def by blast
    obtain c' j where "j < length cs" "quiet c'" "s2 = s1\<lparr>bufs := c', ents := (ents s1)(e := at_clus e cs j (ents s1 e))\<rparr>"
      using w2 unfolding file_written_def by blast
    then show ?thesis using 1 by (intro exI [of _ c'] exI [of _ j]) (simp add: at_clus_def)
  qed
  have x: "dsk s2 (?A (off + j)) = xs ! j" if j: "j < length xs" for j
  proof -
    have "?A (off + j) \<notin> ?A ` {off + length xs..<off + length xs + length ys}"
      using inj_onD [OF inj, of "off + j"] b j by fastforce
    then have "dsk s2 (?A (off + j)) = dsk s1 (?A (off + j))" using w2 unfolding file_written_def v1 by blast
    then show ?thesis using w1 j unfolding file_written_def by simp
  qed
  have y: "dsk s2 (?A (off + j)) = ys ! (j - length xs)" if "length xs \<le> j" "j < length xs + length ys" for j
  proof -
    have "j - length xs < length ys" using that by simp
    then have "dsk s2 (?A (off + length xs + (j - length xs))) = ys ! (j - length xs)"
      using w2 unfolding file_written_def v1 by blast
    then show ?thesis using that by simp
  qed
  have o: "dsk s2 a = dsk s a" if "a \<notin> ?A ` {off..<off + length (xs @ ys)}" for a
  proof -
    have "a \<notin> ?A ` {off..<off + length xs}" "a \<notin> ?A ` {off + length xs..<off + length xs + length ys}" using that by auto
    then show ?thesis using w1 w2 unfolding file_written_def v1 by simp
  qed
  show ?thesis unfolding file_written_def using st x y o by (auto simp: nth_append not_less)
qed

lemma file_written_step:
  assumes m: "moved s s1 e cs i" "i < length cs"
    and w: "io s1 s2 (write_bytes (dsk s1) (file_addr (vol s) cs off) bs)"
    and b: "off mod unat (byts_per_clus (vol s)) + length bs \<le> unat (byts_per_clus (vol s))" "length bs < 2 ^ 64"
  shows "file_written s s2 e cs off bs"
proof -
  let ?A = "file_addr (vol s) cs"
  have A: "?A (off + j) = ?A off + of_nat j" if "j < length bs" for j using file_addr_within [of off "vol s" j cs] b that by simp
  have st: "\<exists>c i. i < length cs \<and> quiet c \<and> s2 = s\<lparr>bufs := c, ents := (ents s)(e := at_clus e cs i (ents s e))\<rparr>"
  proof -
    obtain c where 1: "s1 = s\<lparr>bufs := c, ents := (ents s)(e := at_clus e cs i (ents s e))\<rparr>" using m(1) unfolding moved_def by blast
    obtain c' where "quiet c'" "s2 = s1\<lparr>bufs := c'\<rparr>" using w unfolding io_def by blast
    then show ?thesis using 1 m(2) by (intro exI [of _ c'] exI [of _ i]) simp
  qed
  have d: "dsk s2 = write_bytes (dsk s) (?A off) bs" using ioD(6) [OF w] movedD(5) [OF m(1)] by simp
  have "dsk s2 (?A (off + j)) = bs ! j" if "j < length bs" for j
    using that b(2) unfolding A [OF that] d write_bytes_def by (simp add: unat_of_nat)
  moreover have "dsk s2 a = dsk s a" if n: "a \<notin> ?A ` {off..<off + length bs}" for a
  proof -
    have "\<not> unat (a - ?A off) < length bs"
    proof
      assume l: "unat (a - ?A off) < length bs"
      then have "?A (off + unat (a - ?A off)) = a" using A [OF l] by simp
      then show False using n l by (metis atLeastLessThan_iff image_eqI le_add1 nat_add_left_cancel_less)
    qed
    then show ?thesis unfolding d write_bytes_def by simp
  qed
  ultimately show ?thesis unfolding file_written_def using st by blast
qed

lemma ewrite_loop_ok:
  assumes "fs_ok s" "on_chain s e cs" "tot \<le> n" "unat off + (unat n - unat tot) \<le> length cs * unat (byts_per_clus (vol s))"
    "unat off + (unat n - unat tot) < 2 ^ 32" "unat n - unat tot \<le> k"
  shows "\<exists>s'. ewrite_loop k e False src off tot n s = Ret (n, off + (n - tot), s')
    \<and> file_written s s' e cs (unat off) (read_bytes (mem (kst s)) src (unat n - unat tot))"
  using assms
proof (induction k arbitrary: s tot off src)
  case 0
  then have "tot = n" by (simp add: word_le_nat_alt word_unat_eq_iff)
  then show ?case using file_written_refl [OF 0(1,2)] by (simp add: read_bytes_def)
next
  case (Suc k)
  show ?case
  proof (cases "tot < n")
    case False
    then have "tot = n" using Suc.prems(3) by simp
    then show ?thesis using file_written_refl [OF Suc.prems(1,2)] by (simp add: read_bytes_def)
  next
    case True
    let ?B = "byts_per_clus (vol s)"
    let ?m = "let m = ?B - off mod ?B in if n - tot < m then n - tot else m"
    have v: "vol_ok (vol s)" using Suc.prems(1) by (simp add: fs_ok_def)
    have B: "0 < unat ?B" using vol_okD(2,3) [OF v] by simp
    then have B': "0 < ?B" by (simp add: word_less_nat_alt)
    note m = clus_chunk_word [OF True B', of off]
    let ?i = "unat off div unat ?B"
    have i: "?i < length cs" using Suc.prems(4) True by (intro less_mult_imp_div_less) (simp add: word_less_nat_alt)
    obtain s1 where s1: "reloc_clus e off True s = Ret (uint (off mod ?B), s1)" "moved s s1 e cs ?i"
      using reloc_clus_ok [OF Suc.prems(1,2) i] by blast
    have ok1: "fs_ok s1" by (rule moved_ok [OF s1(2) Suc.prems(1)])
    have ch: "chain (fat_entry s) (vol s) cs" "distinct cs" using Suc.prems(2) by (auto simp: on_chain_def)
    have c: "clus_ok (vol s) (cs ! ?i)" using chain_ok [OF ch(1)] i by simp
    have cc: "cur_clus (ents s1 e) = cs ! ?i" using movedD(7) [OF s1(2)] by (simp add: at_clus_def)
    have om: "unat (off mod ?B) = unat off mod unat ?B" by (simp add: unat_mod_distrib)
    have fa: "clus_addr (vol s) (cs ! ?i) + ucast (off mod ?B) = file_addr (vol s) cs (unat off)"
      unfolding file_addr_def om [symmetric] by simp
    let ?bs = "read_bytes (mem (kst s)) src (unat ?m)"
    obtain s2 where s2: "rw_clus (cs ! ?i) True False src (off mod ?B) ?m s1 = Ret (?m, s2)"
      "io s1 s2 (write_bytes (dsk s1) (file_addr (vol s) cs (unat off)) ?bs)"
      using rw_clus_write [OF ok1, of "cs ! ?i" "off mod ?B" ?m src] c m(3) om fa movedD(1,2) [OF s1(2)] by auto
    have fw: "file_written s s2 e cs (unat off) ?bs"
      by (rule file_written_step [OF s1(2) i s2(2)]) (use m(2,3) unat_u32_less [of n] in simp_all)
    have bd: "unat off + length ?bs \<le> length cs * unat ?B" using Suc.prems(4) m(2) by simp
    have inj: "inj_on (file_addr (vol s) cs) {..<length cs * unat ?B}" by (rule file_addr_inj [OF v chain_ok [OF ch(1)] ch(2)])
    have o: "unat (off + ?m) = unat off + unat ?m"
      using Suc.prems(5) m(2) by (simp add: unat_word_ariths del: Let_def)
    have tn: "unat n - unat (tot + ?m) = unat n - unat tot - unat ?m" using m(4) by simp
    have "\<exists>s'. ewrite_loop k e False (src + ucast ?m) (off + ?m) (tot + ?m) n s2 = Ret (n, off + ?m + (n - (tot + ?m)), s')
      \<and> file_written s2 s' e cs (unat (off + ?m)) (read_bytes (mem (kst s2)) (src + ucast ?m) (unat n - unat (tot + ?m)))"
    proof (rule Suc.IH)
      show "fs_ok s2" "on_chain s2 e cs" using file_written_on_chain [OF fw Suc.prems(1,2) bd] by auto
      show "tot + ?m \<le> n" using m(2,4) True by (simp add: word_le_nat_alt word_less_nat_alt)
      show "unat (off + ?m) + (unat n - unat (tot + ?m)) \<le> length cs * unat (byts_per_clus (vol s2))"
        unfolding tn o file_writtenD(1) [OF fw] using m(2) Suc.prems(4) by linarith
      show "unat (off + ?m) + (unat n - unat (tot + ?m)) < 2 ^ 32" unfolding tn o using m(2) Suc.prems(5) by linarith
      show "unat n - unat (tot + ?m) \<le> k" unfolding tn using m(1) Suc.prems(6) by linarith
    qed
    then obtain s' where s': "ewrite_loop k e False (src + ucast ?m) (off + ?m) (tot + ?m) n s2 = Ret (n, off + ?m + (n - (tot + ?m)), s')"
      "file_written s2 s' e cs (unat off + length ?bs) (read_bytes (mem (kst s)) (src + of_nat (unat ?m)) (unat n - unat tot - unat ?m))"
      using tn o file_writtenD(2) [OF fw] by auto
    have "file_written s s' e cs (unat off) (?bs @ read_bytes (mem (kst s)) (src + of_nat (unat ?m)) (unat n - unat tot - unat ?m))"
      by (rule file_written_trans [OF fw s'(2) inj]) (use m(2) Suc.prems(4) in simp)
    then have "file_written s s' e cs (unat off) (read_bytes (mem (kst s)) src (unat n - unat tot))"
      by (simp only: read_bytes_split [OF m(2), of "mem (kst s)" src])
    moreover have "off + ?m + (n - (tot + ?m)) = off + (n - tot)" by (simp add: diff_diff_eq [symmetric] del: Let_def)
    moreover have "ewrite_loop (Suc k) e False src off tot n s = Ret (n, off + ?m + (n - (tot + ?m)), s')"
      using True s1(1) s2(1) s'(1) cc movedD(1) [OF s1(2)]
      by (cases "n - tot < ?B - off mod ?B") (simp_all add: Let_def)
    ultimately show ?thesis by auto
  qed
qed

end
