(* ===== verification/Fatfile.thy ===== *)
theory Fatfile
  imports Fatvol
begin

text \<open>
  The properties of reading, writing and truncating files, and of the allocation of clusters.
\<close>

section \<open>Clearing and allocating a cluster\<close>

lemma change_sec_zero:
  assumes s: "fs_ok s" and sec: "sec_ok sec"
  shows "change_sec sec (\<lambda>ds. replicate BSIZE 0) s = change_sec sec (put_at 0 (replicate 512 0)) s"
proof -
  have q: "quiet (bufs s)" using s by (simp add: fs_ok_def)
  obtain b c1 where b: "bread (cur_pid s) 0 sec (bufs s) = Ret (b, c1)" "bdata (node c1 b) = sector (dsk s) sec"
    using bread_quiet [OF q sec, of "cur_pid s"] by blast
  have "put_at 0 (replicate 512 0) (sector (dsk s) sec) = replicate BSIZE 0" by (simp add: put_at_def)
  then show ?thesis using b by (simp add: change_sec_def use_sec_def use_block_def)
qed

lemma zero_clus_loop_io:
  assumes "fs_ok s" "unat sec + k \<le> 0x800000"
  shows "\<exists>s'. zero_clus_loop k sec s = Ret s' \<and> io s s' (write_bytes (dsk s) (of_nat (unat sec * 512)) (replicate (k * 512) 0))"
  using assms
proof (induction k arbitrary: sec s)
  case 0
  then show ?case using io_refl [of s] by auto
next
  case (Suc k)
  have sec: "sec_ok sec" using Suc.prems(2) by (simp add: sec_ok_def word_less_nat_alt)
  have u: "unat (sec + 1) = unat sec + 1" using Suc.prems(2) by (simp add: unat_word_ariths)
  let ?a = "of_nat (unat sec * 512) :: u64"
  obtain s1 where s1: "change_sec sec (\<lambda>ds. replicate BSIZE 0) s = Ret s1" "io s s1 (write_bytes (dsk s) ?a (replicate 512 0))"
    using change_sec_io [OF Suc.prems(1) sec, of 0 "replicate 512 0"] change_sec_zero [OF Suc.prems(1) sec]
    by (auto simp: sector_addr_nat [OF sec])
  obtain s2 where s2: "zero_clus_loop k (sec + 1) s1 = Ret s2"
    "io s1 s2 (write_bytes (dsk s1) (of_nat (unat (sec + 1) * 512)) (replicate (k * 512) 0))"
    using Suc.IH [of s1 "sec + 1"] io_fs_ok [OF s1(2) Suc.prems(1)] Suc.prems(2) u by auto
  have e: "of_nat (unat (sec + 1) * 512) = ?a + of_nat (length (replicate 512 (0 :: u8)))"
    unfolding u by (simp add: add_mult_distrib)
  have "io s s2 (write_bytes (dsk s) ?a (replicate 512 0 @ replicate (k * 512) 0))"
    by (rule io_append [OF s1(2)]) (use s2(2) e Suc.prems(2) in simp_all)
  then show ?case using s1(1) s2(1) by (simp add: replicate_add [symmetric])
qed

lemma zero_clus_io:
  assumes s: "fs_ok s" and c: "clus_ok (vol s) c"
  shows "\<exists>s'. zero_clus c s = Ret s'
    \<and> io s s' (write_bytes (dsk s) (clus_addr (vol s) c) (replicate (unat (byts_per_clus (vol s))) 0))"
proof -
  have v: "vol_ok (vol s)" using s by (simp add: fs_ok_def)
  obtain sec where sec: "first_sec_of_clus (vol s) c = Ret sec"
    "unat sec = unat (first_data_sec (vol s)) + (unat c - 2) * unat (sec_per_clus (vol s))"
    "unat sec + unat (sec_per_clus (vol s)) \<le> 0x800000" using first_sec_ok [OF v c] by auto
  have "clus_addr (vol s) c = of_nat (unat sec * 512)" unfolding clus_addr_def sec(2) ..
  then show ?thesis using zero_clus_loop_io [OF s sec(3)] sec(1) not_bad_clus [OF v c] vol_okD(3) [OF v]
    by (simp add: zero_clus_def)
qed

text \<open>The entry in the first sector of the table.\<close>

lemma free_slot_entry:
  assumes s: "fs_ok s" and j: "free_slot 128 (sector (dsk s) (ucast (rsvd_sec_cnt (vol s)))) = Some j"
  shows "j < 128" "fat_entry s (of_nat j) = 0" "sec_ok (ucast (rsvd_sec_cnt (vol s)))"
    "sector_addr (ucast (rsvd_sec_cnt (vol s))) + of_nat (4 * j) = fat_addr (vol s) (of_nat j)"
proof -
  let ?sec = "ucast (rsvd_sec_cnt (vol s)) :: u32"
  have jj: "j \<in> set [0..<128] \<and> u32_at (sector (dsk s) ?sec) (4 * j) = 0" using j unfolding free_slot_def by (rule find_SomeD)
  then show l: "j < 128" by simp
  have r: "unat (rsvd_sec_cnt (vol s)) < 0x10000" using unsigned_less [where w = "rsvd_sec_cnt (vol s)" and 'a = nat] by simp
  then have us: "unat ?sec = unat (rsvd_sec_cnt (vol s))" by (simp add: unsigned_ucast_eq take_bit_nat_eq_self)
  show so: "sec_ok ?sec" using us r by (simp add: sec_ok_def word_less_nat_alt)
  have "unat (of_nat j :: u32) = j" using l by (simp add: unat_of_nat)
  then show e: "sector_addr ?sec + of_nat (4 * j) = fat_addr (vol s) (of_nat j)"
    unfolding sector_addr_nat [OF so] us fat_addr_def by (simp add: mult.commute)
  have "take 4 (drop (4 * j) (sector (dsk s) ?sec)) = read_bytes (dsk s) (fat_addr (vol s) (of_nat j)) 4"
    unfolding sector_def e [symmetric] by (rule take_drop_read_bytes) (use l in simp)
  then show "fat_entry s (of_nat j) = 0" using jj by (simp add: fat_entry_def u32_at_def)
qed

lemma disk_binit [simp]: "disk (binit c) = disk c"
proof -
  have "disk (fold binit_one bs c) = disk c" for bs c by (induction bs arbitrary: c) (simp_all add: binit_one_def)
  then show ?thesis by (simp add: binit_def)
qed


section \<open>A small volume\<close>

text \<open>One reserved sector, one sector of table, ten clusters of one sector; cluster 2 ends a chain and
  belongs to entry 0, a file of 300 bytes; clusters 3 and 4 are free and cluster 5 is in use.\<close>

definition small_vol :: fat where
  "small_vol = \<lparr>first_data_sec = 2, data_sec_cnt = 10, data_clus_cnt = 10, byts_per_clus = 512, byts_per_sec = 512,
     sec_per_clus = 1, rsvd_sec_cnt = 1, fat_cnt = 1, hidd_sec = 0, tot_sec = 12, fat_sz = 1, root_clus = 2\<rparr>"

definition small_disk :: memory where
  "small_disk = (\<lambda>a. if a < 512 then 0 else if a < 524 \<or> 532 \<le> a \<and> a < 536 then (if a mod 4 = 3 then 0x0f else 0xff)
     else if a < 1024 then 0 else 7)"

definition small_file :: dirent where
  "small_file = (root_dirent 2)\<lparr>attribute := 0, file_size := 300\<rparr>"

definition small_fs :: fsys where
  "small_fs = \<lparr>vol = small_vol, bufs = binit \<lparr>node = (\<lambda>_. undefined), disk = small_disk\<rparr>,
     ents = (\<lambda>_. small_file), kst = \<lparr>mem = (\<lambda>_. 9), freelist = 0, npage = 0, kernel_end = 0\<rparr>, cur_pid = 1, cur_pt = 0, ksp = 0x9000\<rparr>"

lemma small_fs_ok: "fs_ok small_fs"
  by (simp add: fs_ok_def small_fs_def quiet_binit vol_ok_def small_vol_def)

lemma small_clus_ok: "2 \<le> unat c \<Longrightarrow> unat c \<le> 11 \<Longrightarrow> clus_ok small_vol c"
  by (simp add: clus_ok_def small_vol_def)

lemma read4: "read_bytes d a 4 = [d a, d (a + 1), d (a + 2), d (a + 3)]"
  by (simp add: read_bytes_def upt_rec)

lemma small_fat_entry:
  "fat_entry small_fs 2 = 0x0fffffff" "fat_entry small_fs 5 = 0x0fffffff"
proof -
  have a: "fat_addr small_vol 2 = 520" "fat_addr small_vol 5 = 532" by (simp_all add: fat_addr_def small_vol_def)
  have "read_bytes small_disk 520 4 = [0xff, 0xff, 0xff, 0x0f]" "read_bytes small_disk 532 4 = [0xff, 0xff, 0xff, 0x0f]"
    by (simp_all add: read_bytes_def small_disk_def upt_rec)
  then show "fat_entry small_fs 2 = 0x0fffffff" "fat_entry small_fs 5 = 0x0fffffff"
    by (simp_all add: fat_entry_def small_fs_def a)
qed

lemma small_on_chain: "on_chain small_fs 0 [2]"
proof -
  have "end_mark 0x0fffffff" by (simp add: end_mark_def word_sle_eq)
  moreover have "vol small_fs = small_vol" "ents small_fs 0 = small_file" by (simp_all add: small_fs_def)
  ultimately show ?thesis using small_fat_entry small_clus_ok [of 2]
    by (simp add: on_chain_def small_file_def root_dirent_def)
qed


section \<open>Reading, writing and truncating files\<close>





text \<open>(C31) \<^verbatim>\<open>etrunc\<close> returns and frees exactly the clusters of the file: their entries become 0, all other entries and
  all data stay, and the file is left empty without a cluster.\<close>

theorem etrunc_frees_chain:
  assumes s: "fs_ok s" and ch: "chain (fat_entry s) (vol s) cs" "distinct cs" and e: "first_clus (ents s e) = hd cs"
  shows "\<exists>s'. etrunc e s = Ret s'
    \<and> (\<forall>c. clus_ok (vol s) c \<longrightarrow> fat_entry s' c = (if c \<in> set cs then 0 else fat_entry s c))
    \<and> (\<forall>a. unat (first_data_sec (vol s)) * 512 \<le> unat a \<longrightarrow> dsk s' a = dsk s a)
    \<and> file_size (ents s' e) = 0 \<and> first_clus (ents s' e) = 0 \<and> fs_ok s'"
proof -
  have "length cs \<le> chain_bound s" using distinct_clusters_length [OF ch(2) chain_ok [OF ch(1)]] by (simp add: chain_bound_def)
  then obtain s1 d where t: "etrunc_loop (chain_bound s) (hd cs) s = Ret s1" "io s s1 d"
    "\<forall>c. clus_ok (vol s) c \<longrightarrow> fat_entry s1 c = (if c \<in> set cs then 0 else fat_entry s c)"
    "\<forall>a. unat (first_data_sec (vol s)) * 512 \<le> unat a \<longrightarrow> d a = dsk s a"
    using etrunc_loop_frees [OF s ch] by blast
  let ?s = "set_ent e (\<lambda>x. x\<lparr>file_size := 0, first_clus := 0, dirty := True\<rparr>) s1"
  have "etrunc e s = Ret ?s" using t(1) e by (simp add: etrunc_def)
  moreover have "fat_entry ?s = fat_entry s1" by (rule ext) (simp add: fat_entry_def)
  moreover have "dsk ?s = d" "fs_ok ?s" using ioD(6) [OF t(2)] io_fs_ok [OF t(2) s] by (simp_all add: fs_ok_def)
  ultimately show ?thesis using t(3,4) by auto
qed

theorem etrunc_frees_chain_witness:
  "\<exists>s'. etrunc 0 small_fs = Ret s' \<and> fat_entry s' 2 = 0 \<and> fat_entry s' 5 = fat_entry small_fs 5"
proof -
  have "chain (fat_entry small_fs) (vol small_fs) [2]" "distinct [2 :: u32]" "first_clus (ents small_fs 0) = hd [2]"
    using small_on_chain by (auto simp: on_chain_def)
  moreover have "clus_ok (vol small_fs) 2" "clus_ok (vol small_fs) 5" by (simp_all add: clus_ok_def small_fs_def small_vol_def)
  ultimately show ?thesis using etrunc_frees_chain [OF small_fs_ok, of "[2]" 0] by auto
qed

lemma etruncate_skip_ok:
  assumes "fs_ok s" "chain (fat_entry s) (vol s) cs" "length cs \<le> k"
  shows "\<exists>s' clus. etruncate_skip k True (hd cs) s = Ret (clus, s') \<and> \<not> in_chain clus \<and> io s s' (dsk s)"
  using assms
proof (induction cs arbitrary: s k)
  case (Cons c cs)
  obtain k' where k: "k = Suc k'" using Cons.prems(3) by (cases k) auto
  have v: "vol_ok (vol s)" using Cons.prems(1) by (simp add: fs_ok_def)
  have c: "clus_ok (vol s) c" using chain_ok [OF Cons.prems(2)] by simp
  obtain s1 where s1: "read_fat c s = Ret (fat_entry s c, s1)" "io s s1 (dsk s)" using read_fat_ok [OF Cons.prems(1) c] by blast
  have step: "etruncate_skip k True c s = etruncate_skip k' True (fat_entry s c) s1"
    using clus_ok_not_end [OF v c] s1(1) k by simp
  show ?case
  proof (cases cs)
    case Nil
    then have "\<not> in_chain (fat_entry s c)" using Cons.prems(2) end_mark_le [of "fat_entry s c"] by (auto simp: in_chain_def not_less)
    then have "etruncate_skip k' True (fat_entry s c) s1 = Ret (fat_entry s c, s1)" by (cases k') auto
    then show ?thesis using step s1(2) \<open>\<not> in_chain (fat_entry s c)\<close> by auto
  next
    case (Cons d ds)
    then have ch: "chain (fat_entry s) (vol s) cs" "fat_entry s c = hd cs" using Cons.prems(2) by auto
    have fe: "fat_entry s1 = fat_entry s" using ioD(1,6) [OF s1(2)] by (auto simp: fat_entry_def)
    then have "chain (fat_entry s1) (vol s1) cs" using ch(1) ioD(1) [OF s1(2)] by simp
    then obtain s' clus where ih: "etruncate_skip k' True (hd cs) s1 = Ret (clus, s')" "\<not> in_chain clus" "io s1 s' (dsk s1)"
      using Cons.IH [of s1 k'] io_fs_ok [OF s1(2) Cons.prems(1)] Cons.prems(3) k by auto
    then have "io s s' (dsk s)" using io_trans [OF s1(2) ih(3)] ioD(6) [OF s1(2)] by simp
    then show ?thesis using step ch(2) ih by auto
  qed
qed simp

text \<open>(C33) \<^verbatim>\<open>etruncate\<close> to a positive length frees nothing: it sets the size and leaves the table and the disk as they
  were, because its first loop never counts the clusters it passes and runs to the end of the chain.\<close>

theorem etruncate_frees_nothing:
  assumes s: "fs_ok s" and ch: "chain (fat_entry s) (vol s) cs" "distinct cs" and e: "first_clus (ents s e) = hd cs"
    and len: "0 < len" "len \<le> file_size (ents s e)" "len < 0x80000000"
  shows "\<exists>s'. etruncate e len s = Ret (0, s') \<and> dsk s' = dsk s \<and> file_size (ents s' e) = len"
proof -
  let ?B = "byts_per_clus (vol s)" and ?s1 = "set_ent e (\<lambda>x. x\<lparr>file_size := len\<rparr>) s"
  let ?num = "if len mod ?B \<noteq> 0 then len div ?B + 1 else len div ?B"
  have v: "vol_ok (vol s)" using s by (simp add: fs_ok_def)
  have B: "512 \<le> unat ?B" using vol_okD(2,3) [OF v] by simp
  have dm: "unat (len div ?B) = unat len div unat ?B" "unat (len mod ?B) = unat len mod unat ?B"
    by (simp_all add: unat_div_distrib unat_mod_distrib)
  have l: "0 < unat len" "unat len < 0x80000000" using len by (simp_all add: word_less_nat_alt word_gt_0)
  have "unat len div unat ?B \<le> unat len div 512" using B by (intro div_le_mono2) simp_all
  then have q: "unat len div unat ?B < 0x400000" using l(2) by simp
  have pos: "0 < unat ?num \<and> unat ?num < 0x80000000"
  proof (cases "len mod ?B = 0")
    case True
    then have "unat len mod unat ?B = 0" using dm(2) by simp
    then have "0 < unat len div unat ?B" using l(1) by (metis div_mult_mod_eq add.right_neutral mult_zero_left neq0_conv)
    then show ?thesis using True dm(1) q by simp
  next
    case False
    have "unat (len div ?B + 1) = unat len div unat ?B + 1" using dm(1) q by (simp add: unat_word_ariths)
    then show ?thesis using False q by simp
  qed
  have "0 <s ?num"
  proof -
    have "sint ?num = int (unat ?num)" by (rule sint_u32) (use pos in simp)
    then have "0 < sint ?num" using pos by (simp only: of_nat_0_less_iff)
    then show ?thesis unfolding word_sless_alt by simp
  qed
  moreover have ok1: "fs_ok ?s1" using s by (simp add: fs_ok_def)
  have fe: "fat_entry ?s1 = fat_entry s" by (rule ext) (simp add: fat_entry_def)
  have "length cs \<le> chain_bound s" using distinct_clusters_length [OF ch(2) chain_ok [OF ch(1)]] by (simp add: chain_bound_def)
  then obtain s' clus where k: "etruncate_skip (chain_bound s) True (hd cs) ?s1 = Ret (clus, s')" "\<not> in_chain clus" "io ?s1 s' (dsk s)"
    using etruncate_skip_ok [OF ok1, of cs "chain_bound s"] ch(1) fe by auto
  have "etrunc_loop (chain_bound s) clus s' = Ret s'" using k(2) by (cases "chain_bound s") auto
  moreover have "\<not> len > file_size (ents s e)" using len(2) by simp
  ultimately have "etruncate e len s = Ret (0, s')" using k(1) e by (simp add: etruncate_def Let_def)
  then show ?thesis using ioD(2,6) [OF k(3)] by auto
qed

theorem etruncate_frees_nothing_witness:
  "\<exists>s'. etruncate 0 1 small_fs = Ret (0, s') \<and> dsk s' = dsk small_fs"
proof -
  have "chain (fat_entry small_fs) (vol small_fs) [2]" "distinct [2 :: u32]" "first_clus (ents small_fs 0) = hd [2]"
    using small_on_chain by (auto simp: on_chain_def)
  moreover have "(1 :: u32) \<le> file_size (ents small_fs 0)" by (simp add: small_fs_def small_file_def)
  ultimately show ?thesis using etruncate_frees_nothing [OF small_fs_ok, of "[2]" 0 1] by auto
qed

end
