(* ===== verification/Fatdir.thy ===== *)
theory Fatdir
  imports Fatvol
begin

text \<open>
  The directory part of \<^verbatim>\<open>kernel/fat32.c\<close>: names, the 32-byte entries of a directory, the entry cache and the
  lookup of paths. A C string argument is the list of its bytes before the terminating zero;
  the \<^verbatim>\<open>filename\<close> of an entry is the whole array. \<^verbatim>\<open>char\<close> is signed on this target. An access outside an
  array, which the language leaves undefined, is \<open>Panic ''out of bounds''\<close>.
\<close>

section \<open>Names\<close>

definition cstr :: "u8 list \<Rightarrow> u8 list" where
  "cstr buf = takeWhile (\<lambda>c. c \<noteq> 0) buf"

definition same_name :: "u8 list \<Rightarrow> u8 list \<Rightarrow> bool" where
  "same_name a b \<longleftrightarrow> take FAT32_MAX_FILENAME a = take FAT32_MAX_FILENAME b"

abbreviation sp :: u8 where "sp \<equiv> 0x20"
abbreviation dot :: u8 where "dot \<equiv> 0x2e"
abbreviation slash :: u8 where "slash \<equiv> 0x2f"

definition illegal_long :: "u8 list" where
  "illegal_long = [0x22, 0x2a, 0x2f, 0x3a, 0x3c, 0x3e, 0x3f, 0x5c, 0x7c]"

definition formatname :: "u8 list \<Rightarrow> u8 list option" where
  "formatname name =
     (let name = dropWhile (\<lambda>c. c = sp \<or> c = dot) name in
      if \<exists>c \<in> set name. c <s 0x20 \<or> c \<in> set illegal_long then None
      else Some (rev (dropWhile (\<lambda>c. c = sp) (rev name))))"

definition illegal_short :: "u8 list" where
  "illegal_short = [0x2b, 0x2c, 0x3b, 0x3d, 0x5b, 0x5d]"

definition last_dot :: "u8 list \<Rightarrow> nat option" where
  "last_dot name = find (\<lambda>j. name ! j = dot) (rev [0..<length name])"

text \<open>The loop of \<^verbatim>\<open>generate_shortname\<close>: \<open>k\<close> is the index \<^verbatim>\<open>name\<close> points to, \<open>p\<close> the index of the last dot or
  \<open>None\<close> for the null pointer, \<open>out\<close> what is written so far.\<close>

function shortname_loop :: "u8 list \<Rightarrow> nat \<Rightarrow> nat option \<Rightarrow> u8 list \<Rightarrow> u8 list" where
  "shortname_loop name k p out =
     (if length out < 11 \<and> k < length name
      then let c = name ! k; k1 = k + 1 in
        if length out = 8 \<and> p \<noteq> None
        then if the p + 1 < k1 then out else shortname_loop name (the p + 1) None out
        else if c = sp then shortname_loop name k1 p out
        else if c = dot
          then (if p = None \<or> k1 > the p then shortname_loop name k1 None (out @ replicate (8 - length out) sp)
                else shortname_loop name k1 p out)
        else shortname_loop name k1 p
               (out @ [if 0x61 \<le> c \<and> c \<le> 0x7a then c - 0x20 else if c \<in> set illegal_short then 0x5f else c])
      else out)"
  by pat_completeness auto

termination
  by (relation "measure (\<lambda>(name, k, p, out). length name - k)") auto

declare shortname_loop.simps [simp del]

definition generate_shortname :: "u8 list \<Rightarrow> u8 list" where
  "generate_shortname name =
     (let out = shortname_loop name 0 (case last_dot name of None \<Rightarrow> Some 0 | Some j \<Rightarrow> Some j) []
      in out @ replicate (11 - length out) sp)"

primrec cal_checksum_loop :: "u8 list \<Rightarrow> u8 \<Rightarrow> u8" where
  "cal_checksum_loop [] acc = acc"
| "cal_checksum_loop (c # cs) acc =
     cal_checksum_loop cs ((if acc AND 1 \<noteq> 0 then 0x80 else 0) + drop_bit 1 acc + c)"

definition cal_checksum :: "u8 list \<Rightarrow> u8" where
  "cal_checksum shortname = cal_checksum_loop (take 11 shortname) 0"

section \<open>Entries on the disk\<close>

definition LAST_LONG_ENTRY :: u8 where [simp]: "LAST_LONG_ENTRY = 0x40"
definition EMPTY_ENTRY :: u8 where [simp]: "EMPTY_ENTRY = 0xe5"
definition END_OF_ENTRY :: u8 where [simp]: "END_OF_ENTRY = 0x00"
definition CHAR_LONG_NAME :: nat where [simp]: "CHAR_LONG_NAME = 13"
definition CHAR_SHORT_NAME :: nat where [simp]: "CHAR_SHORT_NAME = 11"

text \<open>The short entry: name, attribute, the halves of the first cluster and the size.\<close>

definition sne_bytes :: "u8 list \<Rightarrow> u8 \<Rightarrow> u32 \<Rightarrow> u32 \<Rightarrow> u8 list" where
  "sne_bytes name attr clus sz =
     take 11 name @ [attr] @ replicate 8 0 @ le_bytes 2 (ucast (drop_bit 16 clus) :: u16)
     @ replicate 4 0 @ le_bytes 2 (ucast (clus AND 0xffff) :: u16) @ le_bytes 4 sz"

text \<open>The characters of one long entry as 16-bit units: up to and including the zero, then \<^verbatim>\<open>0xffff\<close>.\<close>

primrec wide_chars :: "nat \<Rightarrow> bool \<Rightarrow> u8 list \<Rightarrow> u8 list" where
  "wide_chars 0 fin p = []"
| "wide_chars (Suc n) fin p =
     (if fin then [0xff, 0xff] @ wide_chars n True p
      else [hd p, 0] @ wide_chars n (hd p = 0) (tl p))"

definition lne_bytes :: "u8 \<Rightarrow> u8 \<Rightarrow> u8 list \<Rightarrow> u8 list" where
  "lne_bytes order checksum p =
     (let w = wide_chars CHAR_LONG_NAME False p in
      [order] @ take 10 w @ [ATTR_LONG_NAME, 0, checksum] @ take 12 (drop 10 w) @ [0, 0] @ drop 22 w)"

definition lne_order :: "nat \<Rightarrow> nat \<Rightarrow> u8" where
  "lne_order entcnt i = (if i = entcnt then of_nat i OR LAST_LONG_ENTRY else of_nat i)"

definition long_entries :: "u8 list \<Rightarrow> nat" where
  "long_entries name = (length name + CHAR_LONG_NAME - 1) div CHAR_LONG_NAME"

text \<open>Local variables that are read or written through \<^verbatim>\<open>rw_clus\<close>.\<close>

definition set_local :: "u8 list \<Rightarrow> fsys \<Rightarrow> fsys" where
  "set_local bs s = s\<lparr>kst := (kst s)\<lparr>mem := write_bytes (mem (kst s)) (ksp s) bs\<rparr>\<rparr>"

definition get_local :: "nat \<Rightarrow> fsys \<Rightarrow> u8 list" where
  "get_local n s = read_bytes (mem (kst s)) (ksp s) n"

definition write_dentry :: "nat \<Rightarrow> u32 \<Rightarrow> u8 list \<Rightarrow> fsys \<Rightarrow> fsys res" where
  "write_dentry dp off bs s =
     bind_res (reloc_clus dp off True s) (\<lambda>(off2, s1).
     bind_res (rw_clus (cur_clus (ents s1 dp)) True False (ksp s1) (of_int off2) 32 (set_local bs s1)) (\<lambda>(n, s2). Ret s2))"

primrec emake_long :: "nat \<Rightarrow> nat \<Rightarrow> u8 \<Rightarrow> nat \<Rightarrow> u8 list \<Rightarrow> u32 \<Rightarrow> fsys \<Rightarrow> (u32 \<times> fsys) res" where
  "emake_long 0 entcnt checksum dp name off s = Ret (off, s)"
| "emake_long (Suc i) entcnt checksum dp name off s =
     bind_res (write_dentry dp off (lne_bytes (lne_order entcnt (Suc i)) checksum (drop (i * CHAR_LONG_NAME) name)) s) (\<lambda>s1.
       emake_long i entcnt checksum dp name (off + 32) s1)"

definition emake :: "nat \<Rightarrow> nat \<Rightarrow> u32 \<Rightarrow> fsys \<Rightarrow> fsys res" where
  "emake dp ep off s =
     (if attribute (ents s dp) AND ATTR_DIRECTORY = 0 then Panic ''emake: not dir''
      else if off mod 32 \<noteq> 0 then Panic ''emake: not aligned''
      else if off \<le> 32
        then write_dentry dp off (sne_bytes (if off = 0 then dot # replicate 10 sp else [dot, dot] @ replicate 9 sp)
               ATTR_DIRECTORY (first_clus (ents s ep)) 0) s
        else let name = filename (ents s ep); entcnt = long_entries (cstr name); short = generate_shortname (cstr name) in
          bind_res (emake_long entcnt entcnt (cal_checksum short) dp name off s) (\<lambda>(off1, s1).
            write_dentry dp off1 (sne_bytes short (attribute (ents s1 ep)) (first_clus (ents s1 ep)) (file_size (ents s1 ep))) s1))"

section \<open>Reading entries\<close>

text \<open>\<^verbatim>\<open>snstr\<close> of \<^verbatim>\<open>kernel/string.c\<close> on arrays: \<open>ws\<close> are the bytes of the 16-bit units, \<open>i\<close> the index in the buffer.\<close>

primrec snstr_buf :: "nat \<Rightarrow> nat \<Rightarrow> u8 list \<Rightarrow> u8 list \<Rightarrow> u8 list" where
  "snstr_buf 0 i ws buf = buf"
| "snstr_buf (Suc len) i ws buf =
     (if ws ! 0 \<noteq> 0 \<or> ws ! 1 \<noteq> 0 then snstr_buf len (i + 1) (drop 2 ws) (buf[i := ws ! 0])
      else put_at i (replicate len 0) buf)"

definition read_long_name :: "nat \<Rightarrow> u8 list \<Rightarrow> u8 list \<Rightarrow> u8 list" where
  "read_long_name i d buf =
     (let b1 = snstr_buf 5 i (take 10 (drop 1 d)) buf; b2 = snstr_buf 6 (i + 5) (take 12 (drop 14 d)) b1
      in snstr_buf 2 (i + 11) (take 4 (drop 28 d)) b2)"

definition short_name :: "u8 list \<Rightarrow> u8 list" where
  "short_name d =
     (let base = takeWhile (\<lambda>c. c \<noteq> sp) (take 8 d); ext = takeWhile (\<lambda>c. c \<noteq> sp) (take 3 (drop 8 d))
      in base @ (if d ! 8 \<noteq> sp then [dot] else []) @ ext)"

definition read_entry_name :: "nat \<Rightarrow> u8 list \<Rightarrow> u8 list \<Rightarrow> u8 list res" where
  "read_entry_name i d buf =
     (if d ! 11 = ATTR_LONG_NAME
      then if i + 13 \<le> length buf then Ret (read_long_name i d buf) else Panic ''out of bounds''
      else Ret (put_at i (short_name d) (put_at i (replicate 13 0) buf)))"

definition read_entry_info :: "u8 list \<Rightarrow> dirent \<Rightarrow> dirent" where
  "read_entry_info d x =
     (let clus = push_bit 16 (ucast (u16_at d 20)) OR ucast (u16_at d 26) in
      x\<lparr>attribute := d ! 11, first_clus := clus, file_size := u32_at d 28, cur_clus := clus, clus_cnt := 0\<rparr>)"

text \<open>The loop of \<^verbatim>\<open>enext\<close>. \<open>cnt\<close> counts free slots, \<open>cp\<close> is false once the pointer \<^verbatim>\<open>count\<close> is cleared. The result is the
  return value, what is stored through \<^verbatim>\<open>count\<close> if anything is, and the state. After \<open>2 ^ 27\<close> rounds the
  offset would be back at its start.\<close>

primrec enext_loop :: "nat \<Rightarrow> nat \<Rightarrow> nat \<Rightarrow> u32 \<Rightarrow> nat \<Rightarrow> bool \<Rightarrow> int \<Rightarrow> fsys \<Rightarrow> (int \<times> int \<times> fsys) res" where
  "enext_loop 0 dp ep off cnt cp count s = Stuck"
| "enext_loop (Suc k) dp ep off cnt cp count s =
     bind_res (reloc_clus dp off False s) (\<lambda>(off2, s1).
       if off2 = -1 then Ret (-1, count, s1)
       else bind_res (rw_clus (cur_clus (ents s1 dp)) False False (ksp s1) (of_int off2) 32 s1) (\<lambda>(n, s2).
         let d = get_local 32 s2 in
         if n \<noteq> 32 \<or> d ! 0 = END_OF_ENTRY then Ret (-1, count, s2)
         else if d ! 0 = EMPTY_ENTRY then enext_loop k dp ep (off + 32) (cnt + 1) cp count s2
         else if cnt \<noteq> 0 then (if cp then Ret (0, int cnt, s2) else Panic ''out of bounds'')
         else if d ! 11 = ATTR_LONG_NAME
         then let lcnt = unat (d ! 0 AND NOT LAST_LONG_ENTRY); last = d ! 0 AND LAST_LONG_ENTRY \<noteq> 0 in
           if last \<and> \<not> cp \<or> lcnt = 0 then Panic ''out of bounds''
           else bind_res (read_entry_name ((lcnt - 1) * CHAR_LONG_NAME) d (filename (ents s2 ep))) (\<lambda>fn.
             enext_loop k dp ep (off + 32) cnt (cp \<and> \<not> last) (if last then int lcnt + 1 else count)
               (set_ent ep (\<lambda>x. x\<lparr>filename := fn\<rparr>) s2))
         else if cp
         then bind_res (read_entry_name 0 d (filename (ents s2 ep))) (\<lambda>fn.
           Ret (1, 1, set_ent ep (\<lambda>x. read_entry_info d (x\<lparr>filename := fn\<rparr>)) s2))
         else Ret (1, count, set_ent ep (read_entry_info d) s2)))"

definition enext :: "nat \<Rightarrow> nat \<Rightarrow> u32 \<Rightarrow> int \<Rightarrow> fsys \<Rightarrow> (int \<times> int \<times> fsys) res" where
  "enext dp ep off count s =
     (if attribute (ents s dp) AND ATTR_DIRECTORY = 0 then Panic ''enext not dir''
      else if off mod 32 \<noteq> 0 then Panic ''enext not align''
      else if evalid (ents s dp) \<noteq> 1 then Ret (-1, count, s)
      else enext_loop 0x8000000 dp ep off 0 True count
             (set_ent ep (\<lambda>x. x\<lparr>filename := replicate (FAT32_MAX_FILENAME + 1) 0\<rparr>) s))"

section \<open>Changing entries\<close>

text \<open>One byte of the directory at \<open>off2\<close>, read into a zeroed local variable.\<close>

definition read_entcnt :: "nat \<Rightarrow> int \<Rightarrow> fsys \<Rightarrow> (nat \<times> fsys) res" where
  "read_entcnt dp off2 s =
     bind_res (rw_clus (cur_clus (ents s dp)) False False (ksp s) (of_int off2) 1 (set_local [0, 0, 0, 0] s)) (\<lambda>(n, s1).
       Ret (unat (hd (get_local 1 s1) AND NOT LAST_LONG_ENTRY), s1))"

definition eupdate :: "nat \<Rightarrow> fsys \<Rightarrow> fsys res" where
  "eupdate e s =
     (if \<not> dirty (ents s e) \<or> evalid (ents s e) \<noteq> 1 then Ret s
      else let dp = parent (ents s e) in
        bind_res (reloc_clus dp (eoff (ents s e)) False s) (\<lambda>(off, s1).
        bind_res (read_entcnt dp off s1) (\<lambda>(entcnt, s2).
        bind_res (reloc_clus dp (eoff (ents s2 e) + of_nat (entcnt * 32)) False s2) (\<lambda>(off2, s3).
        bind_res (rw_clus (cur_clus (ents s3 dp)) False False (ksp s3) (of_int off2) 32 s3) (\<lambda>(n, s4).
          let x = ents s4 e; d = get_local 32 s4;
              d1 = put_at 20 (le_bytes 2 (ucast (drop_bit 16 (first_clus x)) :: u16)) d;
              d2 = put_at 26 (le_bytes 2 (ucast (first_clus x AND 0xffff) :: u16)) d1;
              d3 = put_at 28 (le_bytes 4 (file_size x)) d2 in
        bind_res (rw_clus (cur_clus (ents s4 dp)) True False (ksp s4) (of_int off2) 32 (set_local d3 s4)) (\<lambda>(n', s5).
          Ret (set_ent e (\<lambda>y. y\<lparr>dirty := False\<rparr>) s5)))))))"

primrec eremove_loop :: "nat \<Rightarrow> nat \<Rightarrow> u32 \<Rightarrow> int \<Rightarrow> fsys \<Rightarrow> fsys res" where
  "eremove_loop 0 dp off off2 s = Ret s"
| "eremove_loop (Suc k) dp off off2 s =
     bind_res (rw_clus (cur_clus (ents s dp)) True False (ksp s) (of_int off2) 1 (set_local [EMPTY_ENTRY] s)) (\<lambda>(n, s1).
     bind_res (reloc_clus dp (off + 32) False s1) (\<lambda>(off2', s2). eremove_loop k dp (off + 32) off2' s2))"

definition eremove :: "nat \<Rightarrow> fsys \<Rightarrow> fsys res" where
  "eremove e s =
     (if evalid (ents s e) \<noteq> 1 then Ret s
      else let dp = parent (ents s e); off = eoff (ents s e) in
        bind_res (reloc_clus dp off False s) (\<lambda>(off2, s1).
        bind_res (read_entcnt dp off2 s1) (\<lambda>(entcnt, s2).
        bind_res (eremove_loop (entcnt + 1) dp off off2 s2) (\<lambda>s3.
          Ret (set_ent e (\<lambda>x. x\<lparr>evalid := -1\<rparr>) s3)))))"

section \<open>The entry cache\<close>

definition edup :: "nat \<Rightarrow> fsys \<Rightarrow> fsys" where
  "edup e s = set_ent e (\<lambda>x. x\<lparr>ref := ref x + 1\<rparr>) s"

definition elock :: "nat \<Rightarrow> fsys \<Rightarrow> fsys res" where
  "elock e s =
     (if ref (ents s e) < 1 then Panic ''elock''
      else case acquiresleep (cur_pid s) (elk (ents s e)) of
          None \<Rightarrow> Stuck
        | Some lk \<Rightarrow> Ret (set_ent e (\<lambda>x. x\<lparr>elk := lk\<rparr>) s))"

definition eunlock :: "nat \<Rightarrow> fsys \<Rightarrow> fsys res" where
  "eunlock e s =
     (if \<not> holdingsleep (cur_pid s) (elk (ents s e)) \<or> ref (ents s e) < 1 then Panic ''eunlock''
      else Ret (set_ent e (\<lambda>x. x\<lparr>elk := releasesleep (elk x)\<rparr>) s))"

partial_function (option) find_entry :: "fsys \<Rightarrow> nat \<Rightarrow> u8 list \<Rightarrow> nat \<Rightarrow> nat option option" where
  "find_entry s dp name e =
     (if e = root then Some None
      else if evalid (ents s e) = 1 \<and> parent (ents s e) = dp \<and> same_name (cstr (filename (ents s e))) name then Some (Some e)
      else find_entry s dp name (enxt (ents s e)))"

partial_function (option) find_unref :: "fsys \<Rightarrow> nat \<Rightarrow> nat option option" where
  "find_unref s e =
     (if e = root then Some None
      else if ref (ents s e) = 0 then Some (Some e)
      else find_unref s (eprev (ents s e)))"

definition eget_new :: "nat \<Rightarrow> fsys \<Rightarrow> (nat \<times> fsys) res" where
  "eget_new dp s =
     (case find_unref s (eprev (ents s root)) of
        None \<Rightarrow> Stuck
      | Some None \<Rightarrow> Panic ''eget: insufficient ecache''
      | Some (Some e) \<Rightarrow> Ret (e, set_ent e (\<lambda>x. x\<lparr>ref := 1, edev := edev (ents s dp), eoff := 0, evalid := 0, dirty := False\<rparr>) s))"

definition eget :: "nat \<Rightarrow> u8 list \<Rightarrow> fsys \<Rightarrow> (nat \<times> fsys) res" where
  "eget dp name s =
     (case find_entry s dp name (enxt (ents s root)) of
        None \<Rightarrow> Stuck
      | Some (Some e) \<Rightarrow>
          let s1 = set_ent e (\<lambda>x. x\<lparr>ref := ref x + 1\<rparr>) s in
          Ret (e, if ref (ents s e) = 0 then set_ent (parent (ents s1 e)) (\<lambda>x. x\<lparr>ref := ref x + 1\<rparr>) s1 else s1)
      | Some None \<Rightarrow> eget_new dp s)"

definition eunlink_node :: "nat \<Rightarrow> fsys \<Rightarrow> fsys" where
  "eunlink_node e s =
     (let s1 = set_ent (enxt (ents s e)) (\<lambda>x. x\<lparr>eprev := eprev (ents s e)\<rparr>) s
      in set_ent (eprev (ents s1 e)) (\<lambda>x. x\<lparr>enxt := enxt (ents s1 e)\<rparr>) s1)"

text \<open>\<^verbatim>\<open>eput\<close> calls itself on the parent; the first argument bounds the depth.\<close>

primrec eput :: "nat \<Rightarrow> nat \<Rightarrow> fsys \<Rightarrow> fsys res" where
  "eput 0 e s = Stuck"
| "eput (Suc k) e s =
     (if e \<noteq> root \<and> evalid (ents s e) \<noteq> 0 \<and> ref (ents s e) = 1
      then case acquiresleep (cur_pid s) (elk (ents s e)) of
          None \<Rightarrow> Stuck
        | Some lk \<Rightarrow>
          let s1 = elink_front e (eunlink_node e (set_ent e (\<lambda>x. x\<lparr>elk := lk\<rparr>) s)); dp = parent (ents s1 e) in
          bind_res (if evalid (ents s1 e) = -1 then etrunc e s1
                    else bind_res (elock dp s1) (\<lambda>s2. bind_res (eupdate e s2) (eunlock dp))) (\<lambda>s2.
            let s3 = set_ent e (\<lambda>x. x\<lparr>elk := releasesleep (elk x)\<rparr>) s2; eparent = parent (ents s3 e);
                s4 = set_ent e (\<lambda>x. x\<lparr>ref := ref x - 1\<rparr>) s3 in
            if ref (ents s4 e) = 0 then eput k eparent s4 else Ret s4)
      else Ret (set_ent e (\<lambda>x. x\<lparr>ref := ref x - 1\<rparr>) s))"

text \<open>A chain of parents is no longer than the cache.\<close>

definition eput_depth :: nat where "eput_depth = ENTRY_CACHE_NUM + 2"

section \<open>Directories\<close>

text \<open>The condition of the loop is \<^verbatim>\<open>(type = enext(...) != -1)\<close>, so \<^verbatim>\<open>type\<close> is 1 in every round and free slots are
  compared like names. \<open>want\<close> says whether \<^verbatim>\<open>poff\<close> is not null.\<close>

primrec dirlookup_loop :: "nat \<Rightarrow> nat \<Rightarrow> nat \<Rightarrow> u8 list \<Rightarrow> u32 \<Rightarrow> int \<Rightarrow> fsys \<Rightarrow> (nat option \<times> u32 \<times> fsys) res" where
  "dirlookup_loop 0 dp ep name off count s = Stuck"
| "dirlookup_loop (Suc k) dp ep name off count s =
     bind_res (enext dp ep off count s) (\<lambda>(r, count, s1).
       if r = -1 then Ret (None, off, s1)
       else if same_name name (cstr (filename (ents s1 ep)))
       then Ret (Some ep, off, set_ent ep (\<lambda>x. x\<lparr>parent := dp, eoff := off, evalid := 1\<rparr>) (edup dp s1))
       else dirlookup_loop k dp ep name (off + of_int (count * 32)) count s1)"

definition dirlookup :: "nat \<Rightarrow> u8 list \<Rightarrow> fsys \<Rightarrow> (nat option \<times> u32 option \<times> fsys) res" where
  "dirlookup dp name s =
     (if attribute (ents s dp) AND ATTR_DIRECTORY = 0 then Panic ''dirlookup not DIR''
      else if name = [dot] then Ret (Some dp, None, edup dp s)
      else if name = [dot, dot]
        then (if dp = root then Ret (Some root, None, edup root s)
              else Ret (Some (parent (ents s dp)), None, edup (parent (ents s dp)) s))
      else if evalid (ents s dp) \<noteq> 1 then Ret (None, None, s)
      else bind_res (eget dp name s) (\<lambda>(ep, s1).
        if evalid (ents s1 ep) = 1 then Ret (Some ep, None, s1)
        else bind_res (reloc_clus dp 0 False s1) (\<lambda>(r, s2).
          bind_res (dirlookup_loop 0x8000000 dp ep name 0 0 s2) (\<lambda>(found, off, s3).
            case found of
              Some e \<Rightarrow> Ret (Some e, None, s3)
            | None \<Rightarrow> bind_res (eput eput_depth ep s3) (\<lambda>s4. Ret (None, Some off, s4))))))"

text \<open>\<^verbatim>\<open>strncpy\<close> into the name array, which pads with zeros; the last byte is set to zero.\<close>

definition name_array :: "u8 list \<Rightarrow> u8 list" where
  "name_array name = take FAT32_MAX_FILENAME (name @ replicate FAT32_MAX_FILENAME 0) @ [0]"

definition ealloc :: "nat \<Rightarrow> u8 list \<Rightarrow> u8 \<Rightarrow> fsys \<Rightarrow> (nat option \<times> fsys) res" where
  "ealloc dp name attr s =
     (if attribute (ents s dp) AND ATTR_DIRECTORY = 0 then Panic ''ealloc not dir''
      else if evalid (ents s dp) \<noteq> 1 then Ret (None, s)
      else case formatname name of
        None \<Rightarrow> Ret (None, s)
      | Some name \<Rightarrow>
        bind_res (dirlookup dp name s) (\<lambda>(found, poff, s1).
          case found of
            Some e \<Rightarrow> Ret (Some e, s1)
          | None \<Rightarrow>
            let off = (case poff of None \<Rightarrow> 0 | Some off \<Rightarrow> off) in
            bind_res (eget dp name s1) (\<lambda>(ep, s2).
            bind_res (elock ep s2) (\<lambda>s3.
            let s4 = set_ent ep (\<lambda>x. x\<lparr>attribute := attr, file_size := 0, first_clus := 0, parent := dp, eoff := off,
                       clus_cnt := 0, cur_clus := 0, dirty := False, filename := name_array name\<rparr>) (edup dp s3) in
            bind_res (if attr = ATTR_DIRECTORY
              then bind_res (alloc_clus (edev (ents s4 dp)) (set_ent ep (\<lambda>x. x\<lparr>attribute := attribute x OR ATTR_DIRECTORY\<rparr>) s4)) (\<lambda>(c, s5).
                bind_res (emake ep ep 0 (set_ent ep (\<lambda>x. x\<lparr>cur_clus := c, first_clus := c\<rparr>) s5)) (emake ep dp 32))
              else Ret (set_ent ep (\<lambda>x. x\<lparr>attribute := attribute x OR ATTR_ARCHIVE\<rparr>) s4)) (\<lambda>s5.
            bind_res (emake dp ep off s5) (\<lambda>s6.
            bind_res (eunlock ep (set_ent ep (\<lambda>x. x\<lparr>evalid := 1\<rparr>) s6)) (\<lambda>s7. Ret (Some ep, s7))))))))"

section \<open>Paths\<close>

text \<open>\<^verbatim>\<open>skipelem\<close>: the next element, at most 255 bytes of it, and the rest of the path.\<close>

definition skipelem :: "u8 list \<Rightarrow> (u8 list \<times> u8 list) option" where
  "skipelem path =
     (case dropWhile (\<lambda>c. c = slash) path of
        [] \<Rightarrow> None
      | c # cs \<Rightarrow>
          let el = takeWhile (\<lambda>c. c \<noteq> slash) (c # cs); rest = dropWhile (\<lambda>c. c \<noteq> slash) (c # cs)
          in Some (take FAT32_MAX_FILENAME el, dropWhile (\<lambda>c. c = slash) rest))"

lemma dropWhile_length: "length (dropWhile P xs) \<le> length xs"
  by (induction xs) auto

lemma skipelem_shorter: "skipelem path = Some (name, rest) \<Longrightarrow> length rest < length path"
proof -
  assume a: "skipelem path = Some (name, rest)"
  obtain c cs where d: "dropWhile (\<lambda>c. c = slash) path = c # cs" using a by (auto simp: skipelem_def split: list.splits)
  have "c \<noteq> slash" using hd_dropWhile [of "\<lambda>c. c = slash" path] d by simp
  then have "rest = dropWhile (\<lambda>c. c = slash) (dropWhile (\<lambda>c. c \<noteq> slash) cs)" using a d by (simp add: skipelem_def Let_def)
  then have "length rest \<le> length cs" by (simp add: order_trans [OF dropWhile_length dropWhile_length])
  then show ?thesis using d dropWhile_length [of "\<lambda>c. c = slash" path] by simp
qed

text \<open>The loop of \<^verbatim>\<open>lookup_path\<close> and \<^verbatim>\<open>new_lookup_path\<close>; \<open>par\<close> is the argument \<^verbatim>\<open>parent\<close>, \<open>name\<close> the caller's buffer.\<close>

function walk_path :: "u8 list \<Rightarrow> bool \<Rightarrow> u8 list \<Rightarrow> nat \<Rightarrow> fsys \<Rightarrow> (nat option \<times> u8 list \<times> fsys) res" where
  "walk_path path par name e s =
     (case skipelem path of
        None \<Rightarrow> if par then bind_res (eput eput_depth e s) (\<lambda>s1. Ret (None, name, s1)) else Ret (Some e, name, s)
      | Some (el, rest) \<Rightarrow>
        bind_res (elock e s) (\<lambda>s1.
          if attribute (ents s1 e) AND ATTR_DIRECTORY = 0
          then bind_res (eunlock e s1) (\<lambda>s2. bind_res (eput eput_depth e s2) (\<lambda>s3. Ret (None, el, s3)))
          else if par \<and> rest = [] then bind_res (eunlock e s1) (\<lambda>s2. Ret (Some e, el, s2))
          else bind_res (dirlookup e el s1) (\<lambda>(found, off, s2).
            bind_res (eunlock e s2) (\<lambda>s3. bind_res (eput eput_depth e s3) (\<lambda>s4.
              case found of None \<Rightarrow> Ret (None, el, s4) | Some e' \<Rightarrow> walk_path rest par el e' s4)))))"
  by pat_completeness auto

termination
  by (relation "measure (\<lambda>(path, par, name, e, s). length path)") (auto dest: skipelem_shorter)

declare walk_path.simps [simp del]

definition lookup_path :: "nat \<Rightarrow> u8 list \<Rightarrow> bool \<Rightarrow> u8 list \<Rightarrow> fsys \<Rightarrow> (nat option \<times> u8 list \<times> fsys) res" where
  "lookup_path cwd path par name s =
     (case path of
        [] \<Rightarrow> Ret (None, name, s)
      | c # _ \<Rightarrow> let e = (if c = slash then root else cwd) in walk_path path par name e (edup e s))"

definition new_lookup_path :: "nat \<Rightarrow> nat option \<Rightarrow> u8 list \<Rightarrow> bool \<Rightarrow> u8 list \<Rightarrow> fsys \<Rightarrow> (nat option \<times> u8 list \<times> fsys) res" where
  "new_lookup_path cwd env path par name s =
     (if path \<noteq> [] \<and> hd path = slash then walk_path path par name root (edup root s)
      else case env of
        Some e \<Rightarrow> walk_path path par name e (edup e s)
      | None \<Rightarrow> if path \<noteq> [] then walk_path path par name cwd (edup cwd s) else Ret (None, name, s))"

definition ename :: "nat \<Rightarrow> u8 list \<Rightarrow> fsys \<Rightarrow> (nat option \<times> u8 list \<times> fsys) res" where
  "ename cwd path = lookup_path cwd path False []"

definition enameparent :: "nat \<Rightarrow> u8 list \<Rightarrow> u8 list \<Rightarrow> fsys \<Rightarrow> (nat option \<times> u8 list \<times> fsys) res" where
  "enameparent cwd path name = lookup_path cwd path True name"

definition new_ename :: "nat \<Rightarrow> nat option \<Rightarrow> u8 list \<Rightarrow> fsys \<Rightarrow> (nat option \<times> u8 list \<times> fsys) res" where
  "new_ename cwd env path = new_lookup_path cwd env path False []"

definition new_enameparent :: "nat \<Rightarrow> nat option \<Rightarrow> u8 list \<Rightarrow> u8 list \<Rightarrow> fsys \<Rightarrow> (nat option \<times> u8 list \<times> fsys) res" where
  "new_enameparent cwd env path name = new_lookup_path cwd env path True name"

text \<open>\<^verbatim>\<open>get_parent_name\<close>: the path up to its last slash, one at its very end not counted, and what follows.\<close>

definition get_parent_name :: "u8 list \<Rightarrow> u8 list \<times> u8 list" where
  "get_parent_name path =
     (let n = (if path \<noteq> [] \<and> last path = slash then length path - 1 else length path);
          pname = (case find (\<lambda>j. path ! j = slash) (rev [0..<n]) of None \<Rightarrow> path | Some j \<Rightarrow> take j path)
      in (pname, drop (length pname + 1) path))"

definition T_DIR :: int where [simp]: "T_DIR = 1"
definition T_FILE :: int where [simp]: "T_FILE = 2"

text \<open>\<^verbatim>\<open>new_create\<close> creates missing parents first. \<^verbatim>\<open>O_RDONLY\<close> is 0, so the test for it never holds. Without a slash
  in the path the parent's path is the path itself: the first argument bounds the recursion.\<close>

primrec new_create :: "nat \<Rightarrow> nat \<Rightarrow> nat option \<Rightarrow> u8 list \<Rightarrow> int \<Rightarrow> u32 \<Rightarrow> fsys \<Rightarrow> (nat option \<times> fsys) res" where
  "new_create 0 cwd env path ty mode s = Stuck"
| "new_create (Suc k) cwd env path ty mode s =
     (let attr = (if ty = T_DIR then ATTR_DIRECTORY else if mode AND 0 \<noteq> 0 then ATTR_READ_ONLY else 0) in
      bind_res (new_enameparent cwd env path [] s) (\<lambda>(dp, name, s1).
      bind_res (case dp of
          None \<Rightarrow> let (pname, name') = get_parent_name path in
            bind_res (new_create k cwd env pname T_DIR 2 s1) (\<lambda>(dp', s2). Ret (dp', name', s2))
        | Some d \<Rightarrow> bind_res (elock d s1) (\<lambda>s2. Ret (Some d, name, s2))) (\<lambda>(dp', name', s2).
      case dp' of
        None \<Rightarrow> Ret (None, s2)
      | Some d \<Rightarrow>
        bind_res (ealloc d name' attr s2) (\<lambda>(ep, s3).
        case ep of
          None \<Rightarrow> bind_res (eunlock d s3) (\<lambda>s4. bind_res (eput eput_depth d s4) (\<lambda>s5. Ret (None, s5)))
        | Some e \<Rightarrow>
          bind_res (eunlock d s3) (\<lambda>s4.
          if ty = T_DIR \<and> attribute (ents s3 e) AND ATTR_DIRECTORY = 0 \<or> ty = T_FILE \<and> attribute (ents s3 e) AND ATTR_DIRECTORY \<noteq> 0
          then bind_res (eput eput_depth e s4) (\<lambda>s5. bind_res (eput eput_depth d s5) (\<lambda>s6. Ret (None, s6)))
          else bind_res (eput eput_depth d s4) (\<lambda>s5. bind_res (elock e s5) (\<lambda>s6. Ret (Some e, s6))))))))"

section \<open>Status\<close>

record kstat_t =
  st_dev :: u64
  st_ino :: u64
  st_mode :: u32
  st_nlink :: u32
  st_size :: u64
  st_blksize :: u32
  st_blocks :: u64
  st_rdev :: u64

definition estat :: "dirent \<Rightarrow> u8 list \<times> int \<times> u8 \<times> u32" where
  "estat de = (take 32 (cstr (filename de) @ replicate 32 0), if attribute de AND ATTR_DIRECTORY \<noteq> 0 then T_DIR else T_FILE,
     edev de, file_size de)"

definition kstat :: "dirent \<Rightarrow> kstat_t" where
  "kstat de = \<lparr>st_dev = 1, st_ino = 0, st_mode = 0, st_nlink = 1, st_size = ucast (file_size de), st_blksize = 512,
     st_blocks = 0, st_rdev = 0\<rparr>"

primrec hashpath_loop :: "u8 list \<Rightarrow> u32 \<Rightarrow> u32" where
  "hashpath_loop [] h = h"
| "hashpath_loop (c # cs) h =
     (let h = h * 128 + scast c in hashpath_loop cs (if 1000000 <s h then h mod 1000000 else h))"

definition hashpath :: "u8 list \<Rightarrow> u32" where
  "hashpath name = hashpath_loop name 0"

definition S_IFDIR :: u32 where [simp]: "S_IFDIR = 0x4000"
definition S_IFREG :: u32 where [simp]: "S_IFREG = 0x8000"
definition S_IFCHR :: u32 where [simp]: "S_IFCHR = 0x2000"

definition ekstat :: "dirent option \<Rightarrow> kstat_t" where
  "ekstat de =
     (let sz = (case de of None \<Rightarrow> 0 | Some d \<Rightarrow> ucast (file_size d)) in
      \<lparr>st_dev = 0, st_ino = (case de of None \<Rightarrow> 0 | Some d \<Rightarrow> scast (hashpath (cstr (filename d)))),
       st_mode = (case de of None \<Rightarrow> S_IFCHR | Some d \<Rightarrow> if attribute d AND ATTR_DIRECTORY \<noteq> 0 then S_IFDIR else S_IFREG) OR 0x1ff,
       st_nlink = 1, st_size = sz, st_blksize = 512, st_blocks = (sz + 512 - 1) div 512,
       st_rdev = (case de of None \<Rightarrow> 0 | Some d \<Rightarrow> ucast (edev d))\<rparr>)"

end
