(* ===== verification/Fatname.thy ===== *)
theory Fatname
  imports Fatdir Fatfile
begin

text \<open>
  What is written to a directory is read back: the entries \<^verbatim>\<open>emake\<close> writes for a name are parsed by \<^verbatim>\<open>enext\<close> into
  the same name, attribute, first cluster and size. Also, the elements \<^verbatim>\<open>skipelem\<close> takes from a path.
\<close>

section \<open>The characters of a long entry\<close>

lemma snstr_buf_frame:
  "length (snstr_buf n i ws buf) = length buf \<and> (\<forall>j. j < i \<or> i + n \<le> j \<longrightarrow> j < length buf \<longrightarrow> snstr_buf n i ws buf ! j = buf ! j)"
  if "i + n \<le> length buf"
  using that
proof (induction n arbitrary: i ws buf)
  case (Suc n)
  then show ?case using Suc.IH [of "i + 1" "buf[i := ws ! 0]" "drop 2 ws"]
    by (auto simp: nth_put_at nth_list_update)
qed simp

lemma snstr_buf_prefix:
  assumes "i + n \<le> length buf" "length ws = 2 * n" "m \<le> n" "\<And>q. q < m \<Longrightarrow> ws ! (2 * q) \<noteq> 0"
  shows "\<forall>q < m. snstr_buf n i ws buf ! (i + q) = ws ! (2 * q)"
  using assms
proof (induction n arbitrary: i ws buf m)
  case (Suc n)
  show ?case
  proof (cases m)
    case (Suc m')
    have w0: "ws ! 0 \<noteq> 0" using Suc.prems(4) [of 0] Suc by simp
    have ih: "\<forall>q < m'. snstr_buf n (i + 1) (drop 2 ws) (buf[i := ws ! 0]) ! (i + 1 + q) = drop 2 ws ! (2 * q)"
      using Suc.prems Suc Suc.prems(4) [of "Suc _"] by (intro Suc.IH) auto
    have fr: "snstr_buf n (i + 1) (drop 2 ws) (buf[i := ws ! 0]) ! i = buf[i := ws ! 0] ! i"
      using snstr_buf_frame [of "i + 1" n "buf[i := ws ! 0]" "drop 2 ws"] Suc.prems(1) by simp
    show ?thesis
    proof (intro allI impI)
      fix q assume "q < m"
      then show "snstr_buf (Suc n) i ws buf ! (i + q) = ws ! (2 * q)"
        using w0 ih fr Suc.prems(1,2) Suc by (cases q) auto
    qed
  qed simp
qed simp

lemma snstr_buf_nul:
  assumes "i + n \<le> length buf" "length ws = 2 * n" "m < n" "\<And>q. q < m \<Longrightarrow> ws ! (2 * q) \<noteq> 0"
    "ws ! (2 * m) = 0" "ws ! (2 * m + 1) = 0" "buf ! (i + m) = 0"
  shows "snstr_buf n i ws buf ! (i + m) = 0"
  using assms
proof (induction n arbitrary: i ws buf m)
  case (Suc n)
  show ?case
  proof (cases m)
    case 0
    then show ?thesis using Suc.prems by (simp add: nth_put_at)
  next
    case (Suc m')
    have w0: "ws ! 0 \<noteq> 0" using Suc.prems(4) [of 0] Suc by simp
    have "snstr_buf n (i + 1) (drop 2 ws) (buf[i := ws ! 0]) ! (i + 1 + m') = 0"
      using Suc.prems Suc Suc.prems(4) [of "Suc _"] by (intro Suc.IH) auto
    then show ?thesis using w0 Suc by simp
  qed
qed simp

lemma length_wide_chars [simp]: "length (wide_chars n fin p) = 2 * n"
  by (induction n arbitrary: fin p) auto

lemma wide_chars_nth:
  "q < n \<Longrightarrow> (\<forall>j < q. p ! j \<noteq> 0) \<Longrightarrow> q < length p \<Longrightarrow>
     wide_chars n False p ! (2 * q) = p ! q \<and> wide_chars n False p ! (2 * q + 1) = 0"
proof (induction n arbitrary: p q)
  case (Suc n)
  obtain x xs where p: "p = x # xs" using Suc.prems(3) by (cases p) auto
  show ?case
  proof (cases q)
    case (Suc q')
    then have "x \<noteq> 0" using Suc.prems(2) p by force
    moreover have "\<forall>j < q'. xs ! j \<noteq> 0" using Suc.prems(2) p Suc by force
    ultimately show ?thesis using Suc.IH [of q' xs] Suc.prems Suc p by simp
  qed (simp add: p)
qed simp

lemma length_lne_bytes [simp]: "length (lne_bytes order ck p) = 32"
  by (simp add: lne_bytes_def Let_def)

lemma lne_parts:
  "take 10 (drop 1 (lne_bytes order ck p)) = take 10 (wide_chars 13 False p)"
  "take 12 (drop 14 (lne_bytes order ck p)) = take 12 (drop 10 (wide_chars 13 False p))"
  "take 4 (drop 28 (lne_bytes order ck p)) = drop 22 (wide_chars 13 False p)"
  "lne_bytes order ck p ! 0 = order" "lne_bytes order ck p ! 11 = ATTR_LONG_NAME"
  by (simp_all add: lne_bytes_def Let_def nth_append)

text \<open>One long entry, read into a part of the name that is still zero: the characters up to a zero arrive, the
  zero too, and nothing outside the 13 places changes.\<close>

lemma read_long_name_spec:
  assumes b: "i + 13 \<le> length buf" and z: "\<And>q. q < 13 \<Longrightarrow> buf ! (i + q) = 0"
    and nz: "\<And>j. j < L \<Longrightarrow> p ! j \<noteq> 0" and L: "L \<le> 13" "L \<le> length p" "L < 13 \<Longrightarrow> L < length p \<and> p ! L = 0"
    and r_def: "r = read_long_name i (lne_bytes order ck p) buf"
  shows "length r = length buf" "\<And>q. q < L \<Longrightarrow> r ! (i + q) = p ! q" "L < 13 \<Longrightarrow> r ! (i + L) = 0"
    "\<And>j. j < i \<or> i + 13 \<le> j \<Longrightarrow> j < length buf \<Longrightarrow> r ! j = buf ! j"
proof -
  let ?w = "wide_chars 13 False p"
  let ?w1 = "take 10 ?w" and ?w2 = "take 12 (drop 10 ?w)" and ?w3 = "drop 22 ?w"
  let ?b1 = "snstr_buf 5 i ?w1 buf"
  let ?b2 = "snstr_buf 6 (i + 5) ?w2 ?b1"
  have r: "r = snstr_buf 2 (i + 11) ?w3 ?b2" unfolding r_def read_long_name_def Let_def lne_parts ..
  have w: "?w ! (2 * q) = p ! q" "?w ! (2 * q + 1) = 0" if "q < 13" "q < L \<or> q = L \<and> L < 13" for q
    using wide_chars_nth [of q 13 p] that nz L by auto
  have f1: "length ?b1 = length buf" "\<And>j. j < i \<or> i + 5 \<le> j \<Longrightarrow> j < length buf \<Longrightarrow> ?b1 ! j = buf ! j"
    using snstr_buf_frame [of i 5 buf ?w1] b by auto
  have f2: "length ?b2 = length buf" "\<And>j. j < i + 5 \<or> i + 11 \<le> j \<Longrightarrow> j < length buf \<Longrightarrow> ?b2 ! j = ?b1 ! j"
    using snstr_buf_frame [of "i + 5" 6 ?b1 ?w2] b f1(1) by auto
  have f3: "length r = length buf" "\<And>j. j < i + 11 \<or> i + 13 \<le> j \<Longrightarrow> j < length buf \<Longrightarrow> r ! j = ?b2 ! j"
    using snstr_buf_frame [of "i + 11" 2 ?b2 ?w3] b f2(1) by (auto simp: r)
  show "length r = length buf" by (rule f3(1))
  show "r ! j = buf ! j" if "j < i \<or> i + 13 \<le> j" "j < length buf" for j using f1(2) f2(2) f3(2) that by auto
  have p1: "?b1 ! (i + q) = p ! q" if "q < 5" "q < L" for q
    using snstr_buf_prefix [of i 5 buf ?w1 "min 5 L"] w nz that b by auto
  have p2: "?b2 ! (i + 5 + q) = p ! (5 + q)" if "q < 6" "5 + q < L" for q
  proof -
    have e: "?w2 ! (2 * j) = p ! (5 + j)" if "j < 6" "5 + j < L" for j using w(1) [of "5 + j"] that by simp
    have "\<forall>j < min 6 (L - 5). ?b2 ! (i + 5 + j) = ?w2 ! (2 * j)"
      by (rule snstr_buf_prefix) (use b f1(1) e nz in auto)
    then show ?thesis using e [OF that] that by simp
  qed
  have p3: "r ! (i + 11 + q) = p ! (11 + q)" if "q < 2" "11 + q < L" for q
  proof -
    have e: "?w3 ! (2 * j) = p ! (11 + j)" if "j < 2" "11 + j < L" for j using w(1) [of "11 + j"] that by simp
    have "\<forall>j < min 2 (L - 11). r ! (i + 11 + j) = ?w3 ! (2 * j)"
      unfolding r by (rule snstr_buf_prefix) (use b f2(1) e nz in auto)
    then show ?thesis using e [OF that] that by simp
  qed
  show "r ! (i + q) = p ! q" if q: "q < L" for q
  proof -
    consider "q < 5" | "5 \<le> q" "q < 11" | "11 \<le> q" "q < 13" using q L(1) by linarith
    then show ?thesis
    proof cases
      case 1
      then show ?thesis using p1 q f2(2) f3(2) b by simp
    next
      case 2
      then show ?thesis using p2 [of "q - 5"] q f3(2) b by simp
    next
      case 3
      then show ?thesis using p3 [of "q - 11"] q by simp
    qed
  qed
  show "r ! (i + L) = 0" if l: "L < 13"
  proof -
    have wl: "?w ! (2 * L) = 0" "?w ! (2 * L + 1) = 0" using w [of L] l L(3) by auto
    consider "L < 5" | "5 \<le> L" "L < 11" | "11 \<le> L" using l by linarith
    then show ?thesis
    proof cases
      case 1
      have "?b1 ! (i + L) = 0" by (rule snstr_buf_nul) (use 1 wl w nz z [of L] b in auto)
      then show ?thesis using 1 f2(2) f3(2) b by simp
    next
      case 2
      have e: "?w2 ! (2 * j) = p ! (5 + j)" if "j < L - 5" for j
      proof -
        have "5 + j < 13" "5 + j < L" using that 2 by auto
        then show ?thesis using w(1) [of "5 + j"] 2 by simp
      qed
      have l2: "10 + 2 * (L - 5) = 2 * L" "11 + 2 * (L - 5) = Suc (2 * L)" using 2 by auto
      have "?b2 ! (i + 5 + (L - 5)) = 0"
        by (rule snstr_buf_nul) (use 2 wl e nz z [of L] b f1 l2 in auto)
      then show ?thesis using 2 f3(2) b by simp
    next
      case 3
      have e: "?w3 ! (2 * j) = p ! (11 + j)" if "j < L - 11" for j
      proof -
        have "11 + j < 13" "11 + j < L" using that 3 l by auto
        then show ?thesis using w(1) [of "11 + j"] by simp
      qed
      have l3: "22 + 2 * (L - 11) = 2 * L" "23 + 2 * (L - 11) = Suc (2 * L)" using 3 by auto
      have "?b2 ! (i + L) = 0" using 3 l f1(2) f2(2) z [of L] b by simp
      then have "r ! (i + 11 + (L - 11)) = 0"
        unfolding r by (intro snstr_buf_nul) (use 3 l wl e nz b f2(1) l3 in auto)
      then show ?thesis using 3 by simp
    qed
  qed
qed

section \<open>Assembling a name\<close>

definition name_ok :: "u8 list \<Rightarrow> bool" where
  "name_ok name \<longleftrightarrow> name \<noteq> [] \<and> length name \<le> 247 \<and> (\<forall>c \<in> set name. 0x20 \<le> c \<and> c < 0x80)"

lemma name_ok_nth:
  assumes "name_ok name" "j < length name" shows "name ! j \<noteq> 0"
proof -
  have "0x20 \<le> name ! j" using assms nth_mem [of j name] by (simp add: name_ok_def)
  then show ?thesis by auto
qed

lemma name_array_nth:
  assumes "name_ok name" "j \<le> 255"
  shows "name_array name ! j = (if j < length name then name ! j else 0)"
  using assms by (auto simp: name_array_def nth_append name_ok_def less_Suc_eq_le)

lemma length_name_array [simp]: "length (name_array name) = 256"
  by (simp add: name_array_def)

lemma cstr_name_array: "name_ok name \<Longrightarrow> cstr (name_array name) = name"
proof -
  assume n: "name_ok name"
  then have l: "length name < length (name_array name)" by (simp add: name_ok_def)
  have "takeWhile (\<lambda>c. c \<noteq> 0) (name_array name) = take (length name) (name_array name)"
    using n name_array_nth [OF n] name_ok_nth [OF n] l
    by (intro takeWhile_eq_take_P_nth) (auto simp: name_ok_def)
  also have "\<dots> = name" using n name_array_nth [OF n] l by (intro nth_equalityI) (auto simp: name_ok_def)
  finally show ?thesis by (simp add: cstr_def)
qed

lemma long_entries_bounds:
  assumes "name_ok name"
  shows "0 < long_entries name" "long_entries name \<le> 19" "length name \<le> long_entries name * 13"
    "i < long_entries name \<Longrightarrow> i * 13 < length name"
proof -
  have n: "0 < length name" "length name \<le> 247" using assms by (auto simp: name_ok_def)
  have e: "long_entries name = (length name + 12) div 13" by (simp add: long_entries_def)
  show "0 < long_entries name" "long_entries name \<le> 19" "length name \<le> long_entries name * 13"
    unfolding e using n by linarith+
  assume "i < long_entries name"
  then show "i * 13 < length name" unfolding e by linarith
qed

definition part_read :: "u8 list \<Rightarrow> nat \<Rightarrow> u8 list \<Rightarrow> bool" where
  "part_read name i buf \<longleftrightarrow> length buf = 256 \<and> buf ! length name = 0 \<and> (\<forall>j < i * 13. j < 256 \<longrightarrow> buf ! j = 0)
     \<and> (\<forall>j < length name. i * 13 \<le> j \<longrightarrow> buf ! j = name ! j)"

lemma part_read_init: "name_ok name \<Longrightarrow> long_entries name \<le> i \<Longrightarrow> part_read name i (replicate 256 0)"
  using long_entries_bounds(3) [of name] by (auto simp: part_read_def name_ok_def)

lemma part_read_step:
  assumes n: "name_ok name" and f: "part_read name (Suc i) buf" and i: "i < long_entries name"
  shows "part_read name i (read_long_name (i * 13) (lne_bytes order ck (drop (i * 13) (name_array name))) buf)"
proof -
  let ?p = "drop (i * 13) (name_array name)" and ?L = "min 13 (length name - i * 13)"
  have b: "i * 13 + 13 \<le> 247" using long_entries_bounds(2) [OF n] i by linarith
  have len: "length name \<le> 247" "i * 13 < length name" using n long_entries_bounds(4) [OF n i] by (auto simp: name_ok_def)
  have fl: "length buf = 256" "buf ! length name = 0" "\<And>j. j < i * 13 + 13 \<Longrightarrow> buf ! j = 0"
    "\<And>j. j < length name \<Longrightarrow> i * 13 + 13 \<le> j \<Longrightarrow> buf ! j = name ! j" using f b by (auto simp: part_read_def)
  have p: "?p ! q = (if i * 13 + q < length name then name ! (i * 13 + q) else 0)" if "q \<le> 13" for q
    using name_array_nth [OF n, of "i * 13 + q"] that b by simp
  let ?r = "read_long_name (i * 13) (lne_bytes order ck ?p) buf"
  have pL: "?L < length ?p \<and> ?p ! ?L = 0" if "?L < 13"
  proof -
    have e: "?L = length name - i * 13" using that by simp
    then have "i * 13 + ?L = length name" "?L \<le> 13" using len by simp_all
    then show ?thesis using p [of ?L] len by simp
  qed
  have pre: "i * 13 + 13 \<le> length buf" "\<And>q. q < 13 \<Longrightarrow> buf ! (i * 13 + q) = 0" "\<And>j. j < ?L \<Longrightarrow> ?p ! j \<noteq> 0"
    "?L \<le> 13" "?L \<le> length ?p"
    subgoal using b fl(1) by linarith
    subgoal using fl(3) by simp
    subgoal for j using p [of j] name_ok_nth [OF n, of "i * 13 + j"] by auto
    subgoal by simp
    subgoal using b len by simp
    done
  note sp = read_long_name_spec [OF pre pL refl]
  have s: "length ?r = length buf" "\<And>q. q < ?L \<Longrightarrow> ?r ! (i * 13 + q) = ?p ! q" "?L < 13 \<Longrightarrow> ?r ! (i * 13 + ?L) = 0"
    "\<And>j. j < i * 13 \<or> i * 13 + 13 \<le> j \<Longrightarrow> j < length buf \<Longrightarrow> ?r ! j = buf ! j"
    using sp by blast+
  have nul: "?r ! length name = 0"
  proof (cases "?L < 13")
    case True
    then have "i * 13 + ?L = length name" using len by auto
    then show ?thesis using s(3) [OF True] by simp
  next
    case False
    then have "i * 13 + 13 \<le> length name" by auto
    then show ?thesis using s(4) [of "length name"] fl(1,2) len by simp
  qed
  have new: "?r ! j = name ! j" if j: "j < length name" "i * 13 \<le> j" for j
  proof (cases "j < i * 13 + 13")
    case True
    then have "j - i * 13 < ?L" using j by auto
    then show ?thesis using s(2) [of "j - i * 13"] p [of "j - i * 13"] j True by simp
  next
    case False
    then show ?thesis using s(4) [of j] fl(1,4) j len by simp
  qed
  have old: "?r ! j = 0" if "j < i * 13" for j using s(4) [of j] fl(1,3) that b by simp
  show ?thesis using s(1) nul new old fl(1) by (simp add: part_read_def)
qed

lemma part_read_cstr: "name_ok name \<Longrightarrow> part_read name 0 buf \<Longrightarrow> cstr buf = name"
proof -
  assume n: "name_ok name" and f: "part_read name 0 buf"
  have l: "length name < length buf" using n f by (simp add: part_read_def name_ok_def)
  have "takeWhile (\<lambda>c. c \<noteq> 0) buf = take (length name) buf"
    using f name_ok_nth [OF n] l by (intro takeWhile_eq_take_P_nth) (auto simp: part_read_def)
  also have "\<dots> = name" using f l by (intro nth_equalityI) (auto simp: part_read_def)
  finally show ?thesis by (simp add: cstr_def)
qed

section \<open>Short names\<close>

definition plain :: "u8 \<Rightarrow> bool" where
  "plain c \<longleftrightarrow> 0x20 \<le> c \<and> c < 0x80"

lemma plain_char:
  assumes "plain d"
  shows "plain (if 0x61 \<le> d \<and> d \<le> 0x7a then d - 0x20 else if d \<in> set illegal_short then 0x5f else d)"
proof (cases "0x61 \<le> d \<and> d \<le> 0x7a")
  case True
  then have "unat (d - 0x20) = unat d - 0x20" by (intro unat_sub [of "0x20" d, simplified]) (simp add: word_le_nat_alt)
  then show ?thesis using True by (auto simp: plain_def word_le_nat_alt word_less_nat_alt)
qed (use assms in \<open>auto simp: plain_def\<close>)

lemma shortname_loop_chars:
  assumes "\<forall>c \<in> set name. plain c" "\<forall>c \<in> set out. plain c" "length out \<le> 11"
  shows "(\<forall>c \<in> set (shortname_loop name k p out). plain c) \<and> length (shortname_loop name k p out) \<le> 11"
  using assms
proof (induction name k p out rule: shortname_loop.induct)
  case (1 name k p out)
  show ?case
  proof (cases "length out < 11 \<and> k < length name")
    case True
    let ?d = "name ! k"
    let ?e = "if 0x61 \<le> ?d \<and> ?d \<le> 0x7a then ?d - 0x20 else if ?d \<in> set illegal_short then 0x5f else ?d"
    have pd: "plain ?e" using plain_char 1(6) True by (metis nth_mem)
    have sp: "plain sp" by (simp add: plain_def)
    show ?thesis
    proof (cases "length out = 8 \<and> p \<noteq> None")
      case A: True
      then show ?thesis using True 1(1) [OF True refl refl A] 1(6-8)
        by (subst (1 2) shortname_loop.simps) (auto simp: Let_def)
    next
      case B: False
      show ?thesis
      proof (cases "?d = sp")
        case C: True
        then show ?thesis using True B 1(2) [OF True refl refl B C] 1(6-8)
          by (subst (1 2) shortname_loop.simps) (auto simp: Let_def)
      next
        case D: False
        show ?thesis
        proof (cases "?d = dot")
          case E: True
          show ?thesis
          proof (cases "p = None \<or> the p < k + 1")
            case F: True
            have "(\<forall>c \<in> set (out @ replicate (8 - length out) sp). plain c) \<and> length (out @ replicate (8 - length out) sp) \<le> 11"
              using 1(7,8) sp by auto
            then show ?thesis using True B D E F 1(3) [OF True refl refl B D E F] 1(6)
              by (subst (1 2) shortname_loop.simps) (auto simp: Let_def)
          next
            case F: False
            then show ?thesis using True B D E 1(4) [OF True refl refl B D E] 1(6-8)
              by (subst (1 2) shortname_loop.simps) (auto simp: Let_def)
          qed
        next
          case E: False
          have o: "\<forall>c \<in> set (out @ [?e]). plain c" "length (out @ [?e]) \<le> 11" using 1(7) pd True by auto
          have e: "shortname_loop name k p out = shortname_loop name (k + 1) p (out @ [?e])"
            by (subst shortname_loop.simps) (simp only: True B D E Let_def if_True if_False simp_thms)
          show ?thesis unfolding e by (rule 1(5) [OF True refl refl B D E 1(6) o])
        qed
      qed
    qed
  next
    case False
    then show ?thesis using 1(7,8) by (subst (1 2) shortname_loop.simps) auto
  qed
qed

lemma generate_shortname_chars:
  assumes "name_ok name"
  shows "length (generate_shortname name) = 11" "\<forall>c \<in> set (generate_shortname name). plain c"
proof -
  let ?out = "shortname_loop name 0 (case last_dot name of None \<Rightarrow> Some 0 | Some j \<Rightarrow> Some j) []"
  have "(\<forall>c \<in> set ?out. plain c) \<and> length ?out \<le> 11"
    using assms by (intro shortname_loop_chars) (auto simp: name_ok_def plain_def)
  then show "length (generate_shortname name) = 11" "\<forall>c \<in> set (generate_shortname name). plain c"
    by (auto simp: generate_shortname_def Let_def plain_def)
qed

section \<open>Writing entries\<close>

text \<open>\<open>dir_written\<close>: as \<open>file_written\<close>, while the local variable in memory may have changed.\<close>

definition dir_written :: "fsys \<Rightarrow> fsys \<Rightarrow> nat \<Rightarrow> u32 list \<Rightarrow> nat \<Rightarrow> u8 list \<Rightarrow> bool" where
  "dir_written s s' dp cs off bs \<longleftrightarrow> file_written s (s'\<lparr>kst := kst s\<rparr>) dp cs off bs"

lemma file_written_kst: "file_written s t e cs off bs \<Longrightarrow> file_written (s\<lparr>kst := k\<rparr>) (t\<lparr>kst := k\<rparr>) e cs off bs"
proof -
  assume w: "file_written s t e cs off bs"
  then obtain c i where t: "i < length cs" "quiet c" "t = s\<lparr>bufs := c, ents := (ents s)(e := at_clus e cs i (ents s e))\<rparr>"
    unfolding file_written_def by blast
  have "\<exists>c' i'. i' < length cs \<and> quiet c' \<and> t\<lparr>kst := k\<rparr>
      = (s\<lparr>kst := k\<rparr>)\<lparr>bufs := c', ents := (ents (s\<lparr>kst := k\<rparr>))(e := at_clus e cs i' (ents (s\<lparr>kst := k\<rparr>) e))\<rparr>"
    by (intro exI [of _ c] exI [of _ i]) (simp add: t)
  with w show ?thesis unfolding file_written_def by simp
qed

lemma dir_written_trans:
  assumes w1: "dir_written s s1 dp cs off xs" and w2: "dir_written s1 s2 dp cs (off + length xs) ys"
    and inj: "inj_on (file_addr (vol s) cs) {..<length cs * unat (byts_per_clus (vol s))}"
    and b: "off + length xs + length ys \<le> length cs * unat (byts_per_clus (vol s))"
  shows "dir_written s s2 dp cs off (xs @ ys)"
proof -
  have "file_written (s1\<lparr>kst := kst s\<rparr>) (s2\<lparr>kst := kst s\<rparr>) dp cs (off + length xs) ys"
    using file_written_kst [OF w2 [unfolded dir_written_def], of "kst s"] by simp
  from file_written_trans [OF w1 [unfolded dir_written_def] this inj b] show ?thesis by (simp add: dir_written_def)
qed

lemma dir_writtenD:
  assumes "dir_written s s' dp cs off bs"
  shows "vol s' = vol s" "ksp s' = ksp s" "\<And>x. x \<noteq> dp \<Longrightarrow> ents s' x = ents s x" "\<exists>i. ents s' dp = at_clus dp cs i (ents s dp)"
proof -
  obtain i c where "i < length cs" and e: "s'\<lparr>kst := kst s\<rparr> = s\<lparr>bufs := c, ents := (ents s)(dp := at_clus dp cs i (ents s dp))\<rparr>"
    using assms unfolding dir_written_def file_written_def by blast
  have f: "vol s' = vol s" "ksp s' = ksp s" "ents s' = (ents s)(dp := at_clus dp cs i (ents s dp))"
    using arg_cong [OF e, of vol] arg_cong [OF e, of ksp] arg_cong [OF e, of ents] by simp_all
  show "vol s' = vol s" "ksp s' = ksp s" "\<And>x. x \<noteq> dp \<Longrightarrow> ents s' x = ents s x" "\<exists>i. ents s' dp = at_clus dp cs i (ents s dp)"
    using f by auto
qed

lemma kst_irrelevant:
  "fs_ok (s\<lparr>kst := k\<rparr>) = fs_ok s" "on_chain (s\<lparr>kst := k\<rparr>) e cs = on_chain s e cs" "fat_entry (s\<lparr>kst := k\<rparr>) = fat_entry s"
proof -
  show f: "fat_entry (s\<lparr>kst := k\<rparr>) = fat_entry s" by (rule ext) (simp add: fat_entry_def)
  show "fs_ok (s\<lparr>kst := k\<rparr>) = fs_ok s" "on_chain (s\<lparr>kst := k\<rparr>) e cs = on_chain s e cs"
    by (simp_all add: fs_ok_def on_chain_def f)
qed

lemma dir_written_on_chain:
  assumes "dir_written s s' dp cs off bs" "fs_ok s" "on_chain s dp cs"
    "off + length bs \<le> length cs * unat (byts_per_clus (vol s))"
  shows "fs_ok s'" "on_chain s' dp cs"
  using file_written_on_chain [OF assms(1) [unfolded dir_written_def] assms(2-4)] by (simp_all add: kst_irrelevant)

lemma fit_32: "(a::nat) mod 32 = 0 \<Longrightarrow> b mod 32 = 0 \<Longrightarrow> a < b \<Longrightarrow> a + 32 \<le> b"
  by presburger

lemma fs_ok_vol: "fs_ok s \<Longrightarrow> vol_ok (vol s)" by (simp add: fs_ok_def)

lemma dentry_fits:
  assumes v: "vol_ok f" and off: "unat (off :: u32) mod 32 = 0"
  shows "unat off mod unat (byts_per_clus f) + 32 \<le> unat (byts_per_clus f)"
proof -
  let ?B = "byts_per_clus f"
  have B: "unat ?B = unat (sec_per_clus f) * 512" "0 < unat (sec_per_clus f)" using vol_okD(2,3) [OF v] by auto
  have "32 dvd unat ?B" unfolding B(1) by (simp add: dvd_mult)
  then have "(unat off mod unat ?B) mod 32 = 0" using off by (simp add: mod_mod_cancel)
  moreover have "unat ?B mod 32 = 0" using \<open>32 dvd unat ?B\<close> by simp
  moreover have "unat off mod unat ?B < unat ?B" using B by simp
  ultimately show ?thesis by (rule fit_32)
qed

lemma write_dentry_ok:
  assumes s: "fs_ok s" and oc: "on_chain s dp cs" and off: "unat off mod 32 = 0"
    and room: "unat off + 32 \<le> length cs * unat (byts_per_clus (vol s))" and bs: "length bs = 32"
  shows "\<exists>s'. write_dentry dp off bs s = Ret s' \<and> dir_written s s' dp cs (unat off) bs"
proof -
  let ?B = "byts_per_clus (vol s)"
  let ?i = "unat off div unat ?B"
  note v = fs_ok_vol [OF s]
  have i: "?i < length cs" using room by (intro less_mult_imp_div_less) simp
  have fit: "unat off mod unat ?B + 32 \<le> unat ?B" by (rule dentry_fits [OF v off])
  obtain s1 where s1: "reloc_clus dp off True s = Ret (uint (off mod ?B), s1)" "moved s s1 dp cs ?i"
    using reloc_clus_ok [OF s oc i] by blast
  let ?t = "set_local bs s1"
  have t: "fs_ok ?t" "vol ?t = vol s" "ksp ?t = ksp s1" "read_bytes (mem (kst ?t)) (ksp s1) 32 = bs"
    using moved_ok [OF s1(2) s] movedD(1) [OF s1(2)] read_write_bytes_same [of bs "mem (kst s1)" "ksp s1"] bs
    by (simp_all add: set_local_def kst_irrelevant)
  have ch: "chain (fat_entry s) (vol s) cs" using oc by (simp add: on_chain_def)
  have c: "clus_ok (vol ?t) (cs ! ?i)" using chain_ok [OF ch] i t(2) by simp
  have cc: "cur_clus (ents s1 dp) = cs ! ?i" using movedD(7) [OF s1(2)] by (simp add: at_clus_def)
  have om: "unat (off mod ?B) = unat off mod unat ?B" by (simp add: unat_mod_distrib)
  have fa: "clus_addr (vol s) (cs ! ?i) + ucast (off mod ?B) = file_addr (vol s) cs (unat off)"
    unfolding file_addr_def om [symmetric] by simp
  obtain s2 where w: "rw_clus (cs ! ?i) True False (ksp s1) (off mod ?B) 32 ?t = Ret (32, s2)"
    "io ?t s2 (write_bytes (dsk ?t) (file_addr (vol s) cs (unat off)) bs)"
    using rw_clus_write [OF t(1) c, of "off mod ?B" 32 "ksp s1"] fit om t fa by auto
  have "io s1 (s2\<lparr>kst := kst s1\<rparr>) (write_bytes (dsk s1) (file_addr (vol s) cs (unat off)) bs)"
    using w(2) unfolding io_def set_local_def by auto
  then have "file_written s (s2\<lparr>kst := kst s1\<rparr>) dp cs (unat off) bs"
    using file_written_step [OF s1(2) i] fit bs by simp
  then have "dir_written s s2 dp cs (unat off) bs" using movedD(2) [OF s1(2)] by (simp add: dir_written_def)
  moreover have "write_dentry dp off bs s = Ret s2" using s1(1) w(1) cc by (simp add: write_dentry_def)
  ultimately show ?thesis by blast
qed

text \<open>The image of a file's entries: its long entries, the last part of the name first, and its short entry.\<close>

definition long_image :: "u8 list \<Rightarrow> nat \<Rightarrow> u8 list" where
  "long_image name i =
     lne_bytes (lne_order (long_entries name) (Suc i)) (cal_checksum (generate_shortname name)) (drop (i * 13) (name_array name))"

primrec dir_image :: "u8 list \<Rightarrow> u8 list \<Rightarrow> nat \<Rightarrow> u8 list" where
  "dir_image name sne 0 = sne"
| "dir_image name sne (Suc i) = long_image name i @ dir_image name sne i"

lemma length_dir_image [simp]: "length sne = 32 \<Longrightarrow> length (dir_image name sne i) = 32 * (i + 1)"
  by (induction i) (simp_all add: long_image_def)

lemma emake_long_ok:
  assumes "fs_ok s" "on_chain s dp cs" "unat off mod 32 = 0" "dp \<noteq> ep" "length sne = 32"
    "unat off + 32 * (i + 1) \<le> length cs * unat (byts_per_clus (vol s))" "unat off + 32 * (i + 1) < 2 ^ 32"
  shows "\<exists>off1 s1 s'. emake_long i (long_entries name) (cal_checksum (generate_shortname name)) dp (name_array name) off s = Ret (off1, s1)
    \<and> (\<forall>x. x \<noteq> dp \<longrightarrow> ents s1 x = ents s x) \<and> write_dentry dp off1 sne s1 = Ret s'
    \<and> dir_written s s' dp cs (unat off) (dir_image name sne i)"
  using assms
proof (induction i arbitrary: off s)
  case 0
  then show ?case using write_dentry_ok [of s dp cs off sne] by simp
next
  case (Suc i)
  have v: "vol_ok (vol s)" using Suc.prems(1) by (simp add: fs_ok_def)
  have ch: "chain (fat_entry s) (vol s) cs" "distinct cs" using Suc.prems(2) by (auto simp: on_chain_def)
  have l: "length (long_image name i) = 32" by (simp add: long_image_def)
  obtain s1 where w: "write_dentry dp off (long_image name i) s = Ret s1" "dir_written s s1 dp cs (unat off) (long_image name i)"
    using write_dentry_ok [OF Suc.prems(1-3) _ l] Suc.prems(6) by auto
  have o: "unat (off + 32) = unat off + 32" using Suc.prems(7) by (simp add: unat_word_ariths)
  note c1 = dir_written_on_chain [OF w(2) Suc.prems(1,2)]
  have v1: "vol s1 = vol s" by (rule dir_writtenD(1) [OF w(2)])
  obtain off1 s2 s' where ih: "emake_long i (long_entries name) (cal_checksum (generate_shortname name)) dp (name_array name) (off + 32) s1 = Ret (off1, s2)"
      "\<forall>x. x \<noteq> dp \<longrightarrow> ents s2 x = ents s1 x" "write_dentry dp off1 sne s2 = Ret s'" "dir_written s1 s' dp cs (unat off + 32) (dir_image name sne i)"
    using Suc.IH [of s1 "off + 32"] c1 Suc.prems(3-7) o v1 l by auto
  have "dir_written s s' dp cs (unat off) (long_image name i @ dir_image name sne i)"
    by (rule dir_written_trans [OF w(2)]) (use ih(4) l Suc.prems(5,6) file_addr_inj [OF v chain_ok [OF ch(1)] ch(2)] in simp_all)
  then show ?case using w(1) ih dir_writtenD(3) [OF w(2)] by (auto simp: long_image_def)
qed

section \<open>Reading entries back\<close>

lemma read_dentry_ok:
  assumes s: "fs_ok s" and oc: "on_chain s dp cs" and off: "unat off mod 32 = 0"
    and room: "unat off + 32 \<le> length cs * unat (byts_per_clus (vol s))"
  shows "\<exists>r s1 s2. reloc_clus dp off False s = Ret (r, s1) \<and> r \<noteq> -1
    \<and> rw_clus (cur_clus (ents s1 dp)) False False (ksp s1) (of_int r) 32 s1 = Ret (32, s2)
    \<and> file_read s s2 dp cs (ksp s) (file_bytes s cs (unat off) 32) \<and> get_local 32 s2 = file_bytes s cs (unat off) 32"
proof -
  let ?B = "byts_per_clus (vol s)"
  let ?i = "unat off div unat ?B"
  note v = fs_ok_vol [OF s]
  have i: "?i < length cs" using room by (intro less_mult_imp_div_less) simp
  have fit: "unat off mod unat ?B + 32 \<le> unat ?B" by (rule dentry_fits [OF v off])
  obtain s1 where s1: "reloc_clus dp off False s = Ret (uint (off mod ?B), s1)" "moved s s1 dp cs ?i"
    using reloc_clus_ok [OF s oc i] by blast
  have k: "ksp s1 = ksp s" using s1(2) by (auto simp: moved_def)
  have ch: "chain (fat_entry s) (vol s) cs" using oc by (simp add: on_chain_def)
  have c: "clus_ok (vol s) (cs ! ?i)" using chain_ok [OF ch] i by simp
  have cc: "cur_clus (ents s1 dp) = cs ! ?i" using movedD(7) [OF s1(2)] by (simp add: at_clus_def)
  have om: "unat (off mod ?B) = unat off mod unat ?B" by (simp add: unat_mod_distrib)
  have fa: "clus_addr (vol s) (cs ! ?i) + ucast (off mod ?B) = file_addr (vol s) cs (unat off)"
    unfolding file_addr_def om [symmetric] by simp
  obtain s2 where s2: "rw_clus (cs ! ?i) False False (ksp s) (off mod ?B) 32 s1 = Ret (32, s2)"
    "loaded s1 s2 (ksp s) (read_bytes (dsk s) (file_addr (vol s) cs (unat off)) 32)"
    using rw_clus_read [OF moved_ok [OF s1(2) s], of "cs ! ?i" "off mod ?B" 32 "ksp s"] c fit om fa movedD(1,5) [OF s1(2)] by auto
  have fr: "file_read s s2 dp cs (ksp s) (file_bytes s cs (unat off) 32)"
    using file_read_step [OF s1(2) i s2(2)] read_in_clus [of "unat off" s 32 cs] fit by simp
  have k2: "ksp s2 = ksp s" using fr by (auto simp: file_read_def)
  have g: "get_local 32 s2 = file_bytes s cs (unat off) 32"
    unfolding get_local_def k2 file_readD(6) [OF fr]
    using read_write_bytes_same [of "file_bytes s cs (unat off) 32" "mem (kst s)" "ksp s"] by simp
  have "uint (off mod ?B) \<noteq> -1" using uint_nonnegative [of "off mod ?B"] by linarith
  then show ?thesis using s1(1) s2(1) fr g k cc by auto
qed

lemma short_entry_info:
  "length short = 11 \<Longrightarrow> read_entry_info (sne_bytes short attr clus sz) x =
     x\<lparr>attribute := attr, first_clus := clus, file_size := sz, cur_clus := clus, clus_cnt := 0\<rparr>"
proof -
  assume l: "length short = 11"
  have a: "sne_bytes short attr clus sz ! 11 = attr"
    "take 2 (drop 20 (sne_bytes short attr clus sz)) = le_bytes 2 (ucast (drop_bit 16 clus) :: u16)"
    "take 2 (drop 26 (sne_bytes short attr clus sz)) = le_bytes 2 (ucast (clus AND 0xffff) :: u16)"
    "take 4 (drop 28 (sne_bytes short attr clus sz)) = le_bytes 4 sz"
    using l by (simp_all add: sne_bytes_def nth_append)
  have m: "(0xffff :: u32) = mask 16" by (simp add: mask_eq_exp_minus_1)
  have "push_bit 16 (ucast (ucast (drop_bit 16 clus) :: u16)) OR ucast (ucast (clus AND 0xffff) :: u16) = clus"
    unfolding m by (rule bit_word_eqI) (auto simp: bit_simps not_less)
  then show ?thesis unfolding read_entry_info_def u16_at_def u32_at_def a by (simp add: Let_def)
qed

lemma lne_order_bytes:
  assumes "i < n" "n \<le> 19"
  shows "lne_order n (Suc i) \<noteq> END_OF_ENTRY" "lne_order n (Suc i) \<noteq> EMPTY_ENTRY"
    "unat (lne_order n (Suc i) AND NOT LAST_LONG_ENTRY) = Suc i"
    "(lne_order n (Suc i) AND LAST_LONG_ENTRY \<noteq> 0) = (Suc i = n)"
proof -
  have "Suc i \<in> set [1..<20]" using assms by simp
  moreover have "\<forall>j \<in> set [1..<20]. \<forall>b. lne_order (if b then j else 0) j \<noteq> END_OF_ENTRY \<and> lne_order (if b then j else 0) j \<noteq> EMPTY_ENTRY
      \<and> unat (lne_order (if b then j else 0) j AND NOT LAST_LONG_ENTRY) = j
      \<and> (lne_order (if b then j else 0) j AND LAST_LONG_ENTRY \<noteq> 0) = b"
    by code_simp
  ultimately have *: "\<And>b. lne_order (if b then Suc i else 0) (Suc i) \<noteq> END_OF_ENTRY \<and> lne_order (if b then Suc i else 0) (Suc i) \<noteq> EMPTY_ENTRY
      \<and> unat (lne_order (if b then Suc i else 0) (Suc i) AND NOT LAST_LONG_ENTRY) = Suc i
      \<and> (lne_order (if b then Suc i else 0) (Suc i) AND LAST_LONG_ENTRY \<noteq> 0) = b" by blast
  have "lne_order n (Suc i) = lne_order (if Suc i = n then Suc i else 0) (Suc i)" by (auto simp: lne_order_def)
  then show "lne_order n (Suc i) \<noteq> END_OF_ENTRY" "lne_order n (Suc i) \<noteq> EMPTY_ENTRY"
    "unat (lne_order n (Suc i) AND NOT LAST_LONG_ENTRY) = Suc i"
    "(lne_order n (Suc i) AND LAST_LONG_ENTRY \<noteq> 0) = (Suc i = n)"
    using * [of "Suc i = n"] by simp_all
qed

text \<open>The loop of \<^verbatim>\<open>enext\<close> at the long entry \<open>i\<close> of a name, with the parts behind it already in the buffer.\<close>

lemma plain_not_mark: "plain c \<Longrightarrow> c \<noteq> END_OF_ENTRY \<and> c \<noteq> EMPTY_ENTRY"
  by (auto simp: plain_def)

lemma set_ent_other:
  assumes "dp \<noteq> ep"
  shows "fs_ok (set_ent ep f s) = fs_ok s" "on_chain (set_ent ep f s) dp cs = on_chain s dp cs"
proof -
  have f: "fat_entry (set_ent ep f s) = fat_entry s" by (rule ext) (simp add: fat_entry_def)
  show "fs_ok (set_ent ep f s) = fs_ok s" "on_chain (set_ent ep f s) dp cs = on_chain s dp cs"
    using assms unfolding fs_ok_def on_chain_def f by simp_all
qed

lemma enext_loop_reads:
  assumes "fs_ok s" "on_chain s dp cs" "unat off mod 32 = 0" "dp \<noteq> ep" "name_ok name" "attr \<noteq> ATTR_LONG_NAME"
    "unat off + 32 * (i + 1) \<le> length cs * unat (byts_per_clus (vol s))" "unat off + 32 * (i + 1) < 2 ^ 32"
    "i \<le> long_entries name" "i < k"
    "file_bytes s cs (unat off) (32 * (i + 1)) = dir_image name (sne_bytes (generate_shortname name) attr clus sz) i"
    "part_read name i (filename (ents s ep))" "if i = long_entries name then cp else \<not> cp \<and> count = int (long_entries name) + 1"
  shows "\<exists>s'. enext_loop k dp ep off 0 cp count s = Ret (1, int (long_entries name) + 1, s')
    \<and> cstr (filename (ents s' ep)) = name \<and> attribute (ents s' ep) = attr \<and> first_clus (ents s' ep) = clus
    \<and> file_size (ents s' ep) = sz"
  using assms
proof (induction i arbitrary: off s k cp count)
  case 0
  let ?sne = "sne_bytes (generate_shortname name) attr clus sz"
  obtain k' where k: "k = Suc k'" using 0(10) by (cases k) auto
  have cp: "\<not> cp" "count = int (long_entries name) + 1" using 0(13) long_entries_bounds(1) [OF 0(5)] by auto
  note sh = generate_shortname_chars [OF 0(5)]
  have a: "?sne ! 11 = attr" "?sne ! 0 = generate_shortname name ! 0" using sh(1) by (simp_all add: sne_bytes_def nth_append)
  have n0: "?sne ! 0 \<noteq> END_OF_ENTRY \<and> ?sne ! 0 \<noteq> EMPTY_ENTRY" unfolding a(2) using sh by (intro plain_not_mark) simp
  obtain r s1 s2 where r: "reloc_clus dp off False s = Ret (r, s1)" "r \<noteq> -1"
    "rw_clus (cur_clus (ents s1 dp)) False False (ksp s1) (of_int r) 32 s1 = Ret (32, s2)"
    "file_read s s2 dp cs (ksp s) (file_bytes s cs (unat off) 32)" "get_local 32 s2 = ?sne"
    using read_dentry_ok [OF 0(1-3)] 0(7,11) by auto
  have e: "ents s2 ep = ents s ep" using r(4) 0(4) by (auto simp: file_read_def)
  have "enext_loop k dp ep off 0 cp count s = Ret (1, count, set_ent ep (read_entry_info ?sne) s2)"
    using r(1-3) a(1) n0 0(6) cp(1) unfolding k by (simp add: r(5))
  then show ?case using cp(2) short_entry_info [OF sh(1), of attr clus sz "ents s ep"] part_read_cstr [OF 0(5,12)] e by simp
next
  case (Suc i)
  let ?le = "long_entries name" and ?d = "long_image name i"
  let ?o = "lne_order ?le (Suc i)"
  obtain k' where k: "k = Suc k'" using Suc.prems(10) by (cases k) auto
  have i: "i < ?le" using Suc.prems(9) by simp
  note lo = lne_order_bytes [OF i long_entries_bounds(2) [OF Suc.prems(5)]]
  have ld: "length ?d = 32" by (simp add: long_image_def)
  have "file_bytes s cs (unat off) 32 @ file_bytes s cs (unat off + 32) (32 * (i + 1)) = ?d @ dir_image name (sne_bytes (generate_shortname name) attr clus sz) i"
    using Suc.prems(11) file_bytes_append [of s cs "unat off" 32 "32 * (i + 1)"] by simp
  then have fb: "file_bytes s cs (unat off) 32 = ?d" "file_bytes s cs (unat off + 32) (32 * (i + 1)) = dir_image name (sne_bytes (generate_shortname name) attr clus sz) i"
    using ld by simp_all
  obtain r s1 s2 where r: "reloc_clus dp off False s = Ret (r, s1)" "r \<noteq> -1"
    "rw_clus (cur_clus (ents s1 dp)) False False (ksp s1) (of_int r) 32 s1 = Ret (32, s2)"
    "file_read s s2 dp cs (ksp s) ?d" "get_local 32 s2 = ?d"
    using read_dentry_ok [OF Suc.prems(1-3)] Suc.prems(7) fb(1) by auto
  have e: "ents s2 ep = ents s ep" using r(4) Suc.prems(4) by (auto simp: file_read_def)
  have d: "?d ! 0 = ?o" "?d ! 11 = ATTR_LONG_NAME" by (simp_all add: long_image_def lne_parts)
  let ?fn = "read_long_name (i * 13) ?d (filename (ents s ep))"
  have fl: "part_read name i ?fn" unfolding long_image_def by (rule part_read_step [OF Suc.prems(5,12) i])
  have bd: "i * 13 + 13 \<le> length (filename (ents s ep))"
    using Suc.prems(12) i long_entries_bounds(2) [OF Suc.prems(5)] by (simp add: part_read_def)
  have ren: "read_entry_name (i * 13) ?d (filename (ents s2 ep)) = Ret ?fn" using bd e by (simp add: read_entry_name_def d)
  let ?s3 = "set_ent ep (\<lambda>x. x\<lparr>filename := ?fn\<rparr>) s2"
  let ?count = "if Suc i = ?le then int ?le + 1 else count"
  note oc2 = file_read_on_chain [OF r(4) Suc.prems(1,2)] and rd = file_readD [OF r(4)]
  have oc3: "fs_ok ?s3" "on_chain ?s3 dp cs"
    using oc2 set_ent_other [OF Suc.prems(4)] by simp_all
  have o: "unat (off + 32) = unat off + 32" using Suc.prems(8) by (simp add: unat_word_ariths)
  have fb3: "file_bytes ?s3 cs (unat (off + 32)) (32 * (i + 1)) = dir_image name (sne_bytes (generate_shortname name) attr clus sz) i"
    using fb(2) rd(1,2) by (simp add: o file_bytes_def)
  have step: "enext_loop k dp ep off 0 cp count s = enext_loop k' dp ep (off + 32) 0 (cp \<and> \<not> Suc i = ?le) ?count ?s3"
    using r(1-3) lo Suc.prems(13) ren unfolding k by (auto simp: r(5) d Let_def)
  show ?case unfolding step
  proof (rule Suc.IH)
    show "unat (off + 32) mod 32 = 0" "unat (off + 32) + 32 * (i + 1) < 2 ^ 32" using Suc.prems(3,8) o by simp_all
    show "unat (off + 32) + 32 * (i + 1) \<le> length cs * unat (byts_per_clus (vol ?s3))" using Suc.prems(7) o rd(1) by simp
    show "part_read name i (filename (ents ?s3 ep))" using fl by simp
    show "if i = ?le then cp \<and> \<not> Suc i = ?le else \<not> (cp \<and> \<not> Suc i = ?le) \<and> ?count = int ?le + 1" using i Suc.prems(13) by auto
  qed (use oc3 Suc.prems fb3 k i in auto)
qed

lemma dir_written_bytes:
  assumes "dir_written s s' dp cs off bs" shows "file_bytes s' cs off (length bs) = bs"
proof (rule nth_equalityI)
  fix j assume "j < length (file_bytes s' cs off (length bs))"
  moreover have "\<forall>j < length bs. dsk s' (file_addr (vol s) cs (off + j)) = bs ! j"
    using assms by (simp add: dir_written_def file_written_def)
  ultimately show "file_bytes s' cs off (length bs) ! j = bs ! j" using dir_writtenD(1) [OF assms] by (simp add: file_bytes_def)
qed simp

section \<open>Properties\<close>

text \<open>(C29) A name survives the directory. For a directory on a chain of clusters with room for the entries, \<^verbatim>\<open>emake\<close>
  returns, and \<^verbatim>\<open>enext\<close> at the same offset, into any other in-memory entry, returns 1, the number of 32-byte
  entries the name took, and the same name, attribute, first cluster and size. The names are those of up to
  247 printable ASCII characters: a longer one would need a 20th long entry, which ends behind the name buffer.\<close>

theorem emake_enext_roundtrip:
  assumes s: "fs_ok s" "on_chain s dp cs" and dir: "attribute (ents s dp) AND ATTR_DIRECTORY \<noteq> 0" "evalid (ents s dp) = 1"
    and off: "off mod 32 = 0" "32 < off" and ep: "ep \<noteq> dp" "e \<noteq> dp"
    and name: "name_ok name" "filename (ents s ep) = name_array name" and attr: "attribute (ents s ep) \<noteq> ATTR_LONG_NAME"
    and room: "unat off + 32 * (long_entries name + 1) \<le> length cs * unat (byts_per_clus (vol s))"
      "unat off + 32 * (long_entries name + 1) < 2 ^ 32"
  shows "\<exists>s1 s2. emake dp ep off s = Ret s1 \<and> enext dp e off count s1 = Ret (1, int (long_entries name) + 1, s2)
    \<and> cstr (filename (ents s2 e)) = name \<and> attribute (ents s2 e) = attribute (ents s ep)
    \<and> first_clus (ents s2 e) = first_clus (ents s ep) \<and> file_size (ents s2 e) = file_size (ents s ep)"
proof -
  let ?n = "long_entries name" and ?short = "generate_shortname name" and ?x = "ents s ep"
  let ?sne = "sne_bytes ?short (attribute ?x) (first_clus ?x) (file_size ?x)"
  have o: "unat off mod 32 = 0" using off(1) unat_mod_distrib [of off 32] by simp
  have cn: "cstr (filename ?x) = name" using name cstr_name_array by simp
  have ls: "length ?sne = 32" using generate_shortname_chars(1) [OF name(1)] by (simp add: sne_bytes_def)
  obtain off0 s0 s1 where el: "emake_long ?n ?n (cal_checksum ?short) dp (name_array name) off s = Ret (off0, s0)"
    "ents s0 ep = ?x" "write_dentry dp off0 ?sne s0 = Ret s1" and w: "dir_written s s1 dp cs (unat off) (dir_image name ?sne ?n)"
    using emake_long_ok [OF s o ep(1) [symmetric] ls room] ep(1) by blast
  have em: "emake dp ep off s = Ret s1"
    unfolding emake_def Let_def cn unfolding name(2)
    using dir off el by (simp add: linorder_not_le [symmetric])
  note oc1 = dir_written_on_chain [OF w s] and wd = dir_writtenD [OF w]
  obtain i where d1: "ents s1 dp = at_clus dp cs i (ents s dp)" using wd(4) by blast
  let ?s2 = "set_ent e (\<lambda>x. x\<lparr>filename := replicate 256 0\<rparr>) s1"
  have en: "enext dp e off count s1 = enext_loop 0x8000000 dp e off 0 True count ?s2"
    using dir off(1) d1 by (simp add: enext_def at_clus_def)
  have lb: "?n \<le> 19" by (rule long_entries_bounds(2) [OF name(1)])
  have "\<exists>s2. enext_loop 0x8000000 dp e off 0 True count ?s2 = Ret (1, int ?n + 1, s2)
    \<and> cstr (filename (ents s2 e)) = name \<and> attribute (ents s2 e) = attribute ?x
    \<and> first_clus (ents s2 e) = first_clus ?x \<and> file_size (ents s2 e) = file_size ?x"
  proof (rule enext_loop_reads)
    show "fs_ok ?s2" "on_chain ?s2 dp cs"
      using oc1 room(1) ls set_ent_other [OF ep(2) [symmetric]] by simp_all
    show "file_bytes ?s2 cs (unat off) (32 * (?n + 1)) = dir_image name ?sne ?n"
      using dir_written_bytes [OF w] ls by (simp add: file_bytes_def)
    show "part_read name ?n (filename (ents ?s2 e))" using part_read_init [OF name(1)] by simp
  qed (use o ep name(1) attr room wd(1) lb in simp_all)
  then show ?thesis using em en by auto
qed

text \<open>A directory with the cluster of the example volume, and a file to be entered in it.\<close>

definition small_dir_fs :: fsys where
  "small_dir_fs = small_fs\<lparr>ents := (\<lambda>e. if e = 0 then small_file\<lparr>attribute := ATTR_DIRECTORY, evalid := 1\<rparr>
     else small_file\<lparr>filename := name_array [0x61, 0x2e, 0x63], file_size := 300\<rparr>)\<rparr>"

theorem emake_enext_roundtrip_witness:
  "\<exists>s1 s2. emake 0 1 64 small_dir_fs = Ret s1 \<and> enext 0 2 64 0 s1 = Ret (1, 2, s2)
    \<and> cstr (filename (ents s2 2)) = [0x61, 0x2e, 0x63] \<and> file_size (ents s2 2) = 300"
proof -
  let ?s = small_dir_fs
  have s: "fs_ok ?s" using small_fs_ok by (simp add: fs_ok_def small_dir_fs_def)
  have f: "fat_entry ?s = fat_entry small_fs" by (rule ext) (simp add: fat_entry_def small_dir_fs_def)
  have oc: "on_chain ?s 0 [2]" using small_on_chain unfolding on_chain_def f by (simp add: small_dir_fs_def small_fs_def)
  have n: "name_ok [0x61, 0x2e, 0x63]" "long_entries [0x61, 0x2e, 0x63] = 1" by (simp_all add: name_ok_def long_entries_def)
  have e: "attribute (ents ?s 0) AND ATTR_DIRECTORY \<noteq> 0" "evalid (ents ?s 0) = 1" "filename (ents ?s 1) = name_array [0x61, 0x2e, 0x63]"
    "attribute (ents ?s 1) \<noteq> ATTR_LONG_NAME" "file_size (ents ?s 1) = 300" "byts_per_clus (vol ?s) = 512"
    by (simp_all add: small_dir_fs_def small_file_def small_fs_def small_vol_def root_dirent_def)
  show ?thesis using emake_enext_roundtrip [OF s oc e(1,2), of 64 1 2 "[0x61, 0x2e, 0x63]" 0] n e by auto
qed

section \<open>Path elements\<close>

text \<open>The reference: a path split at its slashes, the empty parts dropped, each part cut at 255 bytes.\<close>

primrec split_slash :: "u8 list \<Rightarrow> u8 list list" where
  "split_slash [] = [[]]"
| "split_slash (c # cs) = (if c = slash then [] # split_slash cs else (c # hd (split_slash cs)) # tl (split_slash cs))"

definition path_elems :: "u8 list \<Rightarrow> u8 list list" where
  "path_elems path = map (take FAT32_MAX_FILENAME) (filter (\<lambda>el. el \<noteq> []) (split_slash path))"

primrec walk_elems :: "u8 list list \<Rightarrow> bool \<Rightarrow> u8 list \<Rightarrow> nat \<Rightarrow> fsys \<Rightarrow> (nat option \<times> u8 list \<times> fsys) res" where
  "walk_elems [] par name e s =
     (if par then bind_res (eput eput_depth e s) (\<lambda>s1. Ret (None, name, s1)) else Ret (Some e, name, s))"
| "walk_elems (el # els) par name e s =
     bind_res (elock e s) (\<lambda>s1.
       if attribute (ents s1 e) AND ATTR_DIRECTORY = 0
       then bind_res (eunlock e s1) (\<lambda>s2. bind_res (eput eput_depth e s2) (\<lambda>s3. Ret (None, el, s3)))
       else if par \<and> els = [] then bind_res (eunlock e s1) (\<lambda>s2. Ret (Some e, el, s2))
       else bind_res (dirlookup e el s1) (\<lambda>(found, off, s2).
         bind_res (eunlock e s2) (\<lambda>s3. bind_res (eput eput_depth e s3) (\<lambda>s4.
           case found of None \<Rightarrow> Ret (None, el, s4) | Some e' \<Rightarrow> walk_elems els par el e' s4))))"

lemma split_slash_first:
  "split_slash p = takeWhile (\<lambda>c. c \<noteq> slash) p # (case dropWhile (\<lambda>c. c \<noteq> slash) p of [] \<Rightarrow> [] | _ # r \<Rightarrow> split_slash r)"
  by (induction p) auto

lemma path_elems_slashes: "path_elems (dropWhile (\<lambda>c. c = slash) p) = path_elems p"
  by (induction p) (auto simp: path_elems_def)

lemma path_elems_first:
  assumes "c \<noteq> slash"
  shows "path_elems (c # cs) = take FAT32_MAX_FILENAME (takeWhile (\<lambda>c. c \<noteq> slash) (c # cs)) # path_elems (dropWhile (\<lambda>c. c \<noteq> slash) (c # cs))"
proof -
  have *: "split_slash (c # cs) = takeWhile (\<lambda>c. c \<noteq> slash) (c # cs) # (case dropWhile (\<lambda>c. c \<noteq> slash) cs of [] \<Rightarrow> [] | _ # r \<Rightarrow> split_slash r)"
    using split_slash_first [of "c # cs"] assms by simp
  show ?thesis
  proof (cases "dropWhile (\<lambda>c. c \<noteq> slash) cs")
    case Nil
    have d: "dropWhile (\<lambda>c. c \<noteq> slash) (c # cs) = []" using assms Nil by simp
    show ?thesis using assms unfolding path_elems_def * d unfolding Nil by simp
  next
    case (Cons d r)
    then have "d = slash" using hd_dropWhile [of "\<lambda>c. c \<noteq> slash" cs] by simp
    then show ?thesis using assms Cons unfolding path_elems_def * by simp
  qed
qed

lemma path_elems_empty: "c \<noteq> slash \<Longrightarrow> path_elems (c # cs) \<noteq> []"
  by (simp add: path_elems_first)

text \<open>\<^verbatim>\<open>skipelem\<close> returns the first element, and a rest that has the others and is empty when there are none.\<close>

lemma skipelem_elems:
  "case skipelem path of None \<Rightarrow> path_elems path = []
   | Some (el, rest) \<Rightarrow> path_elems path = el # path_elems rest \<and> (rest = [] \<longleftrightarrow> path_elems rest = [])"
proof (cases "dropWhile (\<lambda>c. c = slash) path")
  case Nil
  have "path_elems path = []" unfolding path_elems_slashes [of path, symmetric] Nil by (simp add: path_elems_def)
  then show ?thesis unfolding skipelem_def Nil by simp
next
  case (Cons c cs)
  then have c: "c \<noteq> slash" using hd_dropWhile [of "\<lambda>c. c = slash" path] by simp
  let ?rest = "dropWhile (\<lambda>c. c = slash) (dropWhile (\<lambda>c. c \<noteq> slash) (c # cs))"
  have "path_elems ?rest = [] \<longleftrightarrow> ?rest = []"
  proof (cases ?rest)
    case (Cons d ds)
    then have "d \<noteq> slash" using hd_dropWhile [of "\<lambda>c. c = slash" "dropWhile (\<lambda>c. c \<noteq> slash) (c # cs)"] by simp
    then show ?thesis unfolding Cons using path_elems_empty by blast
  next
    case Nil
    show ?thesis unfolding Nil by (simp add: path_elems_def)
  qed
  moreover have "path_elems path = take FAT32_MAX_FILENAME (takeWhile (\<lambda>c. c \<noteq> slash) (c # cs)) # path_elems ?rest"
    using path_elems_first [OF c, of cs] path_elems_slashes Cons by metis
  ultimately show ?thesis unfolding skipelem_def Cons Let_def by (simp only: list.case option.case prod.case simp_thms)
qed

text \<open>(C30) Path resolution follows the elements of the path: the loop of \<^verbatim>\<open>lookup_path\<close>, which works on the string with
  \<^verbatim>\<open>skipelem\<close>, makes the same calls on the same entries as a walk along the list of the non-empty parts between
  the slashes, whatever the number of slashes before, between and behind them.\<close>

theorem walk_path_elements: "walk_path path par name e s = walk_elems (path_elems path) par name e s"
proof (induction path par name e s rule: walk_path.induct)
  case (1 path par name e s)
  show ?case
  proof (cases "skipelem path")
    case None
    then show ?thesis using skipelem_elems [of path] by (subst walk_path.simps) simp
  next
    case (Some p)
    obtain el rest where p: "p = (el, rest)" by (cases p)
    have els: "path_elems path = el # path_elems rest" "rest = [] \<longleftrightarrow> path_elems rest = []"
      using skipelem_elems [of path] Some p by auto
    have ih: "walk_path rest par el e' s4 = walk_elems (path_elems rest) par el e' s4"
      if "elock e s = Ret s1" "attribute (ents s1 e) AND ATTR_DIRECTORY \<noteq> 0" "\<not> (par \<and> path_elems rest = [])"
        "dirlookup e el s1 = Ret (Some e', off, s2)" "eunlock e s2 = Ret s3" "eput eput_depth e s3 = Ret s4" for s1 s2 s3 s4 off e'
      using 1 [OF Some p [symmetric] that(1,2)] that els(2) by blast
    have "walk_path path par name e s = bind_res (elock e s) (\<lambda>s1.
       if attribute (ents s1 e) AND ATTR_DIRECTORY = 0
       then bind_res (eunlock e s1) (\<lambda>s2. bind_res (eput eput_depth e s2) (\<lambda>s3. Ret (None, el, s3)))
       else if par \<and> rest = [] then bind_res (eunlock e s1) (\<lambda>s2. Ret (Some e, el, s2))
       else bind_res (dirlookup e el s1) (\<lambda>(found, off, s2).
         bind_res (eunlock e s2) (\<lambda>s3. bind_res (eput eput_depth e s3) (\<lambda>s4.
           case found of None \<Rightarrow> Ret (None, el, s4) | Some e' \<Rightarrow> walk_path rest par el e' s4))))"
      by (subst walk_path.simps) (simp add: Some p)
    also have "\<dots> = walk_elems (el # path_elems rest) par name e s"
      unfolding walk_elems.simps els(2)
      using ih by (intro bind_res_cong refl if_cong) (auto intro!: bind_res_cong split: option.split)
    finally show ?thesis using els(1) by simp
  qed
qed

end
