(* ===== verification/Ringbuf.thy ===== *)
theory Ringbuf
  imports Ring Prelude
begin

text \<open>
  \<^verbatim>\<open>kernel/ring_buffer.c\<close>: a ring with a head, a tail and a size, one place of which stays empty. The two
  indices are kept as 32-bit words; the result \<^verbatim>\<open>len\<close>, an \<^verbatim>\<open>int\<close>, is compared as a signed word. The user buffer is
  what \<^verbatim>\<open>copyout\<close> and \<^verbatim>\<open>copyin\<close> exchange with it: a read lists the pieces it copies out with their offsets in the
  user buffer, a write takes the bytes of an accessible user buffer (the results of both copies are ignored by the
  code). Waiting is a sequence of observations of the ring and the clock, one for each \<^verbatim>\<open>yield\<close>.
\<close>

section \<open>State and operations\<close>

definition RING_BUFFER_SIZE :: nat where [simp]: "RING_BUFFER_SIZE = 4095"

record ring_buffer =
  rsize :: u32
  rhead :: u32
  rtail :: u32
  rdata :: "u8 list"

definition init_ring_buffer :: "ring_buffer \<Rightarrow> ring_buffer" where
  "init_ring_buffer r =
     r\<lparr>rsize := of_nat RING_BUFFER_SIZE, rhead := 0, rtail := 0,
       rdata := put_at 0 (replicate (RING_BUFFER_SIZE - 12) 0) (rdata r)\<rparr>"

definition ring_buffer_used :: "ring_buffer \<Rightarrow> u32" where
  "ring_buffer_used r = (rtail r - rhead r + rsize r) mod rsize r"

definition ring_buffer_free :: "ring_buffer \<Rightarrow> u32" where
  "ring_buffer_free r = rsize r - ring_buffer_used r - 1"

definition ring_buffer_empty :: "ring_buffer \<Rightarrow> bool" where
  "ring_buffer_empty r \<longleftrightarrow> ring_buffer_used r = 0"

definition ring_buffer_full :: "ring_buffer \<Rightarrow> bool" where
  "ring_buffer_full r \<longleftrightarrow> ring_buffer_free r = 0"

text \<open>The list of observations stands for the rounds of the loop; \<open>None\<close> when they run out.\<close>

primrec wait_ring_buffer_read :: "(ring_buffer \<times> u64) list \<Rightarrow> u64 \<Rightarrow> int option" where
  "wait_ring_buffer_read [] final_ticks = None"
| "wait_ring_buffer_read (o1 # os) final_ticks =
     (if \<not> ring_buffer_empty (fst o1) then Some 0
      else if final_ticks < snd o1 then Some 1 else wait_ring_buffer_read os final_ticks)"

primrec wait_ring_buffer_write :: "(ring_buffer \<times> u64) list \<Rightarrow> u64 \<Rightarrow> int option" where
  "wait_ring_buffer_write [] final_ticks = None"
| "wait_ring_buffer_write (o1 # os) final_ticks =
     (if \<not> ring_buffer_full (fst o1) then Some 0
      else if final_ticks < snd o1 then Some 1 else wait_ring_buffer_write os final_ticks)"

definition read_ring_buffer :: "ring_buffer \<Rightarrow> u32 \<Rightarrow> (u32 \<times> (nat \<times> u8 list) list \<times> ring_buffer) res" where
  "read_ring_buffer r n =
     (let used = ring_buffer_used r; len = (if used < n then used else n) in
      if 0 <s len
      then let copies =
             (if rsize r < rhead r + len
              then let right = rsize r - rhead r; left = len - right in
                [(0, take (unat right) (drop (unat (rhead r)) (rdata r))), (unat right, take (unat left) (rdata r))]
              else [(0, take (unat len) (drop (unat (rhead r)) (rdata r)))])
           in Ret (len, copies, r\<lparr>rhead := (rhead r + len) mod rsize r\<rparr>)
      else if len <s 0 then Panic ''read_ring_buffer: len < 0''
      else Ret (len, [], r))"

definition write_ring_buffer :: "ring_buffer \<Rightarrow> u8 list \<Rightarrow> u32 \<Rightarrow> (u32 \<times> ring_buffer) res" where
  "write_ring_buffer r src n =
     (let free = ring_buffer_free r; len = (if free < n then free else n) in
      if 0 <s len
      then let d =
             (if rsize r < rtail r + len
              then let right = rsize r - rtail r; left = len - right;
                       d1 = put_at (unat (rtail r)) (take (unat right) src) (rdata r) in
                if 0 <s left then put_at 0 (take (unat left) (drop (unat right) src)) d1 else d1
              else put_at (unat (rtail r)) (take (unat len) src) (rdata r))
           in Ret (len, r\<lparr>rdata := d, rtail := (rtail r + len) mod rsize r\<rparr>)
      else if len <s 0 then Panic ''read_ring_buffer: len < 0''
      else Ret (len, r))"

section \<open>Distances in a ring of any size\<close>

lemma ring_dist:
  fixes h t N :: nat
  assumes "h < N" "t < N"
  shows "(t + N - h) mod N = (if h \<le> t then t - h else N - (h - t))"
proof (cases "h \<le> t")
  case True
  then have "(t + N - h) mod N = ((t - h) + N) mod N" by simp
  also have "\<dots> = (t - h) mod N" by (rule mod_add_self2)
  finally show ?thesis using True assms by simp
qed (use assms in simp)

lemma ring_advance:
  fixes h L N :: nat
  assumes "h < N" "L \<le> N"
  shows "(h + L) mod N = (if h + L < N then h + L else h + L - N)"
  using assms by (simp add: le_mod_geq)

lemma ring_dist_read:
  fixes h t L N :: nat
  assumes "h < N" "t < N" "L \<le> (t + N - h) mod N"
  shows "(t + N - (h + L) mod N) mod N = (t + N - h) mod N - L"
proof -
  have L: "L < N" using assms by (metis le_less_trans mod_less_divisor gr0I not_less0)
  then have a: "(h + L) mod N < N" by simp
  show ?thesis using assms(3) ring_advance [OF assms(1) less_imp_le [OF L]] assms(1,2) L
    unfolding ring_dist [OF assms(1,2)] ring_dist [OF a assms(2)] by (auto split: if_splits)
qed

lemma ring_dist_write:
  fixes h t L N :: nat
  assumes "h < N" "t < N" "(t + N - h) mod N + L < N"
  shows "((t + L) mod N + N - h) mod N = (t + N - h) mod N + L"
proof -
  have L: "L < N" using assms by simp
  then have a: "(t + L) mod N < N" by simp
  show ?thesis using assms(3) ring_advance [OF assms(2) less_imp_le [OF L]] assms(1,2) L
    unfolding ring_dist [OF assms(1,2)] ring_dist [OF assms(1) a] by (auto split: if_splits)
qed

text \<open>Slots of the queue and slots behind it.\<close>

lemma ring_slot:
  fixes h U i N :: nat
  assumes "h < N" "U < N" "i < N"
  shows "((h + i) mod N + N - (h + U) mod N) mod N = (if U \<le> i then i - U else N - (U - i))"
proof -
  have a: "(h + i) mod N < N" "(h + U) mod N < N" using assms by simp_all
  show ?thesis unfolding ring_dist [OF a(2,1)]
    using ring_advance [of h N i] ring_advance [of h N U] assms by auto
qed
text \<open>The bytes \<open>xs\<close> stored from slot \<open>t\<close> on, in one piece or in two.\<close>

lemma fill_nth:
  assumes "t < N" "length xs < N" "N \<le> length d" "j < N"
    and d': "d' = (if N < t + length xs then put_at 0 (drop (N - t) xs) (put_at t (take (N - t) xs) d) else put_at t xs d)"
  shows "length d' = length d" "d' ! j = (if (j + N - t) mod N < length xs then xs ! ((j + N - t) mod N) else d ! j)"
proof -
  show "length d' = length d" using assms by (auto simp: d')
  show "d' ! j = (if (j + N - t) mod N < length xs then xs ! ((j + N - t) mod N) else d ! j)"
    unfolding ring_dist [OF assms(1,4)] using assms(1-4) by (auto simp: d' nth_put_at)
qed

section \<open>The queue in the ring\<close>

definition ring_wf :: "ring_buffer \<Rightarrow> bool" where
  "ring_wf r \<longleftrightarrow> rsize r = 4095 \<and> rhead r < 4095 \<and> rtail r < 4095 \<and> length (rdata r) = 4096"

definition ring_bytes :: "ring_buffer \<Rightarrow> u8 list" where
  "ring_bytes r = ring_seq (take 4095 (rdata r)) (unat (rhead r)) (unat (ring_buffer_used r))"

lemma length_ring_bytes [simp]: "length (ring_bytes r) = unat (ring_buffer_used r)"
  by (simp add: ring_bytes_def)

text \<open>The bytes the copies of a read place in the user buffer, in the order of their offsets.\<close>

definition delivered :: "(nat \<times> u8 list) list \<Rightarrow> u8 list" where
  "delivered copies = concat (map snd copies)"

lemma unat_used:
  assumes "ring_wf r"
  shows "unat (ring_buffer_used r) = (unat (rtail r) + 4095 - unat (rhead r)) mod 4095"
proof -
  have h: "unat (rhead r) < 4095" "unat (rtail r) < 4095" and s: "rsize r = 4095"
    using assms by (simp_all add: ring_wf_def word_less_nat_alt)
  have e: "rtail r - rhead r + 4095 = of_nat (unat (rtail r) + 4095 - unat (rhead r))" using h by (simp add: of_nat_diff)
  have "unat (of_nat (unat (rtail r) + 4095 - unat (rhead r)) :: u32) = unat (rtail r) + 4095 - unat (rhead r)"
    by (rule unat_of_nat_u32) (use h in simp)
  then show ?thesis unfolding ring_buffer_used_def s e by (simp add: unat_mod_distrib)
qed

lemma used_bound: "ring_wf r \<Longrightarrow> unat (ring_buffer_used r) < 4095"
  by (simp add: unat_used)

lemma unat_free:
  assumes "ring_wf r" shows "unat (ring_buffer_free r) = 4094 - unat (ring_buffer_used r)"
proof -
  have b: "unat (ring_buffer_used r) \<le> 4094" using used_bound [OF assms] by simp
  have e: "ring_buffer_free r = 4094 - ring_buffer_used r" using assms by (simp add: ring_buffer_free_def ring_wf_def)
  show ?thesis unfolding e using b by (subst unat_sub) (simp_all add: word_le_nat_alt)
qed

lemma sless_small: "unat (w :: u32) < 4096 \<Longrightarrow> (0 <s w \<longleftrightarrow> w \<noteq> 0) \<and> \<not> w <s 0"
proof -
  assume w: "unat w < 4096"
  then have "sint w = uint w" by (simp add: sint_u32)
  moreover have "0 < uint w \<longleftrightarrow> uint w \<noteq> 0" "\<not> uint w < 0" using uint_nonnegative [of w] by linarith+
  ultimately show ?thesis by (simp add: word_sless_alt uint_0_iff)
qed

lemma min_word: "unat (if (a :: u32) < b then a else b) = min (unat a) (unat b)"
  by (auto simp: word_less_nat_alt)

lemma ring_split:
  assumes "h < length buf" "L \<le> length buf"
  shows "ring_seq buf h L = (if h + L \<le> length buf then take L (drop h buf)
     else take (length buf - h) (drop h buf) @ take (L - (length buf - h)) buf)"
proof (rule nth_equalityI)
  fix i assume "i < length (ring_seq buf h L)"
  then have i: "i < L" by simp
  have "(h + i) mod length buf = (if h + i < length buf then h + i else h + i - length buf)"
    using assms i by (simp add: mod_if)
  then show "ring_seq buf h L ! i = (if h + L \<le> length buf then take L (drop h buf)
     else take (length buf - h) (drop h buf) @ take (L - (length buf - h)) buf) ! i"
    using i assms by (auto simp: ring_seq_def nth_append add.commute)
qed (use assms in auto)

lemma ring_wfD:
  assumes "ring_wf r"
  shows "rsize r = 4095" "unat (rhead r) < 4095" "unat (rtail r) < 4095" "length (rdata r) = 4096" "length (take 4095 (rdata r)) = 4095"
  using assms by (simp_all add: ring_wf_def word_less_nat_alt)

text \<open>Advancing an index by at most the size.\<close>

lemma advance:
  assumes "unat (h :: u32) < 4095" "unat len \<le> 4095"
  shows "unat (h + len) = unat h + unat len" "unat ((h + len) mod 4095) = (unat h + unat len) mod 4095" "(h + len) mod 4095 < 4095"
proof -
  show a: "unat (h + len) = unat h + unat len" using assms by (simp add: unat_word_ariths)
  show "unat ((h + len) mod 4095) = (unat h + unat len) mod 4095" by (simp add: unat_mod_distrib a)
  then show "(h + len) mod 4095 < 4095" by (simp add: word_less_nat_alt)
qed

lemma used_after_read:
  assumes w: "ring_wf r" and len: "unat len \<le> unat (ring_buffer_used r)"
  defines "r' \<equiv> r\<lparr>rhead := (rhead r + len) mod 4095\<rparr>"
  shows "ring_wf r'" "unat (ring_buffer_used r') = unat (ring_buffer_used r) - unat len"
proof -
  note d = ring_wfD [OF w] and u = used_bound [OF w]
  note a = advance [of "rhead r" len, OF d(2)]
  have l: "unat len \<le> 4095" using len u by simp
  show w': "ring_wf r'" using w a(3) [OF l] by (simp add: ring_wf_def r'_def)
  show "unat (ring_buffer_used r') = unat (ring_buffer_used r) - unat len"
    using ring_dist_read [OF d(2,3), of "unat len"] unat_used [OF w'] unat_used [OF w] a(2) [OF l] len by (simp add: r'_def)
qed

lemma read_ring_buffer_spec:
  assumes w: "ring_wf r"
  shows "\<exists>copies r'. read_ring_buffer r n = Ret (of_nat (min (length (ring_bytes r)) (unat n)), copies, r') \<and> ring_wf r'
    \<and> delivered copies = take (unat n) (ring_bytes r) \<and> ring_bytes r' = drop (unat n) (ring_bytes r)"
proof -
  define len where "len = (if ring_buffer_used r < n then ring_buffer_used r else n)"
  note d = ring_wfD [OF w] and u = used_bound [OF w]
  have ul: "unat len = min (unat (ring_buffer_used r)) (unat n)" by (simp add: len_def min_word)
  have lu: "unat len \<le> unat (ring_buffer_used r)" "unat len < 4095" using ul u by auto
  have lw: "of_nat (min (length (ring_bytes r)) (unat n)) = len" unfolding length_ring_bytes ul [symmetric] by simp
  have sl: "(0 <s len) = (len \<noteq> 0)" "\<not> len <s 0" using sless_small [of len] lu by auto
  have tk: "take (unat n) (ring_bytes r) = ring_seq (take 4095 (rdata r)) (unat (rhead r)) (unat len)"
    using take_ring_seq [of "unat n" "unat (ring_buffer_used r)" "take 4095 (rdata r)" "unat (rhead r)"] ul
    by (cases "unat n \<le> unat (ring_buffer_used r)") (simp_all add: ring_bytes_def)
  have rt: "drop (unat n) (ring_bytes r) = ring_seq (take 4095 (rdata r)) (unat (rhead r) + unat len) (unat (ring_buffer_used r) - unat len)"
  proof -
    have "ring_bytes r = ring_seq (take 4095 (rdata r)) (unat (rhead r)) (unat len)
        @ ring_seq (take 4095 (rdata r)) (unat (rhead r) + unat len) (unat (ring_buffer_used r) - unat len)"
      using ring_seq_append [of "take 4095 (rdata r)" "unat (rhead r)" "unat len" "unat (ring_buffer_used r) - unat len"] lu
      by (simp add: ring_bytes_def)
    then show ?thesis using tk by (metis append_take_drop_id same_append_eq)
  qed
  show ?thesis
  proof (cases "len = 0")
    case True
    have "unat (ring_buffer_used r) = 0 \<or> unat n = 0" using ul True by (auto simp: min_def split: if_splits)
    then have "ring_bytes r = [] \<or> unat n = 0" by (metis length_ring_bytes length_0_conv)
    then have "take (unat n) (ring_bytes r) = []" "drop (unat n) (ring_bytes r) = ring_bytes r" by auto
    then show ?thesis unfolding lw using w sl True unfolding read_ring_buffer_def Let_def len_def [symmetric]
      by (simp add: delivered_def)
  next
    case False
    let ?r = "r\<lparr>rhead := (rhead r + len) mod 4095\<rparr>"
    note a = advance [OF d(2), of len] and ur = used_after_read [OF w lu(1)]
    have "ring_bytes ?r = ring_seq (take 4095 (rdata r)) (unat (rhead r) + unat len) (unat (ring_buffer_used r) - unat len)"
      using ring_seq_mod [OF d(5) [symmetric], of "unat (rhead r) + unat len"] a(2) lu ur(2) by (simp add: ring_bytes_def)
    moreover have "\<exists>copies. read_ring_buffer r n = Ret (len, copies, ?r) \<and> delivered copies = ring_seq (take 4095 (rdata r)) (unat (rhead r)) (unat len)"
    proof (cases "rsize r < rhead r + len")
      case big: True
      then have b: "4095 < unat (rhead r) + unat len" using a(1) lu d(1) by (simp add: word_less_nat_alt)
      have rl: "unat (4095 - rhead r) = 4095 - unat (rhead r)" using d(2) by (subst unat_sub) (simp_all add: word_le_nat_alt)
      have "unat (len - (4095 - rhead r)) = unat len - (4095 - unat (rhead r))" using rl b by (subst unat_sub) (simp_all add: word_le_nat_alt)
      moreover have "unat len + unat (rhead r) - 4095 \<le> 4095" using lu d(2) by simp
      ultimately show ?thesis using False sl big ring_split [of "unat (rhead r)" "take 4095 (rdata r)" "unat len"] d b lu rl
        unfolding read_ring_buffer_def Let_def len_def [symmetric]
        by (simp add: delivered_def drop_take min_def)
    next
      case small: False
      then have b: "unat (rhead r) + unat len \<le> 4095" using a(1) lu d(1) by (simp add: word_less_nat_alt)
      show ?thesis using False sl small ring_split [of "unat (rhead r)" "take 4095 (rdata r)" "unat len"] d b lu
        unfolding read_ring_buffer_def Let_def len_def [symmetric]
        by (simp add: delivered_def drop_take min_def)
    qed
    ultimately show ?thesis unfolding lw using ur(1) tk rt by metis
  qed
qed

lemma used_after_write:
  assumes w: "ring_wf r" and len: "unat (ring_buffer_used r) + unat len < 4095" and d': "length d' = 4096"
  defines "r' \<equiv> r\<lparr>rdata := d', rtail := (rtail r + len) mod 4095\<rparr>"
  shows "ring_wf r'" "unat (ring_buffer_used r') = unat (ring_buffer_used r) + unat len"
proof -
  note d = ring_wfD [OF w]
  have l: "unat len \<le> 4095" using len by simp
  note a = advance [OF d(3) l]
  show w': "ring_wf r'" using w a(3) d' by (simp add: ring_wf_def r'_def)
  show "unat (ring_buffer_used r') = unat (ring_buffer_used r) + unat len"
    using ring_dist_write [OF d(2,3), of "unat len"] unat_used [OF w'] unat_used [OF w] a(2) len by (simp add: r'_def)
qed

lemma bytes_after_write:
  assumes w: "ring_wf r" and len: "unat (ring_buffer_used r) + length xs < 4095" "unat len = length xs"
    and d': "d' = (if 4095 < unat (rtail r) + length xs then put_at 0 (drop (4095 - unat (rtail r)) xs)
      (put_at (unat (rtail r)) (take (4095 - unat (rtail r)) xs) (rdata r)) else put_at (unat (rtail r)) xs (rdata r))"
  defines "r' \<equiv> r\<lparr>rdata := d', rtail := (rtail r + len) mod 4095\<rparr>"
  shows "ring_wf r'" "ring_bytes r' = ring_bytes r @ xs"
proof -
  note d = ring_wfD [OF w]
  let ?h = "unat (rhead r)" and ?t = "unat (rtail r)" and ?U = "unat (ring_buffer_used r)"
  have f: "length d' = 4096" "\<And>j. j < 4095 \<Longrightarrow> d' ! j = (if (j + 4095 - ?t) mod 4095 < length xs then xs ! ((j + 4095 - ?t) mod 4095) else rdata r ! j)"
    using fill_nth [OF d(3), of xs "rdata r" _ d'] len(1) d(4) d' by auto
  have U: "?U < 4095" using len(1) by simp
  have t: "?t = (?h + ?U) mod 4095"
  proof -
    have "(?t + 4095 - ?h) mod 4095 = (if ?h \<le> ?t then ?t - ?h else 4095 - (?h - ?t))" by (rule ring_dist [OF d(2,3)])
    then show ?thesis using unat_used [OF w] ring_advance [OF d(2) less_imp_le [OF U]] d(2,3) by (auto split: if_splits)
  qed
  have uw: "ring_wf r'" "unat (ring_buffer_used r') = ?U + length xs"
    using used_after_write [OF w, of len d'] len f(1) unfolding r'_def by auto
  show "ring_wf r'" by (rule uw(1))
  have sl: "((?h + i) mod 4095 + 4095 - ?t) mod 4095 = (if ?U \<le> i then i - ?U else 4095 - (?U - i))" if "i < 4095" for i
    unfolding t by (rule ring_slot [OF d(2) U that])
  have nth: "d' ! ((?h + i) mod 4095) = (if ?U \<le> i then xs ! (i - ?U) else rdata r ! ((?h + i) mod 4095))" if "i < ?U + length xs" for i
  proof -
    have "i < 4095" "(?h + i) mod 4095 < 4095" using that len(1) by simp_all
    note e = f(2) [OF \<open>(?h + i) mod 4095 < 4095\<close>, unfolded sl [OF \<open>i < 4095\<close>]]
    show ?thesis
    proof (cases "?U \<le> i")
      case True
      then have "i - ?U < length xs" using that by simp
      then show ?thesis unfolding e by (simp only: True if_True)
    next
      case False
      then have "\<not> 4095 - (?U - i) < length xs" using len(1) by simp
      then show ?thesis unfolding e by (simp only: False if_False)
    qed
  qed
  show "ring_bytes r' = ring_bytes r @ xs"
  proof (rule nth_equalityI)
    fix i assume "i < length (ring_bytes r')"
    then have i: "i < ?U + length xs" using uw(2) by simp
    show "ring_bytes r' ! i = (ring_bytes r @ xs) ! i"
      using nth [OF i] i uw(2) d(4) f(1) by (auto simp: ring_bytes_def ring_seq_def nth_append r'_def)
  qed (simp add: uw(2))
qed

lemma write_ring_buffer_spec:
  assumes w: "ring_wf r" and n: "unat n = length src"
  shows "\<exists>r'. write_ring_buffer r src n = Ret (of_nat (min (4094 - length (ring_bytes r)) (length src)), r') \<and> ring_wf r'
    \<and> ring_bytes r' = ring_bytes r @ take (4094 - length (ring_bytes r)) src"
proof -
  define len where "len = (if ring_buffer_free r < n then ring_buffer_free r else n)"
  note d = ring_wfD [OF w] and u = used_bound [OF w] and fr = unat_free [OF w]
  have ul: "unat len = min (4094 - length (ring_bytes r)) (length src)" by (simp add: len_def min_word fr n)
  have lw: "of_nat (min (4094 - length (ring_bytes r)) (length src)) = len" unfolding ul [symmetric] by simp
  have sl: "(0 <s len) = (len \<noteq> 0)" "\<not> len <s 0" using sless_small [of len] ul by auto
  let ?xs = "take (unat len) src"
  have xs: "length ?xs = unat len" "?xs = take (4094 - length (ring_bytes r)) src" using ul by (auto simp: min_def)
  show ?thesis
  proof (cases "len = 0")
    case True
    then have "take (4094 - length (ring_bytes r)) src = []" using xs by simp
    then show ?thesis unfolding lw using w sl True unfolding write_ring_buffer_def Let_def len_def [symmetric] by simp
  next
    case False
    have fit: "unat (ring_buffer_used r) + length ?xs < 4095" "unat len = length ?xs" using ul u xs(1) by auto
    note a = advance [OF d(3), of len] and bw = bytes_after_write [OF w fit refl]
    have "write_ring_buffer r src n = Ret (len, r\<lparr>rdata := if 4095 < unat (rtail r) + length ?xs then put_at 0 (drop (4095 - unat (rtail r)) ?xs)
      (put_at (unat (rtail r)) (take (4095 - unat (rtail r)) ?xs) (rdata r)) else put_at (unat (rtail r)) ?xs (rdata r),
      rtail := (rtail r + len) mod 4095\<rparr>)"
    proof (cases "rsize r < rtail r + len")
      case big: True
      then have b: "4095 < unat (rtail r) + unat len" using a(1) fit d(1) by (simp add: word_less_nat_alt)
      have rl: "unat (4095 - rtail r) = 4095 - unat (rtail r)" using d(3) by (subst unat_sub) (simp_all add: word_le_nat_alt)
      have le: "unat (len - (4095 - rtail r)) = unat len - (4095 - unat (rtail r))" using rl b by (subst unat_sub) (simp_all add: word_le_nat_alt)
      have "unat (len - (4095 - rtail r)) < 4096" "unat (len - (4095 - rtail r)) \<noteq> 0" using le b fit d(3) by linarith+
      then have "0 <s len - (4095 - rtail r)" using sless_small [of "len - (4095 - rtail r)"] by (auto simp: unat_eq_0)
      then show ?thesis using False sl big d(1) b le rl xs(1) fit unfolding write_ring_buffer_def Let_def len_def [symmetric]
        by (simp add: drop_take min_def)
    next
      case small: False
      then have b: "unat (rtail r) + unat len \<le> 4095" using a(1) fit d(1) by (simp add: word_less_nat_alt)
      then show ?thesis using False sl small d(1) xs(1) unfolding write_ring_buffer_def Let_def len_def [symmetric] by simp
    qed
    then show ?thesis unfolding lw using bw xs(2) by auto
  qed
qed

section \<open>The ring as a bounded queue\<close>

definition rb_put :: "u8 \<Rightarrow> ring_buffer \<Rightarrow> ring_buffer" where
  "rb_put x r = (case write_ring_buffer r [x] 1 of Ret (len, r') \<Rightarrow> r' | _ \<Rightarrow> r)"

definition rb_get :: "ring_buffer \<Rightarrow> u8 \<times> ring_buffer" where
  "rb_get r = (case read_ring_buffer r 1 of Ret (len, copies, r') \<Rightarrow> (hd (delivered copies), r') | _ \<Rightarrow> (0, r))"

interpretation rf: byte_fifo rb_put rb_get ring_bytes 4094 ring_wf
proof
  fix r x assume w: "ring_wf r" and l: "length (ring_bytes r) < 4094"
  then show "ring_wf (rb_put x r) \<and> ring_bytes (rb_put x r) = ring_bytes r @ [x]"
    using write_ring_buffer_spec [OF w, of 1 "[x]"] by (auto simp: rb_put_def take_Cons')
next
  fix r x xs assume w: "ring_wf r" and c: "ring_bytes r = x # xs"
  then show "fst (rb_get r) = x \<and> ring_wf (snd (rb_get r)) \<and> ring_bytes (snd (rb_get r)) = xs"
    using read_ring_buffer_spec [OF w, of 1] by (auto simp: rb_get_def)
next
  fix r assume "ring_wf r"
  from used_bound [OF this] show "length (ring_bytes r) \<le> 4094" by simp
qed

lemma init_ring_wf: "length (rdata r) = 4096 \<Longrightarrow> ring_wf (init_ring_buffer r) \<and> ring_bytes (init_ring_buffer r) = []"
  by (simp add: init_ring_buffer_def ring_wf_def ring_bytes_def ring_buffer_used_def)



end
