(* ===== verification/Grep.thy ===== *)
theory Grep
  imports Prelude
begin

text \<open>
  \<^verbatim>\<open>user/grep.c\<close>: the regular expression matcher and the loop that cuts its input into lines. Strings are byte lists
  without the final zero. The matcher is compared with a reference semantics of patterns; the loop with the list
  of the lines of the input, for any way in which \<^verbatim>\<open>read\<close> cuts the input into pieces.
\<close>

section \<open>The program\<close>

abbreviation caret :: u8 where "caret \<equiv> 0x5e"
abbreviation dollar :: u8 where "dollar \<equiv> 0x24"
abbreviation star :: u8 where "star \<equiv> 0x2a"
abbreviation period :: u8 where "period \<equiv> 0x2e"
abbreviation newline :: u8 where "newline \<equiv> 0x0a"

text \<open>\<^verbatim>\<open>matchhere\<close> and \<^verbatim>\<open>matchstar\<close> call each other; the loop of \<^verbatim>\<open>matchstar\<close> is its recursion on the text.\<close>

function matchhere :: "u8 list \<Rightarrow> u8 list \<Rightarrow> bool" and matchstar :: "u8 \<Rightarrow> u8 list \<Rightarrow> u8 list \<Rightarrow> bool" where
  "matchhere re str =
     (case re of
        [] \<Rightarrow> True
      | c # re1 \<Rightarrow>
          if re1 \<noteq> [] \<and> hd re1 = star then matchstar c (tl re1) str
          else if c = dollar \<and> re1 = [] then str = []
          else case str of [] \<Rightarrow> False | x # str1 \<Rightarrow> (c = period \<or> c = x) \<and> matchhere re1 str1)"
| "matchstar c re str =
     (matchhere re str \<or> (case str of [] \<Rightarrow> False | x # str1 \<Rightarrow> (x = c \<or> c = period) \<and> matchstar c re str1))"
  by pat_completeness auto

termination
  by (relation "measure (case_sum (\<lambda>(re, str). 2 * length re + 2 * length str) (\<lambda>(c, re, str). 2 * length re + 2 * length str + 1))")
    (auto simp: neq_Nil_conv)

declare matchhere.simps [simp del] matchstar.simps [simp del]

primrec match_any :: "u8 list \<Rightarrow> u8 list \<Rightarrow> bool" where
  "match_any re [] = matchhere re []"
| "match_any re (x # str) = (matchhere re (x # str) \<or> match_any re str)"

definition match :: "u8 list \<Rightarrow> u8 list \<Rightarrow> bool" where
  "match re str = (if re \<noteq> [] \<and> hd re = caret then matchhere (tl re) str else match_any re str)"

text \<open>The inner loop of \<^verbatim>\<open>grep\<close>: the lines that are complete in the buffer, up to a zero byte. The result is
  what is written and what is moved to the start of the buffer.\<close>

function grep_lines :: "u8 list \<Rightarrow> u8 list \<Rightarrow> u8 list \<times> u8 list" where
  "grep_lines re b =
     (let line = takeWhile (\<lambda>c. c \<noteq> newline \<and> c \<noteq> 0) b; n = length line in
      if n < length b \<and> b ! n = newline
      then let (out, rest) = grep_lines re (drop (n + 1) b) in ((if match re line then line @ [newline] else []) @ out, rest)
      else ([], b))"
  by pat_completeness auto

termination
  by (relation "measure (length \<circ> snd)") auto

declare grep_lines.simps [simp del]

definition GREP_BUF :: nat where [simp]: "GREP_BUF = 1024"

text \<open>The outer loop. Each round \<^verbatim>\<open>read\<close> delivers a piece of the input \<open>inp\<close> whose length is bounded by the room in the
  buffer and by an element of \<open>ks\<close>; a piece of length zero is the end. \<open>None\<close> when the list is used up.\<close>

primrec grep_loop :: "nat list \<Rightarrow> u8 list \<Rightarrow> u8 list \<Rightarrow> u8 list \<Rightarrow> u8 list option" where
  "grep_loop [] re b inp = None"
| "grep_loop (k # ks) re b inp =
     (let piece = take (min k (GREP_BUF - length b - 1)) inp in
      if piece = [] then Some []
      else let (out, rest) = grep_lines re (b @ piece) in
        map_option ((@) out) (grep_loop ks re rest (drop (length piece) inp)))"

definition grep :: "u8 list \<Rightarrow> nat list \<Rightarrow> u8 list \<Rightarrow> u8 list option" where
  "grep re ks inp = grep_loop ks re [] inp"

section \<open>Meaning of a pattern\<close>

datatype atom = Chr u8 | Star u8 | Fin

fun parse_re :: "u8 list \<Rightarrow> atom list" where
  "parse_re [] = []"
| "parse_re [c] = (if c = dollar then [Fin] else [Chr c])"
| "parse_re (c # d # re) = (if d = star then Star c # parse_re re else Chr c # parse_re (d # re))"

definition fits :: "u8 \<Rightarrow> u8 \<Rightarrow> bool" where "fits c x \<longleftrightarrow> c = period \<or> c = x"

text \<open>\<open>sem ps u v\<close>: the pattern matches \<open>u\<close> when \<open>v\<close> is the text behind it.\<close>

primrec sem :: "atom list \<Rightarrow> u8 list \<Rightarrow> u8 list \<Rightarrow> bool" where
  "sem [] u v \<longleftrightarrow> u = []"
| "sem (p # ps) u v \<longleftrightarrow>
     (case p of
        Chr c \<Rightarrow> \<exists>x u'. u = x # u' \<and> fits c x \<and> sem ps u' v
      | Star c \<Rightarrow> \<exists>xs u'. u = xs @ u' \<and> (\<forall>x \<in> set xs. fits c x) \<and> sem ps u' v
      | Fin \<Rightarrow> u = [] \<and> v = [] \<and> sem ps u v)"

definition here :: "atom list \<Rightarrow> u8 list \<Rightarrow> bool" where
  "here ps str \<longleftrightarrow> (\<exists>u v. str = u @ v \<and> sem ps u v)"

lemma here_Nil [simp]: "here [] str"
  by (auto simp: here_def)

lemma here_Chr: "here (Chr c # ps) str \<longleftrightarrow> (\<exists>x t. str = x # t \<and> fits c x \<and> here ps t)"
  by (auto simp: here_def) (metis append_Cons)+

lemma here_Fin: "here (Fin # ps) str \<longleftrightarrow> str = [] \<and> here ps []"
  by (auto simp: here_def)

lemma sem_StarI: "\<forall>x \<in> set xs. fits c x \<Longrightarrow> sem ps u v \<Longrightarrow> sem (Star c # ps) (xs @ u) v"
  by auto

lemma here_Star: "here (Star c # ps) str \<longleftrightarrow> here ps str \<or> (\<exists>x t. str = x # t \<and> fits c x \<and> here (Star c # ps) t)"
proof
  assume "here (Star c # ps) str"
  then obtain xs u v where e: "str = xs @ u @ v" "\<forall>x \<in> set xs. fits c x" "sem ps u v" by (auto simp: here_def)
  show "here ps str \<or> (\<exists>x t. str = x # t \<and> fits c x \<and> here (Star c # ps) t)"
  proof (cases xs)
    case Nil
    then show ?thesis using e by (auto simp: here_def)
  next
    case (Cons x ys)
    then have "here (Star c # ps) (ys @ u @ v)" unfolding here_def using e sem_StarI [of ys c ps u v]
      by (intro exI [of _ "ys @ u"] exI [of _ v]) (simp del: sem.simps)
    then show ?thesis using e Cons by auto
  qed
next
  assume "here ps str \<or> (\<exists>x t. str = x # t \<and> fits c x \<and> here (Star c # ps) t)"
  then show "here (Star c # ps) str"
  proof
    assume "here ps str"
    then obtain u v where "str = u @ v" "sem ps u v" by (auto simp: here_def)
    then show ?thesis using sem_StarI [of "[]" c ps u v] by (auto simp: here_def simp del: sem.simps)
  next
    assume "\<exists>x t. str = x # t \<and> fits c x \<and> here (Star c # ps) t"
    then obtain x xs u v where "str = x # xs @ u @ v" "fits c x" "\<forall>x \<in> set xs. fits c x" "sem ps u v" by (auto simp: here_def)
    then show ?thesis unfolding here_def using sem_StarI [of "x # xs" c ps u v]
      by (intro exI [of _ "(x # xs) @ u"] exI [of _ v]) (simp del: sem.simps)
  qed
qed

lemma matchhere_here:
  "matchhere re str = here (parse_re re) str" "matchstar c re str = here (Star c # parse_re re) str"
proof (induction re str and c re str rule: matchhere_matchstar.induct)
  case (1 re str)
  show ?case
  proof (cases re)
    case (Cons c re1)
    show ?thesis
    proof (cases "re1 \<noteq> [] \<and> hd re1 = star")
      case True
      then obtain re2 where r: "re1 = star # re2" by (cases re1) auto
      have "matchhere re str = matchstar c re2 str" by (subst matchhere.simps) (simp add: Cons r)
      also have "\<dots> = here (Star c # parse_re re2) str" using 1(1) [OF Cons True] r by simp
      finally show ?thesis by (simp add: Cons r)
    next
      case False
      show ?thesis
      proof (cases "c = dollar \<and> re1 = []")
        case True
        then show ?thesis by (subst matchhere.simps) (simp add: Cons here_Fin)
      next
        case nf: False
        have p: "parse_re re = Chr c # parse_re re1" using False nf Cons by (cases re1) auto
        show ?thesis
        proof (cases str)
          case Nil
          then show ?thesis using False nf by (subst matchhere.simps) (auto simp: Cons p [unfolded Cons] here_Chr)
        next
          case (Cons x t)
          then show ?thesis using False nf 1(2) [OF \<open>re = c # re1\<close> False nf Cons]
            by (subst matchhere.simps) (auto simp: \<open>re = c # re1\<close> p [unfolded \<open>re = c # re1\<close>] here_Chr fits_def)
        qed
      qed
    qed
  qed (subst matchhere.simps, simp)
next
  case (2 c re str)
  show ?case using 2 by (subst matchstar.simps, subst here_Star) (auto simp: fits_def split: list.splits)
qed

lemma match_any_iff: "match_any re str \<longleftrightarrow> (\<exists>a t. str = a @ t \<and> matchhere re t)"
proof (induction str)
  case (Cons x str)
  then show ?case by (auto simp: Cons_eq_append_conv)
qed simp

text \<open>(C36) The matcher decides the meaning of the pattern: \<^verbatim>\<open>match\<close> returns true exactly when some part of the text, which has
  to start the text if the pattern begins with a caret, is matched by the items of the pattern, where a period fits any byte, a star repeats the item before
  it any number of times, a dollar sign at the end asks for the end of the text, and any other byte stands for itself.\<close>

theorem match_decides_pattern:
  "match re str \<longleftrightarrow> (\<exists>a u v. str = a @ u @ v \<and>
     (if re \<noteq> [] \<and> hd re = caret then a = [] \<and> sem (parse_re (tl re)) u v else sem (parse_re re) u v))"
  by (auto simp: match_def match_any_iff matchhere_here(1) here_def)

section \<open>Lines\<close>

primrec split_nl :: "u8 list \<Rightarrow> u8 list list" where
  "split_nl [] = [[]]"
| "split_nl (c # cs) = (if c = newline then [] # split_nl cs else (c # hd (split_nl cs)) # tl (split_nl cs))"

definition grep_out :: "u8 list \<Rightarrow> u8 list \<Rightarrow> u8 list" where
  "grep_out re inp = concat (map (\<lambda>line. line @ [newline]) (filter (match re) (butlast (split_nl inp))))"

lemma split_nl_not_Nil [simp]: "split_nl b \<noteq> []"
  by (cases b) auto

lemma split_nl_first:
  "split_nl b = takeWhile (\<lambda>c. c \<noteq> newline) b # (case dropWhile (\<lambda>c. c \<noteq> newline) b of [] \<Rightarrow> [] | _ # r \<Rightarrow> split_nl r)"
  by (induction b) auto

lemma split_nl_append: "split_nl (a @ b) = butlast (split_nl a) @ split_nl (last (split_nl a) @ b)"
proof (induction a)
  case (Cons c a)
  obtain l ls where l: "split_nl a = l # ls" by (cases "split_nl a") auto
  show ?case
  proof (cases "c = newline")
    case False
    have "split_nl (a @ b) = butlast (l # ls) @ split_nl (last (l # ls) @ b)" using Cons.IH l by simp
    then show ?thesis using False l by (cases ls) auto
  qed (use Cons.IH in simp)
qed simp

lemma split_nl_no_newline: "line \<in> set (split_nl b) \<Longrightarrow> newline \<notin> set line"
proof (induction b arbitrary: line)
  case (Cons c b)
  then show ?case by (cases "split_nl b") (auto split: if_splits)
qed simp

lemma split_nl_single: "newline \<notin> set b \<Longrightarrow> split_nl b = [b]"
  by (induction b) auto

lemma last_split_nl_no_zero: "0 \<notin> set b \<Longrightarrow> 0 \<notin> set (last (split_nl b))"
proof (induction b)
  case (Cons c b)
  then show ?case by (cases "split_nl b") (auto split: if_splits)
qed simp

lemma grep_lines_spec: "0 \<notin> set b \<Longrightarrow> grep_lines re b = (grep_out re b, last (split_nl b))"
proof (induction re b rule: grep_lines.induct)
  case (1 re b)
  let ?line = "takeWhile (\<lambda>c. c \<noteq> newline \<and> c \<noteq> 0) b"
  have line: "?line = takeWhile (\<lambda>c. c \<noteq> newline) b" using 1(2) by (intro takeWhile_cong) auto
  have dr: "drop (length ?line) b = dropWhile (\<lambda>c. c \<noteq> newline) b" unfolding line by (simp add: dropWhile_eq_drop)
  show ?case
  proof (cases "dropWhile (\<lambda>c. c \<noteq> newline) b")
    case Nil
    then have "drop (length ?line) b = []" using dr by metis
    then have "\<not> length ?line < length b" by simp
    moreover have "newline \<notin> set b" using Nil by auto
    ultimately show ?thesis by (subst grep_lines.simps) (simp add: grep_out_def split_nl_single)
  next
    case (Cons c r)
    then have c: "c = newline" using hd_dropWhile [of "\<lambda>c. c \<noteq> newline" b] by simp
    have "drop (length ?line) b \<noteq> []" unfolding dr Cons by simp
    then have lt: "length ?line < length b" by simp
    then have nth: "b ! length ?line = newline" using hd_drop_conv_nth [OF lt] unfolding dr Cons c by simp
    have "drop 1 (drop (length ?line) b) = r" unfolding dr Cons by simp
    then have r: "drop (length ?line + 1) b = r" by simp
    have "0 \<notin> set r" using 1(2) set_drop_subset [of "length ?line + 1" b] unfolding r by blast
    then have ih: "grep_lines re r = (grep_out re r, last (split_nl r))" using 1(1) [OF refl refl] lt nth r by simp
    have "split_nl b = ?line # split_nl r" using split_nl_first [of b] Cons c line by simp
    then show ?thesis using lt nth r ih by (subst grep_lines.simps) (simp add: Let_def grep_out_def)
  qed
qed

lemma grep_out_append: "grep_out re (a @ b) = grep_out re a @ grep_out re (last (split_nl a) @ b)"
  by (simp add: grep_out_def split_nl_append [of a b] butlast_append)

lemma grep_loop_spec:
  assumes "\<forall>k \<in> set ks. 0 < k" "length inp < length ks" "newline \<notin> set b" "0 \<notin> set (b @ inp)"
    "\<forall>line \<in> set (split_nl (b @ inp)). length line \<le> 1022"
  shows "grep_loop ks re b inp = Some (grep_out re (b @ inp))"
  using assms
proof (induction ks arbitrary: b inp)
  case (Cons k ks)
  show ?case
  proof (cases "inp = []")
    case True
    then show ?thesis using Cons.prems(3) by (simp add: grep_out_def split_nl_single)
  next
    case False
    let ?n = "min k (GREP_BUF - length b - 1)"
    let ?piece = "take ?n inp" and ?inp = "drop ?n inp"
    have "takeWhile (\<lambda>c. c \<noteq> newline) (b @ inp) = b @ takeWhile (\<lambda>c. c \<noteq> newline) inp"
      using Cons.prems(3) by (intro takeWhile_append2) auto
    moreover have "hd (split_nl (b @ inp)) = takeWhile (\<lambda>c. c \<noteq> newline) (b @ inp)" by (subst split_nl_first) simp
    ultimately have "length b \<le> length (hd (split_nl (b @ inp)))" by simp
    then have b: "length b \<le> 1022" using Cons.prems(5) by (meson hd_in_set le_trans split_nl_not_Nil)
    then have n: "0 < ?n" using Cons.prems(1) by simp
    have pd: "?piece @ ?inp = inp" by simp
    have z: "0 \<notin> set (b @ ?piece)" "0 \<notin> set ?inp" using Cons.prems(4) by (auto dest: in_set_takeD in_set_dropD)
    let ?rest = "last (split_nl (b @ ?piece))"
    have sp: "split_nl (b @ inp) = butlast (split_nl (b @ ?piece)) @ split_nl (?rest @ ?inp)"
      using split_nl_append [of "b @ ?piece" ?inp] pd by simp
    have "grep_loop ks re ?rest ?inp = Some (grep_out re (?rest @ ?inp))"
    proof (rule Cons.IH)
      have "0 < length inp" using False by simp
      then have "length inp - ?n < length inp" using n by (rule diff_less [rotated])
      then show "length ?inp < length ks" using Cons.prems(2) by simp
      show "newline \<notin> set ?rest" by (rule split_nl_no_newline [of _ "b @ ?piece"]) simp
      show "0 \<notin> set (?rest @ ?inp)" using last_split_nl_no_zero [OF z(1)] z(2) by simp
    qed (use Cons.prems sp in auto)
    moreover have "drop (length ?piece) inp = ?inp" by (simp add: min_def)
    moreover have "grep_out re (b @ inp) = grep_out re (b @ ?piece) @ grep_out re (?rest @ ?inp)"
      using grep_out_append [of re "b @ ?piece" ?inp] pd by simp
    moreover have "?piece \<noteq> []" using n False by simp
    ultimately show ?thesis using grep_lines_spec [OF z(1), of re] unfolding grep_loop.simps Let_def
      by (simp only: if_False prod.case option.map)
  qed
qed simp

text \<open>(C37) For an input without zero bytes whose lines have at most 1022 bytes, \<^verbatim>\<open>grep\<close> ends and writes exactly the complete
  lines that match, in their order, each with its newline, however \<^verbatim>\<open>read\<close> cuts the input into pieces.\<close>

theorem grep_writes_matching_lines:
  assumes "\<forall>k \<in> set ks. 0 < k" "length inp < length ks" "0 \<notin> set inp" "\<forall>line \<in> set (split_nl inp). length line \<le> 1022"
  shows "grep re ks inp = Some (concat (map (\<lambda>line. line @ [newline]) (filter (match re) (butlast (split_nl inp)))))"
  using grep_loop_spec [of ks inp "[]" re] assms by (simp add: grep_def grep_out_def)

theorem grep_writes_matching_lines_witness:
  "grep [0x61, star, 0x62] [2, 1, 5, 1, 1, 1, 1, 1, 1] [0x61, 0x62, newline, 0x63, newline, 0x62, newline, 0x61] = Some [0x61, 0x62, newline, 0x62, newline]"
  using grep_writes_matching_lines [of "[2, 1, 5, 1, 1, 1, 1, 1, 1]" "[0x61, 0x62, newline, 0x63, newline, 0x62, newline, 0x61]" "[0x61, star, 0x62]"]
  by (simp add: match_def matchhere.simps matchstar.simps)

end
