(* ===== verification/Printf.thy ===== *)
theory Printf
  imports Prelude
begin

text \<open>
  Formatted output: \<^verbatim>\<open>kernel/printf.c\<close>, \<^verbatim>\<open>user/printf.c\<close> and \<^verbatim>\<open>atoi\<close> and \<^verbatim>\<open>gets\<close> of \<^verbatim>\<open>user/ulib.c\<close>. The output is the list of
  the bytes given to \<^verbatim>\<open>consputc\<close> or \<^verbatim>\<open>putc\<close>; strings are byte lists without the final zero. Arguments are the values
  \<^verbatim>\<open>va_arg\<close> yields in turn: 64-bit registers or strings, a null pointer being no string. An argument of the wrong kind or a missing one is
  undefined in C and a panic here. Numbers of type \<^verbatim>\<open>int\<close> are 32-bit words.
\<close>

section \<open>Numbers\<close>

definition lower_digits :: "u8 list" where
  "lower_digits = [0x30, 0x31, 0x32, 0x33, 0x34, 0x35, 0x36, 0x37, 0x38, 0x39, 0x61, 0x62, 0x63, 0x64, 0x65, 0x66]"

definition upper_digits :: "u8 list" where
  "upper_digits = [0x30, 0x31, 0x32, 0x33, 0x34, 0x35, 0x36, 0x37, 0x38, 0x39, 0x41, 0x42, 0x43, 0x44, 0x45, 0x46]"

text \<open>The \<^verbatim>\<open>do\<close> loop of \<^verbatim>\<open>printint\<close>, which fills \<^verbatim>\<open>buf\<close> from the last digit on; the bases used are 10 and 16.\<close>

function digits_loop :: "u8 list \<Rightarrow> u32 \<Rightarrow> u32 \<Rightarrow> u8 list" where
  "digits_loop digits base x =
     digits ! unat (x mod base) # (if x div base = 0 \<or> base < 2 then [] else digits_loop digits base (x div base))"
  by pat_completeness auto

termination
proof (relation "measure (\<lambda>(digits, base, x). unat x)")
  fix digits :: "u8 list" and base x :: u32
  assume a: "\<not> (x div base = 0 \<or> base < 2)"
  then have "1 < unat base" by (simp add: word_less_nat_alt not_less word_le_nat_alt)
  moreover have "unat x \<noteq> 0" using a by (auto simp: unat_eq_0)
  ultimately have "unat x div unat base < unat x" by simp
  then show "((digits, base, x div base), digits, base, x) \<in> measure (\<lambda>(digits, base, x). unat x)"
    by (simp add: unat_div_distrib)
qed simp

declare digits_loop.simps [simp del]

definition int_digits :: "u8 list \<Rightarrow> u32 \<Rightarrow> u32 \<Rightarrow> bool \<Rightarrow> u8 list" where
  "int_digits digits xx base sign =
     (let neg = sign \<and> xx <s 0; x = (if neg then - xx else xx); buf = digits_loop digits base x @ (if neg then [0x2d] else [])
      in rev buf)"

definition printint :: "u32 \<Rightarrow> u32 \<Rightarrow> bool \<Rightarrow> u8 list" where
  "printint xx base sign = int_digits lower_digits xx base sign"

definition printint_user :: "u32 \<Rightarrow> u32 \<Rightarrow> bool \<Rightarrow> u8 list" where
  "printint_user xx base sign = int_digits upper_digits xx base sign"

primrec ptr_loop :: "nat \<Rightarrow> u8 list \<Rightarrow> u64 \<Rightarrow> u8 list" where
  "ptr_loop 0 digits x = []"
| "ptr_loop (Suc n) digits x = digits ! unat (drop_bit 60 x) # ptr_loop n digits (push_bit 4 x)"

definition printptr :: "u64 \<Rightarrow> u8 list" where
  "printptr x = [0x30, 0x78] @ ptr_loop 16 lower_digits x"

definition printptr_user :: "u64 \<Rightarrow> u8 list" where
  "printptr_user x = [0x30, 0x78] @ ptr_loop 16 upper_digits x"

section \<open>Formats\<close>

datatype varg = VInt u64 | VStr "u8 list option"

abbreviation percent :: u8 where "percent \<equiv> 0x25"

definition null_string :: "u8 list" where
  "null_string = [0x28, 0x6e, 0x75, 0x6c, 0x6c, 0x29]"

definition str_arg :: "u8 list option \<Rightarrow> u8 list" where
  "str_arg s = (case s of None \<Rightarrow> null_string | Some bs \<Rightarrow> bs)"

text \<open>The loop of the kernel's \<^verbatim>\<open>printf\<close> and \<^verbatim>\<open>serious_print\<close>.\<close>

fun printf_loop :: "u8 list \<Rightarrow> varg list \<Rightarrow> u8 list res" where
  "printf_loop [] args = Ret []"
| "printf_loop [c] args = Ret (if c = percent then [] else [c])"
| "printf_loop (c # d # fmt) args =
     (if c \<noteq> percent then bind_res (printf_loop (d # fmt) args) (\<lambda>out. Ret (c # out))
      else if d = 0x64 then (case args of VInt w # args1 \<Rightarrow>
          bind_res (printf_loop fmt args1) (\<lambda>out. Ret (printint (ucast w) 10 True @ out)) | _ \<Rightarrow> Panic ''va_arg'')
      else if d = 0x78 then (case args of VInt w # args1 \<Rightarrow>
          bind_res (printf_loop fmt args1) (\<lambda>out. Ret (printint (ucast w) 16 True @ out)) | _ \<Rightarrow> Panic ''va_arg'')
      else if d = 0x70 then (case args of VInt w # args1 \<Rightarrow>
          bind_res (printf_loop fmt args1) (\<lambda>out. Ret (printptr w @ out)) | _ \<Rightarrow> Panic ''va_arg'')
      else if d = 0x73 then (case args of VStr s # args1 \<Rightarrow>
          bind_res (printf_loop fmt args1) (\<lambda>out. Ret (str_arg s @ out)) | _ \<Rightarrow> Panic ''va_arg'')
      else if d = percent then bind_res (printf_loop fmt args) (\<lambda>out. Ret (percent # out))
      else bind_res (printf_loop fmt args) (\<lambda>out. Ret (percent # d # out)))"

definition kprintf :: "u8 list option \<Rightarrow> varg list \<Rightarrow> u8 list res" where
  "kprintf fmt args = (case fmt of None \<Rightarrow> Panic ''null fmt'' | Some f \<Rightarrow> printf_loop f args)"

text \<open>\<^verbatim>\<open>serious_print\<close> repeats the body of \<^verbatim>\<open>printf\<close> (without \<^verbatim>\<open>EXAM\<close>).\<close>

definition serious_print :: "u8 list option \<Rightarrow> varg list \<Rightarrow> u8 list res" where
  "serious_print fmt args = (case fmt of None \<Rightarrow> Panic ''null fmt'' | Some f \<Rightarrow> printf_loop f args)"

text \<open>The loop of the user library's \<^verbatim>\<open>vprintf\<close>; \<open>st\<close> says whether a percent sign has been read.\<close>

primrec vprintf_loop :: "u8 list \<Rightarrow> bool \<Rightarrow> varg list \<Rightarrow> u8 list res" where
  "vprintf_loop [] st args = Ret []"
| "vprintf_loop (c # fmt) st args =
     (if \<not> st then (if c = percent then vprintf_loop fmt True args
                      else bind_res (vprintf_loop fmt False args) (\<lambda>out. Ret (c # out)))
      else if c = 0x64 then (case args of VInt w # args1 \<Rightarrow>
          bind_res (vprintf_loop fmt False args1) (\<lambda>out. Ret (printint_user (ucast w) 10 True @ out)) | _ \<Rightarrow> Panic ''va_arg'')
      else if c = 0x6c then (case args of VInt w # args1 \<Rightarrow>
          bind_res (vprintf_loop fmt False args1) (\<lambda>out. Ret (printint_user (ucast w) 10 False @ out)) | _ \<Rightarrow> Panic ''va_arg'')
      else if c = 0x78 then (case args of VInt w # args1 \<Rightarrow>
          bind_res (vprintf_loop fmt False args1) (\<lambda>out. Ret (printint_user (ucast w) 16 False @ out)) | _ \<Rightarrow> Panic ''va_arg'')
      else if c = 0x70 then (case args of VInt w # args1 \<Rightarrow>
          bind_res (vprintf_loop fmt False args1) (\<lambda>out. Ret (printptr_user w @ out)) | _ \<Rightarrow> Panic ''va_arg'')
      else if c = 0x73 then (case args of VStr s # args1 \<Rightarrow>
          bind_res (vprintf_loop fmt False args1) (\<lambda>out. Ret (str_arg s @ out)) | _ \<Rightarrow> Panic ''va_arg'')
      else if c = 0x63 then (case args of VInt w # args1 \<Rightarrow>
          bind_res (vprintf_loop fmt False args1) (\<lambda>out. Ret (ucast w # out)) | _ \<Rightarrow> Panic ''va_arg'')
      else if c = percent then bind_res (vprintf_loop fmt False args) (\<lambda>out. Ret (percent # out))
      else bind_res (vprintf_loop fmt False args) (\<lambda>out. Ret (percent # c # out)))"

definition vprintf :: "u8 list \<Rightarrow> varg list \<Rightarrow> u8 list res" where
  "vprintf fmt args = vprintf_loop fmt False args"

section \<open>Reading numbers and lines\<close>

primrec atoi_loop :: "u8 list \<Rightarrow> u32 \<Rightarrow> u32" where
  "atoi_loop [] n = n"
| "atoi_loop (c # s) n = (if 0x30 \<le> c \<and> c \<le> 0x39 then atoi_loop s (n * 10 + ucast c - 0x30) else n)"

definition atoi :: "u8 list \<Rightarrow> u32" where
  "atoi s = (case s of [] \<Rightarrow> 0 | c # s1 \<Rightarrow> if c = 0x2d then - atoi_loop s1 0 else atoi_loop s 0)"

text \<open>\<^verbatim>\<open>gets\<close>: the bytes stored, for the bytes \<open>inp\<close> that successive calls of \<^verbatim>\<open>read\<close> deliver.\<close>

primrec gets_loop :: "nat \<Rightarrow> u8 list \<Rightarrow> u8 list" where
  "gets_loop 0 inp = []"
| "gets_loop (Suc m) inp =
     (case inp of [] \<Rightarrow> [] | c # inp1 \<Rightarrow> c # (if c = 0x0a \<or> c = 0x0d then [] else gets_loop m inp1))"

definition gets :: "nat \<Rightarrow> u8 list \<Rightarrow> u8 list" where
  "gets max_len inp = gets_loop (max_len - 1) inp"

section \<open>Printed numbers\<close>

lemma decimal_digit:
  assumes "(d :: nat) < 10"
  shows "0x30 \<le> upper_digits ! d" "upper_digits ! d \<le> 0x39" "ucast (upper_digits ! d) - 0x30 = (of_nat d :: u32)"
proof -
  have "d \<in> set [0..<10]" using assms by simp
  moreover have "\<forall>d \<in> set [0..<10]. 0x30 \<le> upper_digits ! d \<and> upper_digits ! d \<le> 0x39 \<and> ucast (upper_digits ! d) - 0x30 = (of_nat d :: u32)"
    by code_simp
  ultimately show "0x30 \<le> upper_digits ! d" "upper_digits ! d \<le> 0x39" "ucast (upper_digits ! d) - 0x30 = (of_nat d :: u32)" by blast+
qed

lemma atoi_loop_append:
  "\<forall>c \<in> set xs. 0x30 \<le> c \<and> c \<le> 0x39 \<Longrightarrow> atoi_loop (xs @ ys) n = atoi_loop ys (atoi_loop xs n)"
  by (induction xs arbitrary: n) auto

lemma digits_decimal: "\<forall>c \<in> set (digits_loop upper_digits 10 x). 0x30 \<le> c \<and> c \<le> 0x39"
proof (induction x rule: measure_induct_rule [where f = unat])
  case (less x)
  have m: "unat (x mod 10) < 10" by (simp add: unat_mod_distrib)
  have "\<forall>c \<in> set (digits_loop upper_digits 10 (x div 10)). 0x30 \<le> c \<and> c \<le> 0x39" if "x div 10 \<noteq> 0"
  proof (rule less.IH)
    have "unat x \<noteq> 0" using that by (auto simp: unat_eq_0)
    then show "unat (x div 10) < unat x" by (simp add: unat_div_distrib)
  qed
  then show ?case using decimal_digit [OF m] by (subst digits_loop.simps) auto
qed

lemma atoi_digits: "atoi_loop (rev (digits_loop upper_digits 10 x)) 0 = x"
proof (induction x rule: measure_induct_rule [where f = unat])
  case (less x)
  have m: "unat (x mod 10) < 10" by (simp add: unat_mod_distrib)
  note dd = decimal_digit [OF m]
  have step: "atoi_loop [upper_digits ! unat (x mod 10)] n = n * 10 + x mod 10" for n using dd by (simp add: add_diff_eq [symmetric])
  show ?case
  proof (cases "x div 10 = 0")
    case True
    then have "x mod 10 = x" using div_mult_mod_eq [of x 10] by simp
    then show ?thesis using True step [of 0] by (subst digits_loop.simps) simp
  next
    case False
    have "unat x \<noteq> 0" using False by (auto simp: unat_eq_0)
    then have "unat (x div 10) < unat x" by (simp add: unat_div_distrib)
    then have ih: "atoi_loop (rev (digits_loop upper_digits 10 (x div 10))) 0 = x div 10" by (rule less.IH)
    have "atoi_loop (rev (digits_loop upper_digits 10 x)) 0 = atoi_loop [upper_digits ! unat (x mod 10)] (x div 10)"
      using False digits_decimal [of "x div 10"] by (subst digits_loop.simps) (simp add: atoi_loop_append ih del: atoi_loop.simps)
    also have "\<dots> = x" unfolding step by (rule div_mult_mod_eq)
    finally show ?thesis .
  qed
qed

lemma digits_length: "10 \<le> base \<Longrightarrow> unat x < 10 ^ k \<Longrightarrow> 0 < k \<Longrightarrow> length (digits_loop digits base x) \<le> k"
proof (induction k arbitrary: x)
  case (Suc k)
  have b: "10 \<le> unat base" using Suc.prems(1) by (simp add: word_le_nat_alt)
  have "unat (x div base) \<le> unat x div 10" using b by (simp add: unat_div_distrib div_le_mono2)
  moreover have "unat x div 10 < 10 ^ k" using Suc.prems(2) by (intro less_mult_imp_div_less) (simp add: mult.commute)
  ultimately have lt: "unat (x div base) < 10 ^ k" by linarith
  show ?case
  proof (cases "k = 0")
    case True
    then show ?thesis using lt by (subst digits_loop.simps) (simp add: unat_eq_0)
  next
    case False
    then show ?thesis using Suc.IH [OF Suc.prems(1) lt] by (subst digits_loop.simps) simp
  qed
qed simp

lemma digits_not_Nil: "digits_loop digits base x \<noteq> []"
  by (subst digits_loop.simps) simp

text \<open>(C38) Numbers survive printing: \<^verbatim>\<open>atoi\<close> of the bytes that the user library prints for an \<^verbatim>\<open>int\<close> with \<^verbatim>\<open>%d\<close> is that number, for every
  number whose negation is an \<^verbatim>\<open>int\<close>.\<close>

theorem atoi_printint:
  assumes "xx \<noteq> 0x80000000"
  shows "vprintf [percent, 0x64] [VInt (ucast xx)] = Ret (printint_user xx 10 True) \<and> atoi (printint_user xx 10 True) = xx"
proof -
  have "atoi (printint_user xx 10 True) = xx"
  proof (cases "xx <s 0")
    case True
    then have "printint_user xx 10 True = 0x2d # rev (digits_loop upper_digits 10 (- xx))" by (simp add: printint_user_def int_digits_def)
    then show ?thesis using atoi_digits [of "- xx"] by (simp add: atoi_def)
  next
    case False
    let ?ds = "rev (digits_loop upper_digits 10 xx)"
    obtain c cs where c: "?ds = c # cs" using digits_not_Nil [of upper_digits 10 xx] by (cases ?ds) auto
    have "c \<in> set (digits_loop upper_digits 10 xx)" using c by (metis list.set_intros(1) set_rev)
    then have "0x30 \<le> c" using digits_decimal [of xx] by blast
    then have "c \<noteq> 0x2d" by auto
    moreover have "printint_user xx 10 True = ?ds" using False by (simp add: printint_user_def int_digits_def)
    ultimately show ?thesis using atoi_digits [of xx] c by (simp add: atoi_def)
  qed
  moreover have "ucast (ucast xx :: u64) = xx" by (rule bit_word_eqI) (simp add: bit_simps)
  ultimately show ?thesis by (simp add: vprintf_def)
qed

theorem atoi_printint_witness:
  "atoi (printint_user (- 205) 10 True) = - 205 \<and> printint_user (- 205) 10 True = [0x2d, 0x32, 0x30, 0x35]"
  using atoi_printint [of "- 205"] by (simp add: printint_user_def int_digits_def digits_loop.simps upper_digits_def word_sless_alt)

text \<open>(C39) The 16-byte buffer of both versions of \<^verbatim>\<open>printint\<close> suffices: for any number and any base from 10 on, the digits and
  the sign are between 1 and 11 bytes.\<close>

theorem printint_fits_buffer:
  assumes "10 \<le> base"
  shows "printint xx base sign \<noteq> [] \<and> length (printint xx base sign) \<le> 11 \<and> length (printint_user xx base sign) \<le> 11"
proof -
  have "length (digits_loop ds base x) \<le> 10" for ds x
    by (rule digits_length [OF assms]) (use unat_u32_less [of x] in simp_all)
  then have "length (digits_loop ds base x) \<le> 10" "length (digits_loop ds base x) \<le> 11" for ds x
    using order_trans [of "length (digits_loop ds base x)" 10 11] by simp_all
  then show ?thesis using digits_not_Nil by (auto simp: printint_def printint_user_def int_digits_def Let_def)
qed

theorem printint_fits_buffer_witness: "length (printint 0xffffffff 16 False) \<le> 11"
  using printint_fits_buffer [of 16 "0xffffffff" False] by simp

end
