(* ===== verification/Clist.thy ===== *)
theory Clist
  imports Prelude
begin

text \<open>
  Circular doubly linked lists with a head, given by their successor and predecessor functions: what inserting and
  removing a node does to the sequence of nodes.
\<close>

primrec dseg :: "('a \<Rightarrow> 'a) \<Rightarrow> ('a \<Rightarrow> 'a) \<Rightarrow> 'a \<Rightarrow> 'a list \<Rightarrow> 'a \<Rightarrow> bool" where
  "dseg nx pv a [] z \<longleftrightarrow> nx a = z \<and> pv z = a"
| "dseg nx pv a (x # xs) z \<longleftrightarrow> nx a = x \<and> pv x = a \<and> dseg nx pv x xs z"

definition clist :: "('a \<Rightarrow> 'a) \<Rightarrow> ('a \<Rightarrow> 'a) \<Rightarrow> 'a \<Rightarrow> 'a list \<Rightarrow> bool" where
  "clist nx pv h xs \<longleftrightarrow> distinct (h # xs) \<and> dseg nx pv h xs h"

lemma dseg_append: "dseg nx pv a (xs @ x # ys) z \<longleftrightarrow> dseg nx pv a xs x \<and> dseg nx pv x ys z"
  by (induction xs arbitrary: a) auto

lemma dseg_cong:
  "(\<And>x. x = a \<or> x \<in> set xs \<Longrightarrow> nx x = nx' x) \<Longrightarrow> (\<And>x. x = z \<or> x \<in> set xs \<Longrightarrow> pv x = pv' x) \<Longrightarrow>
   dseg nx pv a xs z = dseg nx' pv' a xs z"
  by (induction xs arbitrary: a) auto

lemma dseg_first: "dseg nx pv a xs z \<Longrightarrow> nx a = hd (xs @ [z])"
  by (cases xs) auto

lemma dseg_last: "dseg nx pv a xs z \<Longrightarrow> pv z = last (a # xs)"
  by (induction xs arbitrary: a) auto

text \<open>The links of a segment other than its last one do not depend on where it ends.\<close>

lemma dseg_retarget:
  assumes "dseg nx pv a xs w" "distinct (a # xs)" "z \<notin> set xs"
  shows "dseg (nx(last (a # xs) := z)) (pv(z := last (a # xs))) a xs z"
  using assms
proof (induction xs arbitrary: a)
  case (Cons x xs)
  have ne: "last (x # xs) \<noteq> a" using Cons.prems(2) last_in_set [of "x # xs"] by (metis distinct.simps(2) list.distinct(1))
  show ?case using Cons.IH [of x] Cons.prems ne by auto
qed simp

lemma dseg_upd_other:
  "a' \<notin> set (a # xs) \<Longrightarrow> z' \<notin> set (xs @ [z]) \<Longrightarrow> dseg (nx(a' := y)) (pv(z' := w)) a xs z = dseg nx pv a xs z"
  by (rule dseg_cong) auto

lemma clist_split: "clist nx pv h (xs @ y # ys) \<longleftrightarrow> distinct (h # xs @ y # ys) \<and> dseg nx pv h xs y \<and> dseg nx pv y ys h"
  by (simp add: clist_def dseg_append)

lemma clist_step: "clist nx pv h (xs @ ys) \<Longrightarrow> nx (last (h # xs)) = hd (ys @ [h])"
proof (cases xs rule: rev_cases)
  case Nil
  assume "clist nx pv h (xs @ ys)"
  then show ?thesis using Nil dseg_first [of nx pv h ys h] by (simp add: clist_def)
next
  case (snoc zs z)
  assume "clist nx pv h (xs @ ys)"
  then have "dseg nx pv z ys h" using snoc by (simp add: clist_split)
  then show ?thesis using snoc dseg_first by fastforce
qed

lemma clist_back: "clist nx pv h (xs @ ys) \<Longrightarrow> pv (hd (ys @ [h])) = last (h # xs)"
proof (cases ys)
  case Nil
  assume "clist nx pv h (xs @ ys)"
  then show ?thesis using Nil dseg_last [of nx pv h xs h] by (simp add: clist_def)
next
  case (Cons y zs)
  assume "clist nx pv h (xs @ ys)"
  then have "dseg nx pv h xs y" using Cons by (simp add: clist_split)
  then show ?thesis using Cons dseg_last by fastforce
qed

lemma clist_insert:
  assumes c: "clist nx pv h (xs @ ys)" and v: "v \<notin> set (h # xs @ ys)"
  defines "p \<equiv> last (h # xs)" and "b \<equiv> hd (ys @ [h])"
  shows "clist (nx(v := b, p := v)) (pv(v := p, b := v)) h (xs @ v # ys)"
proof -
  let ?nx = "nx(v := b, p := v)" and ?pv = "pv(v := p, b := v)"
  have d: "distinct (h # xs @ ys)" and s: "dseg nx pv h (xs @ ys) h" using c by (auto simp: clist_def)
  have left: "dseg nx pv h xs b"
  proof (cases ys)
    case (Cons y zs)
    then show ?thesis using s by (simp add: b_def dseg_append)
  qed (use s in \<open>simp add: b_def\<close>)
  have p: "p \<in> set (h # xs)" unfolding p_def by (rule last_in_set) simp
  have bx: "b \<notin> set xs" using d by (cases ys) (auto simp: b_def)
  have vb: "v \<noteq> b" "v \<noteq> p" using v p by (cases ys; auto simp: b_def)+
  have l: "dseg ?nx ?pv h xs v"
  proof -
    have "dseg (nx(p := v)) (pv(v := p)) h xs v" unfolding p_def
      by (rule dseg_retarget [OF left]) (use d v in auto)
    then have "dseg (nx(v := b, p := v)) (pv(v := p)) h xs v"
      using v vb by (subst dseg_cong [where nx' = "nx(p := v)" and pv' = "pv(v := p)"]) auto
    then show ?thesis using bx vb by (subst dseg_cong [where nx' = "nx(v := b, p := v)" and pv' = "pv(v := p)"]) auto
  qed
  have r: "dseg ?nx ?pv v ys h"
  proof (cases ys)
    case Nil
    then show ?thesis using vb by (simp add: b_def)
  next
    case (Cons y zs)
    then have y: "b = y" by (simp add: b_def)
    have "dseg nx pv y zs h" using s Cons by (simp add: dseg_append)
    then have "dseg ?nx ?pv y zs h"
      using d v Cons p y by (subst dseg_cong [where nx' = nx and pv' = pv]) auto
    then show ?thesis using Cons y vb by simp
  qed
  show ?thesis using l r d v by (auto simp: clist_def dseg_append)
qed

lemma clist_remove:
  assumes c: "clist nx pv h (xs @ v # ys)"
  shows "clist (nx(pv v := nx v)) (pv(nx v := pv v)) h (xs @ ys)"
proof -
  have d: "distinct (h # xs @ v # ys)" and l: "dseg nx pv h xs v" and r: "dseg nx pv v ys h"
    using c by (auto simp: clist_split)
  have pv: "pv v = last (h # xs)" and nv: "nx v = hd (ys @ [h])" using dseg_last [OF l] dseg_first [OF r] by auto
  let ?p = "last (h # xs)" and ?b = "hd (ys @ [h])"
  have bx: "?b \<notin> set xs" using d by (cases ys) auto
  have l': "dseg (nx(?p := ?b)) (pv(?b := ?p)) h xs ?b" by (rule dseg_retarget [OF l _ bx]) (use d in auto)
  have p: "?p \<in> set (h # xs)" by (rule last_in_set) simp
  show ?thesis
  proof (cases ys)
    case Nil
    then show ?thesis using l' d unfolding pv nv by (simp add: clist_def)
  next
    case (Cons y zs)
    then have "dseg nx pv y zs h" using r by simp
    then have "dseg (nx(?p := ?b)) (pv(?b := ?p)) y zs h"
      using d p Cons by (subst dseg_cong [where nx' = nx and pv' = pv]) auto
    then show ?thesis using l' d Cons unfolding pv nv by (simp add: clist_def dseg_append)
  qed
qed

end
