(* ===== verification/Vma.thy ===== *)
theory Vma
  imports Uvm Clist
begin

text \<open>
  \<^verbatim>\<open>kernel/vma.c\<close>: the areas of a process's address space, a circular list ordered by address whose nodes are pages of
  the allocator. A node is a record of the store \<open>vmas\<close>, indexed by the address of its page; the page itself is taken
  from and given back to the allocator of \<open>vkst\<close>. The process is given by its list head \<^verbatim>\<open>p->vma\<close> and its page
  table; what the code assigns to \<^verbatim>\<open>p->vma\<close> is part of the result. Loops over the list are bounded by the number
  of pages of RAM, more than the nodes a list can have, and are \<open>Stuck\<close> beyond.
\<close>

section \<open>State\<close>

datatype segtype = NONE | MMAP | STACK

record vma =
  vtype :: segtype
  vperm :: u32
  vaddr :: u64
  vsz :: u64
  vend :: u64
  vflags :: u32
  vfd :: u32
  vfoff :: u64
  vprev :: u64
  vnext :: u64

record vstate =
  vkst :: kstate
  vmas :: "u64 \<Rightarrow> vma"

definition zero_vma :: vma where
  "zero_vma = \<lparr>vtype = NONE, vperm = 0, vaddr = 0, vsz = 0, vend = 0, vflags = 0, vfd = 0, vfoff = 0, vprev = 0, vnext = 0\<rparr>"

abbreviation set_vma :: "u64 \<Rightarrow> (vma \<Rightarrow> vma) \<Rightarrow> vstate \<Rightarrow> vstate" where
  "set_vma v f s \<equiv> s\<lparr>vmas := (vmas s)(v := f (vmas s v))\<rparr>"

definition vma_bound :: nat where [simp]: "vma_bound = 0x10000"

definition INIT_STACK_SIZE :: u64 where [simp]: "INIT_STACK_SIZE = 100 * PGSIZE"
definition INCREASE_STACK_SIZE_PER_FAULT :: u64 where [simp]: "INCREASE_STACK_SIZE_PER_FAULT = 100 * PGSIZE"

section \<open>Allocation\<close>

text \<open>The search of \<^verbatim>\<open>alloc_vma\<close>: insert before a node, an area that covers the range, or an overlap.\<close>

datatype place = Before u64 | Covered u64 | Overlap

primrec alloc_vma_find :: "nat \<Rightarrow> u64 \<Rightarrow> u64 \<Rightarrow> u64 \<Rightarrow> u64 \<Rightarrow> (u64 \<Rightarrow> vma) \<Rightarrow> place res" where
  "alloc_vma_find 0 head v start stop m = Stuck"
| "alloc_vma_find (Suc k) head v start stop m =
     (if v = head then Ret (Before v)
      else if stop \<le> vaddr (m v) then Ret (Before v)
      else if start \<ge> vend (m v) then alloc_vma_find k head (vnext (m v)) start stop m
      else if start \<ge> vaddr (m v) \<and> stop \<le> vend (m v) then Ret (Covered v)
      else Ret Overlap)"

text \<open>Linking a node before another.\<close>

definition link_before :: "u64 \<Rightarrow> u64 \<Rightarrow> vstate \<Rightarrow> vstate" where
  "link_before v b s =
     (let s1 = set_vma v (\<lambda>x. x\<lparr>vprev := vprev (vmas s b), vnext := b\<rparr>) s;
          s2 = set_vma (vprev (vmas s1 b)) (\<lambda>x. x\<lparr>vnext := v\<rparr>) s1
      in set_vma b (\<lambda>x. x\<lparr>vprev := v\<rparr>) s2)"

definition alloc_vma ::
  "u64 \<Rightarrow> u64 \<Rightarrow> segtype \<Rightarrow> u64 \<Rightarrow> u64 \<Rightarrow> u32 \<Rightarrow> bool \<Rightarrow> u64 \<Rightarrow> vstate \<Rightarrow> (u64 \<times> vstate) res" where
  "alloc_vma head pt ty addr sz perm alloc pa s =
     (let start = PGROUNDDOWN addr; stop = PGROUNDUP (addr + sz) in
      bind_res (alloc_vma_find vma_bound head (vnext (vmas s head)) start stop (vmas s)) (\<lambda>pl.
        case pl of
          Covered v \<Rightarrow> Ret (v, s)
        | Overlap \<Rightarrow> Ret (0, s)
        | Before b \<Rightarrow>
          (case kalloc (vkst s) of (v, k1) \<Rightarrow>
            if v = 0 then Ret (0, s\<lparr>vkst := k1\<rparr>)
            else let k2 = k1\<lparr>mem := memset (mem k1) v 0 4096\<rparr>; s1 = s\<lparr>vkst := k2, vmas := (vmas s)(v := zero_vma)\<rparr> in
              bind_res (if sz = 0 then Ret (0, k2)
                        else if alloc then uvmalloc1 pt start stop perm k2
                        else if pa \<noteq> 0 then bind_res (mappages pt start sz pa perm k2) (\<lambda>(r, k). Ret (of_int r, k))
                        else Ret (0, k2)) (\<lambda>(r, k3).
                if r \<noteq> 0 then bind_res (kfree v k3) (\<lambda>k4. Ret (0, s1\<lparr>vkst := k4\<rparr>))
                else Ret (v, link_before v b (set_vma v
                       (\<lambda>x. x\<lparr>vaddr := start, vsz := sz, vperm := perm, vend := stop, vfd := -1, vfoff := 0, vtype := ty\<rparr>)
                       (s1\<lparr>vkst := k3\<rparr>)))))))"

primrec find_type :: "nat \<Rightarrow> segtype \<Rightarrow> u64 \<Rightarrow> u64 \<Rightarrow> (u64 \<Rightarrow> vma) \<Rightarrow> u64 res" where
  "find_type 0 ty head v m = Stuck"
| "find_type (Suc k) ty head v m =
     (if v = head then Ret head else if vtype (m v) = ty then Ret v else find_type k ty head (vnext (m v)) m)"

definition find_mmap_vma :: "u64 \<Rightarrow> (u64 \<Rightarrow> vma) \<Rightarrow> u64 res" where
  "find_mmap_vma head m =
     bind_res (find_type vma_bound MMAP head (vnext (m head)) m) (\<lambda>v. Ret (if v = head then 0 else v))"

definition alloc_mmap_vma :: "u64 \<Rightarrow> u64 \<Rightarrow> u64 \<Rightarrow> u64 \<Rightarrow> u32 \<Rightarrow> u32 \<Rightarrow> u64 \<Rightarrow> vstate \<Rightarrow> (u64 \<times> vstate) res" where
  "alloc_mmap_vma head pt addr sz perm fd f_off s =
     bind_res (find_mmap_vma head (vmas s)) (\<lambda>f.
       if addr = 0 \<and> f = 0 then Panic ''null pointer''
       else let addr1 = (if addr = 0 \<and> sz < vaddr (vmas s f) then PGROUNDDOWN (vaddr (vmas s f) - sz) else addr) in
         bind_res (alloc_vma head pt MMAP addr1 sz perm True 0 s) (\<lambda>(v, s1).
           if v = 0 then Ret (0, s1) else Ret (v, set_vma v (\<lambda>x. x\<lparr>vfd := fd, vfoff := f_off\<rparr>) s1)))"

text \<open>\<^verbatim>\<open>vma_init\<close>; the head is the result.\<close>

definition vma_init :: "u64 \<Rightarrow> vstate \<Rightarrow> (u64 \<times> vstate) res" where
  "vma_init pt s =
     (case kalloc (vkst s) of (v, k1) \<Rightarrow>
        if v = 0 then Ret (0, s\<lparr>vkst := k1\<rparr>)
        else let s1 = s\<lparr>vkst := k1\<lparr>mem := memset (mem k1) v 0 4096\<rparr>, vmas := (vmas s)(v := zero_vma\<lparr>vprev := v, vnext := v\<rparr>)\<rparr> in
          bind_res (alloc_mmap_vma v pt USER_MMAP_START 0 0 0 0 s1) (\<lambda>(r, s2).
            if r = 0 then bind_res (kfree v (vkst s2)) (\<lambda>k. Ret (0, s2\<lparr>vkst := k\<rparr>)) else Ret (v, s2)))"

section \<open>Copies\<close>

primrec vma_copy_loop :: "nat \<Rightarrow> u64 \<Rightarrow> u64 \<Rightarrow> u64 \<Rightarrow> vstate \<Rightarrow> (u64 \<times> vstate) res" where
  "vma_copy_loop 0 new_vma head pre_vma s = Stuck"
| "vma_copy_loop (Suc n) new_vma head pre_vma s =
     (if pre_vma = head then Ret (new_vma, s)
      else case kalloc (vkst s) of (v, k1) \<Rightarrow>
        if v = 0 then Ret (0, s\<lparr>vkst := k1\<rparr>)
        else let s1 = s\<lparr>vkst := k1, vmas := (vmas s)(v := vmas s pre_vma)\<rparr> in
          let s2 = link_before v new_vma s1 in vma_copy_loop n new_vma head (vnext (vmas s2 pre_vma)) s2)"

text \<open>The fields of the new head that the code leaves as they are in the page are those of the argument \<open>junk\<close>.\<close>

definition vma_copy :: "vma \<Rightarrow> u64 \<Rightarrow> vstate \<Rightarrow> (u64 \<times> vstate) res" where
  "vma_copy junk head s =
     (case kalloc (vkst s) of (v, k1) \<Rightarrow>
        if v = 0 then Ret (0, s\<lparr>vkst := k1\<rparr>)
        else let s1 = s\<lparr>vkst := k1, vmas := (vmas s)(v := junk\<lparr>vnext := v, vprev := v, vtype := NONE\<rparr>)\<rparr> in
          vma_copy_loop vma_bound v head (vnext (vmas s1 head)) s1)"

primrec vma_map_loop :: "nat \<Rightarrow> u64 \<Rightarrow> u64 \<Rightarrow> u64 \<Rightarrow> u64 \<Rightarrow> kstate \<Rightarrow> (int \<times> kstate) res" where
  "vma_map_loop 0 old new base start s = Ret (0, s)"
| "vma_map_loop (Suc k) old new base start s =
     bind_res (walk old start False s) (\<lambda>(pte, _).
       if pte = 0 then Panic ''uvmcopy: pte should exist''
       else let e = load64 (mem s) pte in
         if e AND PTE_V = 0 then Panic ''uvmcopy: page not present''
         else case kalloc s of (p, s1) \<Rightarrow>
           if p = 0 then bind_res (vmunmap new base ((start - base) div PGSIZE) True s1) (\<lambda>s2. Ret (-1, s2))
           else bind_res (mappages new start PGSIZE p (ucast (PTE_FLAGS e))
                           (s1\<lparr>mem := memmove (mem s1) p (PTE2PA e) 4096\<rparr>)) (\<lambda>(r, s2).
             if r \<noteq> 0 then bind_res (kfree p s2) (\<lambda>s3.
               bind_res (vmunmap new base ((start - base) div PGSIZE) True s3) (\<lambda>s4. Ret (-1, s4)))
             else vma_map_loop k old new base (start + PGSIZE) s2))"

definition vma_map :: "u64 \<Rightarrow> u64 \<Rightarrow> vma \<Rightarrow> kstate \<Rightarrow> (int \<times> kstate) res" where
  "vma_map old new x s =
     bind_res (vma_map_loop (pages_below (vaddr x) (vend x)) old new (vaddr x) (vaddr x) s) (\<lambda>(r, s1).
       if r \<noteq> 0 then Ret (r, s1) else bind_res (walkaddr new (vaddr x) s1) (\<lambda>_. Ret (0, s1)))"

section \<open>Release\<close>

definition free_vma :: "u64 \<Rightarrow> u64 \<Rightarrow> vstate \<Rightarrow> (int \<times> vstate) res" where
  "free_vma pt del s =
     (if del = 0 \<or> vprev (vmas s del) = 0 \<or> vnext (vmas s del) = 0 then Ret (0, s)
      else let p = vprev (vmas s del); n = vnext (vmas s del);
               s1 = set_vma n (\<lambda>x. x\<lparr>vprev := p\<rparr>) (set_vma p (\<lambda>x. x\<lparr>vnext := n\<rparr>) s);
               s2 = set_vma del (\<lambda>x. x\<lparr>vnext := 0, vprev := 0\<rparr>) s1 in
        bind_res (uvmdealloc1 pt (vaddr (vmas s2 del)) (vend (vmas s2 del)) (vkst s2)) (\<lambda>(r, k).
          if r \<noteq> 0 then Ret (0, s2\<lparr>vkst := k\<rparr>)
          else bind_res (kfree del k) (\<lambda>k1. Ret (1, s2\<lparr>vkst := k1\<rparr>))))"

primrec free_pages :: "nat \<Rightarrow> u64 \<Rightarrow> u64 \<Rightarrow> kstate \<Rightarrow> kstate res" where
  "free_pages 0 pt a s = Ret s"
| "free_pages (Suc n) pt a s =
     bind_res (walk pt a False s) (\<lambda>(pte, _).
       if pte = 0 then free_pages n pt (a + PGSIZE) s
       else let e = load64 (mem s) pte in
         if e AND PTE_V = 0 \<or> PTE_FLAGS e = PTE_V then free_pages n pt (a + PGSIZE) s
         else bind_res (kfree (PTE2PA e) s) (\<lambda>s1. free_pages n pt (a + PGSIZE) (s1\<lparr>mem := store64 (mem s1) pte 0\<rparr>)))"

primrec free_vma_loop :: "nat \<Rightarrow> u64 \<Rightarrow> u64 \<Rightarrow> u64 \<Rightarrow> vstate \<Rightarrow> vstate res" where
  "free_vma_loop 0 pt head v s = Stuck"
| "free_vma_loop (Suc n) pt head v s =
     (if v = head then bind_res (kfree v (vkst s)) (\<lambda>k. Ret (s\<lparr>vkst := k\<rparr>))
      else bind_res (free_pages (pages_below (vaddr (vmas s v)) (vend (vmas s v))) pt (vaddr (vmas s v)) (vkst s)) (\<lambda>k1.
        let w = vnext (vmas s v) in
        bind_res (kfree (vprev (vmas s w)) k1) (\<lambda>k2. free_vma_loop n pt head w (s\<lparr>vkst := k2\<rparr>))))"

definition free_vma_list :: "u64 \<Rightarrow> u64 \<Rightarrow> vstate \<Rightarrow> vstate res" where
  "free_vma_list pt head s =
     (if head = 0 then Ret s else free_vma_loop vma_bound pt head (vnext (vmas s head)) s)"

section \<open>The stack\<close>

definition stack_perm :: u32 where "stack_perm = ucast (PTE_P OR PTE_W OR PTE_PLV3 OR PTE_D)"

primrec last_vma :: "nat \<Rightarrow> u64 \<Rightarrow> u64 \<Rightarrow> (u64 \<Rightarrow> vma) \<Rightarrow> u64 res" where
  "last_vma 0 head v m = Stuck"
| "last_vma (Suc n) head v m =
     (if v \<noteq> head \<and> vnext (m v) \<noteq> head then last_vma n head (vnext (m v)) m else Ret v)"

definition alloc_vma_stack :: "u64 \<Rightarrow> u64 \<Rightarrow> vstate \<Rightarrow> (u64 \<times> vstate) res" where
  "alloc_vma_stack head pt s =
     (let stop = USER_STACK_TOP; start = stop - INIT_STACK_SIZE in
      bind_res (last_vma vma_bound head (vnext (vmas s head)) (vmas s)) (\<lambda>f.
        case kalloc (vkst s) of (v, k1) \<Rightarrow>
          if v = 0 then Ret (-1, s\<lparr>vkst := k1\<rparr>)
          else bind_res (uvmalloc1 pt start stop stack_perm k1) (\<lambda>(r, k2).
            if r \<noteq> 0 then bind_res (kfree v k2) (\<lambda>k3. Ret (-1, s\<lparr>vkst := k3\<rparr>))
            else let x = \<lparr>vtype = STACK, vperm = ucast (PTE_P OR PTE_W), vaddr = start, vsz = INIT_STACK_SIZE, vend = stop,
                          vflags = 0, vfd = -1, vfoff = -1, vprev = f, vnext = vnext (vmas s f)\<rparr>;
                     s1 = s\<lparr>vkst := k2, vmas := (vmas s)(v := x)\<rparr>;
                     s2 = set_vma (vnext (vmas s1 f)) (\<lambda>y. y\<lparr>vprev := v\<rparr>) s1
                 in Ret (0, set_vma f (\<lambda>y. y\<lparr>vnext := v\<rparr>) s2))))"

definition handle_stack_page_fault :: "u64 \<Rightarrow> u64 \<Rightarrow> u64 \<Rightarrow> vstate \<Rightarrow> (u64 \<times> vstate) res" where
  "handle_stack_page_fault head pt va s =
     (if \<not> (va \<ge> USER_STACK_DOWN \<and> va < USER_STACK_TOP) then Ret (-1, s)
      else bind_res (find_type vma_bound STACK head (vnext (vmas s head)) (vmas s)) (\<lambda>v.
        if vtype (vmas s v) \<noteq> STACK then Ret (-1, s)
        else let start0 = vaddr (vmas s v) - INCREASE_STACK_SIZE_PER_FAULT;
                 start = (if start0 > va then PGROUNDDOWN va else start0); stop = vaddr (vmas s v) in
          bind_res (uvmalloc1 pt start stop stack_perm (vkst s)) (\<lambda>(r, k).
            if r \<noteq> 0 then Ret (-1, s\<lparr>vkst := k\<rparr>)
            else Ret (0, set_vma v (\<lambda>x. x\<lparr>vaddr := start, vsz := vsz x + INCREASE_STACK_SIZE_PER_FAULT\<rparr>) (s\<lparr>vkst := k\<rparr>)))))"

definition get_proc_sp :: "u64 \<Rightarrow> vstate \<Rightarrow> u64 res" where
  "get_proc_sp head s =
     bind_res (find_type vma_bound STACK head (vnext (vmas s head)) (vmas s)) (\<lambda>v.
       Ret (if vtype (vmas s v) \<noteq> STACK then -1 else vend (vmas s v)))"

section \<open>The list of areas\<close>

definition vlist :: "vstate \<Rightarrow> u64 \<Rightarrow> u64 list \<Rightarrow> bool" where
  "vlist s head xs \<longleftrightarrow> clist (\<lambda>v. vnext (vmas s v)) (\<lambda>v. vprev (vmas s v)) head xs"

text \<open>The areas are ordered by address and do not overlap.\<close>

definition areas_ok :: "(u64 \<Rightarrow> vma) \<Rightarrow> u64 list \<Rightarrow> bool" where
  "areas_ok m xs \<longleftrightarrow> sorted_wrt (\<lambda>v w. vend (m v) \<le> vaddr (m w)) xs \<and> (\<forall>v \<in> set xs. vaddr (m v) \<le> vend (m v))"

definition same_area :: "vma \<Rightarrow> vma \<Rightarrow> bool" where
  "same_area x y \<longleftrightarrow> vtype x = vtype y \<and> vaddr x = vaddr y \<and> vend x = vend y \<and> vsz x = vsz y \<and> vperm x = vperm y"

lemma areas_ok_cong: "(\<And>v. v \<in> set xs \<Longrightarrow> same_area (m v) (m' v)) \<Longrightarrow> areas_ok m xs = areas_ok m' xs"
proof -
  assume a: "\<And>v. v \<in> set xs \<Longrightarrow> same_area (m v) (m' v)"
  have "sorted_wrt (\<lambda>v w. vend (m v) \<le> vaddr (m w)) xs = sorted_wrt (\<lambda>v w. vend (m' v) \<le> vaddr (m' w)) xs"
    using a by (intro sorted_wrt_mono_rel [THEN iffI] iffI) (auto simp: same_area_def elim!: sorted_wrt_mono_rel [rotated])
  then show ?thesis using a by (auto simp: areas_ok_def same_area_def)
qed

lemma areas_ok_insert:
  assumes "areas_ok m (ys @ zs)" "\<forall>u \<in> set ys. vend (m u) \<le> start" "zs \<noteq> [] \<longrightarrow> stop \<le> vaddr (m (hd zs))"
    "vaddr (m v) = start" "vend (m v) = stop" "start \<le> stop"
  shows "areas_ok m (ys @ v # zs)"
proof -
  have "stop \<le> vaddr (m w)" if "w \<in> set zs" for w
  proof (cases zs)
    case (Cons z zs')
    have "vend (m z) \<le> vaddr (m w)" "vaddr (m z) \<le> vend (m z)" if "w \<noteq> z"
      using assms(1) that \<open>w \<in> set zs\<close> Cons by (auto simp: areas_ok_def sorted_wrt_append)
    then show ?thesis using assms(3) Cons by (cases "w = z") auto
  qed (use that in simp)
  then show ?thesis using assms by (auto simp: areas_ok_def sorted_wrt_append)
qed

text \<open>What the search of \<^verbatim>\<open>alloc_vma\<close> finds.\<close>

lemma alloc_vma_find_spec:
  assumes "vlist s head (ys @ zs)" "length zs < k" "\<forall>u \<in> set ys. vend (vmas s u) \<le> start"
  shows "\<exists>pl. alloc_vma_find k head (hd (zs @ [head])) start stop (vmas s) = Ret pl
    \<and> (case pl of
        Before b \<Rightarrow> \<exists>us ws. ys @ zs = us @ ws \<and> b = hd (ws @ [head]) \<and> (\<forall>u \<in> set us. vend (vmas s u) \<le> start)
          \<and> (ws \<noteq> [] \<longrightarrow> stop \<le> vaddr (vmas s (hd ws)))
      | Covered v \<Rightarrow> v \<in> set zs \<and> vaddr (vmas s v) \<le> start \<and> stop \<le> vend (vmas s v)
      | Overlap \<Rightarrow> \<exists>v \<in> set zs. start < vend (vmas s v) \<and> vaddr (vmas s v) < stop)"
  using assms
proof (induction zs arbitrary: ys k)
  case Nil
  then obtain k' where "k = Suc k'" by (cases k) auto
  moreover have "\<exists>us ws. ys @ [] = us @ ws \<and> head = hd (ws @ [head]) \<and> (\<forall>u \<in> set us. vend (vmas s u) \<le> start)
      \<and> (ws \<noteq> [] \<longrightarrow> stop \<le> vaddr (vmas s (hd ws)))"
    by (rule exI [of _ ys], rule exI [of _ "[]"]) (use Nil.prems(3) in simp)
  ultimately show ?case by simp
next
  case (Cons v zs)
  then obtain k' where k: "k = Suc k'" by (cases k) auto
  have vh: "v \<noteq> head" using Cons.prems(1) by (auto simp: vlist_def clist_def)
  have nx: "vnext (vmas s v) = hd (zs @ [head])"
    using clist_step [of "\<lambda>v. vnext (vmas s v)" "\<lambda>v. vprev (vmas s v)" head "ys @ [v]" zs] Cons.prems(1) by (simp add: vlist_def)
  consider "stop \<le> vaddr (vmas s v)" | "\<not> stop \<le> vaddr (vmas s v)" "vend (vmas s v) \<le> start"
    | "\<not> stop \<le> vaddr (vmas s v)" "\<not> vend (vmas s v) \<le> start" by blast
  then show ?case
  proof cases
    case 1
    have "\<exists>us ws. ys @ v # zs = us @ ws \<and> v = hd (ws @ [head]) \<and> (\<forall>u \<in> set us. vend (vmas s u) \<le> start)
        \<and> (ws \<noteq> [] \<longrightarrow> stop \<le> vaddr (vmas s (hd ws)))"
      by (rule exI [of _ ys], rule exI [of _ "v # zs"]) (use Cons.prems(3) 1 in simp)
    then show ?thesis using vh k 1 by simp
  next
    case 2
    obtain pl where p1: "alloc_vma_find k' head (hd (zs @ [head])) start stop (vmas s) = Ret pl"
      and p2: "(case pl of
        Before b \<Rightarrow> \<exists>us ws. (ys @ [v]) @ zs = us @ ws \<and> b = hd (ws @ [head]) \<and> (\<forall>u \<in> set us. vend (vmas s u) \<le> start)
          \<and> (ws \<noteq> [] \<longrightarrow> stop \<le> vaddr (vmas s (hd ws)))
      | Covered v \<Rightarrow> v \<in> set zs \<and> vaddr (vmas s v) \<le> start \<and> stop \<le> vend (vmas s v)
      | Overlap \<Rightarrow> \<exists>v \<in> set zs. start < vend (vmas s v) \<and> vaddr (vmas s v) < stop)"
      using Cons.IH [of "ys @ [v]" k'] Cons.prems 2 k by auto
    have "alloc_vma_find k head (hd ((v # zs) @ [head])) start stop (vmas s)
        = alloc_vma_find k' head (hd (zs @ [head])) start stop (vmas s)" using vh k 2 nx by simp
    then have "alloc_vma_find k head (hd ((v # zs) @ [head])) start stop (vmas s) = Ret pl" using p1 by simp
    then show ?thesis using p2 by (intro exI [of _ pl]) (cases pl; auto)
  next
    case 3
    then show ?thesis using vh k by auto
  qed
qed

lemma link_before_links:
  assumes "vlist s head (ys @ zs)" "v \<notin> set (head # ys @ zs)" "b = hd (zs @ [head])"
  shows "vlist (link_before v b s) head (ys @ v # zs)" "\<And>x. same_area (vmas (link_before v b s) x) (vmas s x)"
    "vkst (link_before v b s) = vkst s"
proof -
  let ?nx = "\<lambda>v. vnext (vmas s v)" and ?pv = "\<lambda>v. vprev (vmas s v)"
  have c: "clist ?nx ?pv head (ys @ zs)" using assms(1) by (simp add: vlist_def)
  have p: "vprev (vmas s b) = last (head # ys)" using clist_back [OF c] assms(3) by simp
  have "b \<in> set (head # ys @ zs)" unfolding assms(3) by (cases zs) auto
  then have vb: "v \<noteq> b" using assms(2) by blast
  have "last (head # ys) \<in> set (head # ys)" by (rule last_in_set) simp
  then have vp: "v \<noteq> last (head # ys)" using assms(2) by auto
  have "(\<lambda>x. vnext (vmas (link_before v b s) x)) = ?nx(v := b, last (head # ys) := v)"
    "(\<lambda>x. vprev (vmas (link_before v b s) x)) = ?pv(v := last (head # ys), b := v)"
    using vb vp p by (auto simp: link_before_def Let_def fun_eq_iff)
  then show "vlist (link_before v b s) head (ys @ v # zs)"
    using clist_insert [OF c, of v] assms(2,3) by (simp add: vlist_def)
  show "\<And>x. same_area (vmas (link_before v b s) x) (vmas s x)" "vkst (link_before v b s) = vkst s"
    using vb vp p by (auto simp: link_before_def Let_def same_area_def)
qed

lemma uvmalloc1_spec:
  assumes inv: "pt_inv s pt" and base: "page_aligned start" "start < stop" "stop \<le> MAXVA" and perm: "perm < 4096"
    and un: "unmapped s pt start (pages_below start stop)"
  shows "\<exists>r s'. uvmalloc1 pt start stop perm s = Ret (r, s') \<and>
    (r = 0 \<and> filled s s' pt start (pages_below start stop) (\<lambda>_. perm) (\<lambda>_ _. 0)
     \<or> r = -1 \<and> restored s s' pt \<and> length (free_list s) < 4 * pages_below start stop)"
proof -
  have le: "unat stop \<le> 2 ^ 46" "unat start \<le> 2 ^ 46" using base(2,3) by (auto simp: word_le_nat_alt word_less_nat_alt)
  have b: "unat start + 4096 * (0 + pages_below start stop) \<le> 2 ^ 46" using pages_below_bound [OF base(1) le] by simp
  have "page_no start 0 = start" by (simp add: page_no_def)
  then show ?thesis using uvmalloc1_loop_spec [OF filled_0 [OF inv] base(1) b _, of perm] un perm base(2)
    by (auto simp: uvmalloc1_def perm_ok_def)
qed

definition nodes_ok :: "vstate \<Rightarrow> u64 \<Rightarrow> u64 list \<Rightarrow> bool" where
  "nodes_ok s head xs \<longleftrightarrow> (\<forall>v \<in> set (head # xs). ram_page (vkst s) v \<and> v \<notin> set (free_list (vkst s)))"

lemma range_bounds:
  assumes "unat addr + unat sz \<le> 2 ^ 46" "sz \<noteq> 0"
  shows "PGROUNDDOWN addr < PGROUNDUP (addr + sz)" "PGROUNDUP (addr + sz) \<le> MAXVA" "PGROUNDDOWN addr \<le> PGROUNDUP (addr + sz)"
proof -
  have "unat (addr + sz) = unat addr + unat sz" using assms(1) by (simp add: unat_word_ariths)
  moreover have "0 < unat sz" using assms(2) by (simp add: unat_gt_0)
  ultimately have a: "addr < addr + sz" "addr + sz \<le> MAXVA" "unat (addr + sz) + 4095 < 2 ^ 64"
    using assms(1) by (simp_all add: word_less_nat_alt word_le_nat_alt)
  note up = PGROUNDUP_props [OF a(3)]
  show "PGROUNDUP (addr + sz) \<le> MAXVA" using up(3) [of MAXVA] a(2) by (simp add: page_aligned_def)
  show lt: "PGROUNDDOWN addr < PGROUNDUP (addr + sz)" using PGROUNDDOWN_le [of addr] a(1) up(2) by (meson order_le_less_trans order_less_le_trans)
  then show "PGROUNDDOWN addr \<le> PGROUNDUP (addr + sz)" by simp
qed

lemma new_node_kept:
  assumes "vlist s head xs" "areas_ok (vmas s) xs" "v \<notin> set (head # xs)"
  shows "vlist (s\<lparr>vkst := k, vmas := (vmas s)(v := y)\<rparr>) head xs" "areas_ok ((vmas s)(v := y)) xs"
proof -
  show "vlist (s\<lparr>vkst := k, vmas := (vmas s)(v := y)\<rparr>) head xs"
    using assms(1,3) unfolding vlist_def clist_def by (auto elim!: dseg_cong [THEN iffD1, rotated -1])
  show "areas_ok ((vmas s)(v := y)) xs"
    using assms(2,3) by (subst areas_ok_cong [where m' = "vmas s"]) (auto simp: same_area_def)
qed

text \<open>Where \<open>alloc_vma\<close> puts a range: the search ends within its bound, since the nodes are distinct pages.\<close>

lemma alloc_vma_place:
  assumes l: "vlist s head xs" "nodes_ok s head xs" and inv: "pt_inv (vkst s) pt"
  obtains pl where "alloc_vma_find vma_bound head (vnext (vmas s head)) start stop (vmas s) = Ret pl"
    "case pl of
        Before b \<Rightarrow> \<exists>us ws. xs = us @ ws \<and> b = hd (ws @ [head]) \<and> (\<forall>u \<in> set us. vend (vmas s u) \<le> start)
          \<and> (ws \<noteq> [] \<longrightarrow> stop \<le> vaddr (vmas s (hd ws)))
      | Covered v \<Rightarrow> v \<in> set xs \<and> vaddr (vmas s v) \<le> start \<and> stop \<le> vend (vmas s v)
      | Overlap \<Rightarrow> \<exists>v \<in> set xs. start < vend (vmas s v) \<and> vaddr (vmas s v) < stop"
proof -
  have "length (head # xs) \<le> 32768"
    using ram_pages_bound [OF pt_invD(4) [OF inv], of "head # xs"] l by (auto simp: nodes_ok_def vlist_def clist_def)
  then have len: "length xs < vma_bound" by simp
  have nx: "vnext (vmas s head) = hd (xs @ [head])"
    using clist_step [of "\<lambda>v. vnext (vmas s v)" "\<lambda>v. vprev (vmas s v)" head "[]" xs] l(1) by (simp add: vlist_def)
  show thesis
    using that alloc_vma_find_spec [of s head "[]" xs vma_bound start stop, unfolded append_Nil] l(1) len
    unfolding nx by (auto simp del: vma_bound_def)
qed

text \<open>A node linked in where the search ended keeps the areas ordered and disjoint.\<close>

lemma insert_area:
  fixes k :: kstate
  assumes l: "vlist s head (us @ ws)" "areas_ok (vmas s) (us @ ws)" and v: "v \<notin> set (head # us @ ws)" and b: "b = hd (ws @ [head])"
    and o: "\<forall>u \<in> set us. vend (vmas s u) \<le> start" "ws \<noteq> [] \<longrightarrow> stop \<le> vaddr (vmas s (hd ws))"
    and y: "vaddr y = start" "vend y = stop" "start \<le> stop"
  defines "s1 \<equiv> s\<lparr>vkst := k, vmas := (vmas s)(v := y)\<rparr>"
  shows "vlist (link_before v b s1) head (us @ v # ws)" "areas_ok (vmas (link_before v b s1)) (us @ v # ws)"
    "\<forall>x \<in> set (us @ ws). same_area (vmas (link_before v b s1) x) (vmas s x)" "same_area (vmas (link_before v b s1) v) y"
    "vkst (link_before v b s1) = k"
proof -
  note n = new_node_kept [OF l v]
  note lb = link_before_links [of s1 head us ws v b, OF n(1) [of y k, folded s1_def] v b]
  show "vlist (link_before v b s1) head (us @ v # ws)" by (rule lb(1))
  have "areas_ok (vmas s1) (us @ v # ws)"
  proof (rule areas_ok_insert)
    show "areas_ok (vmas s1) (us @ ws)" using n(2) by (simp add: s1_def)
    show "\<forall>u \<in> set us. vend (vmas s1 u) \<le> start" "ws \<noteq> [] \<longrightarrow> stop \<le> vaddr (vmas s1 (hd ws))" using o v by (auto simp: s1_def)
  qed (use y in \<open>simp_all add: s1_def\<close>)
  then show "areas_ok (vmas (link_before v b s1)) (us @ v # ws)"
    using areas_ok_cong [of "us @ v # ws" "vmas (link_before v b s1)" "vmas s1"] lb(2) by simp
  show "\<forall>x \<in> set (us @ ws). same_area (vmas (link_before v b s1) x) (vmas s x)"
  proof
    fix x assume "x \<in> set (us @ ws)"
    then show "same_area (vmas (link_before v b s1) x) (vmas s x)" using lb(2) [of x] v by (auto simp: same_area_def s1_def)
  qed
  show "same_area (vmas (link_before v b s1) v) y" using lb(2) [of v] by (simp add: same_area_def s1_def)
  show "vkst (link_before v b s1) = k" using lb(3) by (simp add: s1_def)
qed

text \<open>Giving the node's page back after \<open>uvmalloc1\<close> has undone its work.\<close>

lemma restored_kfree:
  assumes R: "restored k2 k3 pt" and v: "v \<notin> set (free_list k2)" "v \<notin> table_pages k2 pt" "ram_page k2 v"
  obtains k4 where "kfree v k3 = Ret k4" "\<And>va. pte_of k4 pt va = pte_of k3 pt va"
proof -
  have "set (free_list k3) \<union> table_pages k3 pt = set (free_list k2) \<union> table_pages k2 pt" "kernel_end k3 = kernel_end k2"
    using R by (auto simp: restored_def)
  then have "v \<notin> set (free_list k3)" "v \<notin> table_pages k3 pt" "ram_page k3 v" using v by (auto simp: ram_page_def)
  then show thesis using that pt_inv_kfree [of k3 pt v] R unfolding restored_def by metis
qed

section \<open>Properties\<close>

text \<open>(C34) \<^verbatim>\<open>alloc_vma\<close> keeps the areas of a process ordered and disjoint. Asked for memory in a range whose pages are not mapped, it returns and
  either hands out the existing area that covers the range; or inserts a new area for exactly the pages of the range at its place in the
  order, with every page mapped to a fresh zero page; or returns 0 with the list and the page table as they were, which happens only when
  an area overlaps the range without covering it or memory is short.\<close>

theorem alloc_vma_ordered:
  assumes l: "vlist s head xs" "areas_ok (vmas s) xs" "nodes_ok s head xs" and inv: "pt_inv (vkst s) pt"
    and nt: "\<forall>v \<in> set (head # xs). v \<notin> table_pages (vkst s) pt"
    and r: "unat addr + unat sz \<le> 2 ^ 46" "sz \<noteq> 0" "perm < 4096"
    and un: "unmapped (vkst s) pt (PGROUNDDOWN addr) (pages_below (PGROUNDDOWN addr) (PGROUNDUP (addr + sz)))"
  shows "\<exists>v s'. alloc_vma head pt ty addr sz perm True pa s = Ret (v, s') \<and>
    (v \<in> set xs \<and> s' = s \<and> vaddr (vmas s v) \<le> PGROUNDDOWN addr \<and> PGROUNDUP (addr + sz) \<le> vend (vmas s v)
     \<or> (\<exists>ys zs k1. xs = ys @ zs \<and> v \<notin> set (head # xs) \<and> vlist s' head (ys @ v # zs) \<and> areas_ok (vmas s') (ys @ v # zs)
         \<and> (\<forall>x \<in> set xs. same_area (vmas s' x) (vmas s x)) \<and> vaddr (vmas s' v) = PGROUNDDOWN addr
         \<and> vend (vmas s' v) = PGROUNDUP (addr + sz) \<and> vtype (vmas s' v) = ty
         \<and> (\<forall>va < MAXVA. pte_of k1 pt va = pte_of (vkst s) pt va)
         \<and> filled k1 (vkst s') pt (PGROUNDDOWN addr) (pages_below (PGROUNDDOWN addr) (PGROUNDUP (addr + sz))) (\<lambda>_. perm) (\<lambda>_ _. 0))
     \<or> v = 0 \<and> vlist s' head xs \<and> areas_ok (vmas s') xs \<and> (\<forall>va < MAXVA. pte_of (vkst s') pt va = pte_of (vkst s) pt va)
       \<and> ((\<exists>x \<in> set xs. PGROUNDDOWN addr < vend (vmas s x) \<and> vaddr (vmas s x) < PGROUNDUP (addr + sz))
          \<or> length (free_list (vkst s)) \<le> 4 * pages_below (PGROUNDDOWN addr) (PGROUNDUP (addr + sz))))"
proof -
  let ?start = "PGROUNDDOWN addr" and ?stop = "PGROUNDUP (addr + sz)"
  let ?n = "pages_below ?start ?stop"
  note rb = range_bounds [OF r(1,2)]
  obtain pl where f: "alloc_vma_find vma_bound head (vnext (vmas s head)) ?start ?stop (vmas s) = Ret pl"
    and pl: "case pl of
        Before b \<Rightarrow> \<exists>us ws. xs = us @ ws \<and> b = hd (ws @ [head]) \<and> (\<forall>u \<in> set us. vend (vmas s u) \<le> ?start)
          \<and> (ws \<noteq> [] \<longrightarrow> ?stop \<le> vaddr (vmas s (hd ws)))
      | Covered v \<Rightarrow> v \<in> set xs \<and> vaddr (vmas s v) \<le> ?start \<and> ?stop \<le> vend (vmas s v)
      | Overlap \<Rightarrow> \<exists>v \<in> set xs. ?start < vend (vmas s v) \<and> vaddr (vmas s v) < ?stop"
    by (rule alloc_vma_place [OF l(1,3) inv])
  show ?thesis
  proof (cases pl)
    case (Covered v)
    then have "alloc_vma head pt ty addr sz perm True pa s = Ret (v, s)" using f by (simp add: alloc_vma_def Let_def del: vma_bound_def)
    then show ?thesis using pl Covered by auto
  next
    case Overlap
    then have "alloc_vma head pt ty addr sz perm True pa s = Ret (0, s)" using f by (simp add: alloc_vma_def Let_def del: vma_bound_def)
    then show ?thesis using pl Overlap l by auto
  next
    case (Before b)
    then obtain us ws where uw: "xs = us @ ws" "b = hd (ws @ [head])" "\<forall>u \<in> set us. vend (vmas s u) \<le> ?start"
      "ws \<noteq> [] \<longrightarrow> ?stop \<le> vaddr (vmas s (hd ws))" using pl by auto
    note f = f [unfolded Before]
    obtain v k1 where ka: "kalloc (vkst s) = (v, k1)" by (cases "kalloc (vkst s)")
    show ?thesis
    proof (cases "v = 0")
      case True
      then have "k1 = vkst s" "free_list (vkst s) = []" using kalloc_fail [OF inv] ka by auto
      moreover have "alloc_vma head pt ty addr sz perm True pa s = Ret (0, s\<lparr>vkst := k1\<rparr>)"
        using f ka True by (simp add: alloc_vma_def Let_def del: vma_bound_def)
      ultimately show ?thesis using l by auto
    next
      case False
      let ?k2 = "k1\<lparr>mem := memset (mem k1) v 0 4096\<rparr>" and ?x = "\<lambda>x. x\<lparr>vaddr := ?start, vsz := sz, vperm := perm, vend := ?stop, vfd := -1, vfoff := 0, vtype := ty\<rparr>"
      have al: "page_aligned v" using fresh_page(8) [OF inv ka False same_outside_refl] by (rule ram_page_aligned)
      note fp = fresh_page [OF inv ka False zeroed_page(1) [OF al]]
      have vx: "v \<notin> set (head # xs)" using l(3) fp(1) by (auto simp: nodes_ok_def)
      have "unmapped ?k2 pt ?start ?n" using un fp(3) by (simp add: unmapped_def)
      then obtain r k3 where u: "uvmalloc1 pt ?start ?stop perm ?k2 = Ret (r, k3)"
        "r = 0 \<and> filled ?k2 k3 pt ?start ?n (\<lambda>_. perm) (\<lambda>_ _. 0) \<or> r = -1 \<and> restored ?k2 k3 pt \<and> length (free_list ?k2) < 4 * ?n"
        using uvmalloc1_spec [OF fp(2) page_aligned_PGROUNDDOWN rb(1,2) r(3)] by blast
      from u(2) show ?thesis
      proof (elim disjE conjE)
        assume "r = 0" and F: "filled ?k2 k3 pt ?start ?n (\<lambda>_. perm) (\<lambda>_ _. 0)"
        let ?s' = "link_before v b (s\<lparr>vkst := k3, vmas := (vmas s)(v := ?x zero_vma)\<rparr>)"
        have e: "alloc_vma head pt ty addr sz perm True pa s = Ret (v, ?s')"
          using f ka False u(1) \<open>r = 0\<close> r(2) by (simp add: alloc_vma_def Let_def del: vma_bound_def)
        note ia = insert_area [OF l(1,2) [unfolded uw(1)] vx [unfolded uw(1)] uw(2,3,4) _ _ rb(3), of "?x zero_vma" k3, simplified]
        have sv: "vaddr (vmas ?s' v) = ?start" "vend (vmas ?s' v) = ?stop" "vtype (vmas ?s' v) = ty"
          using ia(4) by (simp_all add: same_area_def)
        have sx: "\<forall>x \<in> set xs. same_area (vmas ?s' x) (vmas s x)" using ia(3) uw(1) by simp
        have "filled ?k2 (vkst ?s') pt ?start ?n (\<lambda>_. perm) (\<lambda>_ _. 0)" using F ia(5) by simp
        then show ?thesis using e ia(1,2) uw(1) vx sx sv fp(3) by blast
      next
        assume "r = -1" and R: "restored ?k2 k3 pt" and short: "length (free_list ?k2) < 4 * ?n"
        obtain k4 where k4: "kfree v k3 = Ret k4" "\<And>va. pte_of k4 pt va = pte_of k3 pt va"
          by (rule restored_kfree [OF R, of v]) (use fp(4,6,7,8,9) in \<open>auto simp: ram_page_def\<close>)
        have e: "alloc_vma head pt ty addr sz perm True pa s = Ret (0, s\<lparr>vkst := k4, vmas := (vmas s)(v := zero_vma)\<rparr>)"
          using f ka False u(1) \<open>r = -1\<close> r(2) k4(1) by (simp add: alloc_vma_def Let_def del: vma_bound_def)
        have "length (free_list (vkst s)) \<le> 4 * ?n" using fp(1) short by simp
        then show ?thesis using e new_node_kept(1) [OF l(1,2) vx, of zero_vma k4] new_node_kept(2) [OF l(1,2) vx, of zero_vma] R k4(2) fp(3) by (auto simp: restored_def)
      qed
    qed
  qed
qed

theorem alloc_vma_ordered_witness:
  "\<exists>s head pt v s'. vlist s head [] \<and> alloc_vma head pt MMAP 0 4096 7 True 0 s = Ret (v, s') \<and> v \<noteq> head
    \<and> vlist s' head [v] \<and> vaddr (vmas s' v) = 0 \<and> vend (vmas s' v) = 4096"
proof -
  obtain k pt where k: "pt_inv k pt" "\<forall>va. pte_of k pt va = 0" "7 \<le> length (free_list k)" using booted_table_pages by blast
  obtain h k1 where ka: "kalloc k = (h, k1)" by (cases "kalloc k")
  have h0: "h \<noteq> 0" using ka.alloc_None_iff [OF pt_invD(1) [OF k(1)]] ka k(3) by auto
  note fp = fresh_page [OF k(1) ka h0 same_outside_refl, simplified]
  let ?s = "\<lparr>vkst = k1, vmas = (\<lambda>_. zero_vma\<lparr>vnext := h, vprev := h\<rparr>)\<rparr>"
  have e: "PGROUNDDOWN 0 = 0" "PGROUNDUP (0 + 4096) = 4096" "pages_below 0 4096 = 1"
    by (simp_all add: PGROUNDDOWN_def PGROUNDUP_def pages_below_def)
  have vl: "vlist ?s h []" "areas_ok (vmas ?s) []" by (simp_all add: vlist_def clist_def areas_ok_def)
  have "nodes_ok ?s h []" using fp(6-8) by (simp add: nodes_ok_def ram_page_def)
  moreover have "unmapped (vkst ?s) pt 0 1" using k(2) fp(3) by (simp add: unmapped_def)
  moreover have "h \<notin> table_pages (vkst ?s) pt" using fp(4,9) by simp
  ultimately obtain v s' where a: "alloc_vma h pt MMAP 0 4096 7 True 0 ?s = Ret (v, s')"
    "v \<notin> {h} \<and> vlist s' h [v] \<and> vaddr (vmas s' v) = 0 \<and> vend (vmas s' v) = 4096"
    using alloc_vma_ordered [of ?s h "[]" pt 0 4096 7 MMAP 0] vl fp(1,2) k(3) unfolding e by auto
  then show ?thesis using vl(1) by (intro exI [of _ ?s] exI [of _ h] exI [of _ pt] exI [of _ v] exI [of _ s']) simp
qed

end
