(* ===== verification/Sysstate.thy ===== *)
theory Sysstate
  imports Vma Pipe Console Fatdir
begin

text \<open>
  The state that the file layer, the process table and the system calls share: the file system, the memory areas, the
  table of open files (\<^verbatim>\<open>kernel/include/file.h\<close>), the pipes, the console and the process table
  (\<^verbatim>\<open>kernel/include/proc.h\<close>). Processes and files are indices of their tables; pointers into pages stay addresses.
  Sockets are not part of the kernel as it is built, and their fields are left out.
\<close>

section \<open>Open files\<close>

definition O_WRONLY :: u32 where [simp]: "O_WRONLY = 0x001"
definition O_RDWR :: u32 where [simp]: "O_RDWR = 0x002"
definition O_CREATE :: u32 where [simp]: "O_CREATE = 0x040"
definition O_TRUNC :: u32 where [simp]: "O_TRUNC = 0x200"
definition O_APPEND :: u32 where [simp]: "O_APPEND = 0x400"
definition CONSOLE :: int where [simp]: "CONSOLE = 1"

datatype ftype = FD_NONE | FD_PIPE | FD_ENTRY | FD_DEVICE | FD_SOCK | FD_NULL

record kfile =
  ftype :: ftype
  fref :: int
  readable :: bool
  writable :: bool
  fpipe :: u64
  fep :: nat
  foff :: u32
  major :: int
  t0_sec :: u64
  t0_nsec :: u64
  t1_sec :: u64
  t1_nsec :: u64

text \<open>The null pointer as an entry: indices up to \<^verbatim>\<open>ENTRY_CACHE_NUM\<close> are the cache and the root.\<close>

definition no_ent :: nat where [simp]: "no_ent = ENTRY_CACHE_NUM + 2"

definition zero_file :: kfile where
  "zero_file = \<lparr>ftype = FD_NONE, fref = 0, readable = False, writable = False, fpipe = 0, fep = no_ent, foff = 0, major = 0,
     t0_sec = 0, t0_nsec = 0, t1_sec = 0, t1_nsec = 0\<rparr>"

section \<open>Processes\<close>

record ctx =
  cra :: u64
  csp :: u64
  csaved :: "u64 list"
  cfp :: u64

record sigaction =
  sa_handler :: u64
  sa_mask :: u64
  sa_flags :: u32

datatype procstate = UNUSED | USED | SLEEPING | RUNNABLE | RUNNING | ZOMBIE

text \<open>The addresses that serve as channels: a process, a counter of a pipe, \<^verbatim>\<open>&cons.r\<close> and \<^verbatim>\<open>&ticks\<close>.\<close>

datatype channel = ProcChan nat | PipeChan u64 chan | ConsChan | TicksChan

record proc =
  pstate :: procstate
  pparent :: "nat option"
  pchan :: "channel option"
  killed :: int
  xstate :: u32
  pid :: int
  uid :: int
  gid :: int
  pgid :: int
  filelimit :: u64
  kstack :: u64
  psz :: u64
  pagetable :: u64
  ptrapframe :: u64
  pcontext :: ctx
  ofile :: "nat \<Rightarrow> nat option"
  exec_close :: u64
  cwd :: "nat option"
  pname :: "u8 list"
  tmask :: u32
  pvma :: u64
  ktime :: int
  utime :: int
  char_count :: int
  sigactions :: "nat \<Rightarrow> sigaction"
  sig_set :: u64
  sig_pending :: u64
  sig_tf :: u64

section \<open>The system\<close>

text \<open>The last five fields are addresses and sizes that the linker sets: the two trampolines, \<^verbatim>\<open>forkret\<close> and the first program.\<close>

record sys =
  fs :: fsys
  vareas :: "u64 \<Rightarrow> vma"
  files :: "nat \<Rightarrow> kfile"
  pipes :: "u64 \<Rightarrow> pipe"
  console :: cons
  con_out :: "u8 list"
  procs :: "nat \<Rightarrow> proc"
  nextpid :: int
  initproc :: nat
  cur :: nat
  tramp :: u64
  sigtramp :: u64
  forkret_addr :: u64
  initcode :: u64
  initcodesize :: u32

abbreviation myproc :: "sys \<Rightarrow> proc" where "myproc s \<equiv> procs s (cur s)"

abbreviation set_file :: "nat \<Rightarrow> (kfile \<Rightarrow> kfile) \<Rightarrow> sys \<Rightarrow> sys" where
  "set_file f g s \<equiv> s\<lparr>files := (files s)(f := g (files s f))\<rparr>"

abbreviation set_proc :: "nat \<Rightarrow> (proc \<Rightarrow> proc) \<Rightarrow> sys \<Rightarrow> sys" where
  "set_proc i g s \<equiv> s\<lparr>procs := (procs s)(i := g (procs s i))\<rparr>"

text \<open>Physical memory and the page allocator are part of the file system's state.\<close>

abbreviation kmem :: "sys \<Rightarrow> kstate" where "kmem s \<equiv> kst (fs s)"
abbreviation set_kmem :: "kstate \<Rightarrow> sys \<Rightarrow> sys" where "set_kmem k s \<equiv> s\<lparr>fs := (fs s)\<lparr>kst := k\<rparr>\<rparr>"

text \<open>Calls into the file system run with the identity and the page table of the current process.\<close>

definition fsview :: "sys \<Rightarrow> fsys" where
  "fsview s = (fs s)\<lparr>cur_pid := pid (myproc s), cur_pt := pagetable (myproc s)\<rparr>"

definition with_fs :: "(fsys \<Rightarrow> fsys res) \<Rightarrow> sys \<Rightarrow> sys res" where
  "with_fs f s = bind_res (f (fsview s)) (\<lambda>x. Ret (s\<lparr>fs := x\<rparr>))"

definition with_fs_val :: "(fsys \<Rightarrow> ('a \<times> fsys) res) \<Rightarrow> sys \<Rightarrow> ('a \<times> sys) res" where
  "with_fs_val f s = bind_res (f (fsview s)) (\<lambda>(r, x). Ret (r, s\<lparr>fs := x\<rparr>))"

definition with_kmem :: "(kstate \<Rightarrow> kstate res) \<Rightarrow> sys \<Rightarrow> sys res" where
  "with_kmem f s = bind_res (f (kmem s)) (\<lambda>k. Ret (set_kmem k s))"

definition with_kmem_val :: "(kstate \<Rightarrow> ('a \<times> kstate) res) \<Rightarrow> sys \<Rightarrow> ('a \<times> sys) res" where
  "with_kmem_val f s = bind_res (f (kmem s)) (\<lambda>(r, k). Ret (r, set_kmem k s))"

definition with_vma_val :: "(vstate \<Rightarrow> ('a \<times> vstate) res) \<Rightarrow> sys \<Rightarrow> ('a \<times> sys) res" where
  "with_vma_val f s = bind_res (f \<lparr>vkst = kmem s, vmas = vareas s\<rparr>) (\<lambda>(r, v). Ret (r, set_kmem (vkst v) (s\<lparr>vareas := vmas v\<rparr>)))"

text \<open>The rest of the file: \<open>copyout\<close> checks that its source is a kernel address. The static data and the pages of
  the kernel lie in the direct mapped window, which starts at \<^verbatim>\<open>DMWIN_MASK\<close>.\<close>

definition copyout_cur :: "u64 \<Rightarrow> u8 list \<Rightarrow> sys \<Rightarrow> (int \<times> sys) res" where
  "copyout_cur addr bytes s =
     with_kmem_val (copyout (pagetable (myproc s)) addr DMWIN_MASK bytes (of_nat (length bytes))) s"

definition copyin_cur :: "u64 \<Rightarrow> u64 \<Rightarrow> sys \<Rightarrow> (int \<times> u8 list) res" where
  "copyin_cur addr n s = copyin (pagetable (myproc s)) addr n (kmem s)"

section \<open>Sleeping and waking\<close>

text \<open>A call that has to wait gives the channel it sleeps on and the point where it goes on when it runs again.\<close>

datatype at = Begin | PipeAt nat | ConsAt nat u64

datatype call = Return int | Wait channel at

definition wake_proc :: "channel \<Rightarrow> proc \<Rightarrow> proc" where
  "wake_proc c p = (if pstate p = SLEEPING \<and> pchan p = Some c then p\<lparr>pstate := RUNNABLE\<rparr> else p)"

definition wakeup :: "channel \<Rightarrow> sys \<Rightarrow> sys" where
  "wakeup c s = s\<lparr>procs := (\<lambda>i. if i < NPROC then wake_proc c (procs s i) else procs s i)\<rparr>"

section \<open>Before boot\<close>

text \<open>The zeroed static data of the kernel, with given memory; the starting point of concrete instances.\<close>

definition zero_proc :: proc where
  "zero_proc = \<lparr>pstate = UNUSED, pparent = None, pchan = None, killed = 0, xstate = 0, pid = 0, uid = 0, gid = 0, pgid = 0, filelimit = 0,
     kstack = 0, psz = 0, pagetable = 0, ptrapframe = 0, pcontext = \<lparr>cra = 0, csp = 0, csaved = replicate 9 0, cfp = 0\<rparr>,
     ofile = (\<lambda>_. None), exec_close = 0, cwd = None, pname = replicate 16 0, tmask = 0, pvma = 0, ktime = 0, utime = 0, char_count = 0,
     sigactions = (\<lambda>_. \<lparr>sa_handler = 0, sa_mask = 0, sa_flags = 0\<rparr>), sig_set = 0, sig_pending = 0, sig_tf = 0\<rparr>"

definition zero_sys :: "kstate \<Rightarrow> sys" where
  "zero_sys k = \<lparr>fs = \<lparr>vol = read_bpb [], bufs = \<lparr>node = (\<lambda>_. undefined), disk = (\<lambda>_. 0)\<rparr>, ents = (\<lambda>_. root_dirent 2), kst = k,
       cur_pid = 0, cur_pt = 0, ksp = 0x9000\<rparr>,
     vareas = (\<lambda>_. zero_vma), files = (\<lambda>_. zero_file), pipes = (\<lambda>_. pipe_init), console = \<lparr>cbuf = replicate INPUT_BUF 0, cr = 0, cw = 0, ce = 0\<rparr>,
     con_out = [], procs = (\<lambda>_. zero_proc), nextpid = 1, initproc = 0, cur = 0, tramp = 0x9000000090000000, sigtramp = 0x9000000090001000,
     forkret_addr = 0, initcode = 0, initcodesize = 0\<rparr>"

end
