(* ===== verification/File.thy ===== *)
theory File
  imports Sysstate
begin

text \<open>
  \<^verbatim>\<open>kernel/file.c\<close> and the allocation of pipes of \<^verbatim>\<open>kernel/pipe.c\<close>: the table of open files and reads, writes, seeks and
  status through it. The only device with a driver is the console (\<^verbatim>\<open>consoleinit\<close> sets \<^verbatim>\<open>devsw[CONSOLE]\<close> and
  nothing else), so the device switch is the test for its number. Each operation runs up to its return or to the
  point where it sleeps. The local \<^verbatim>\<open>struct dirent\<close> of a directory walk is the entry after the cache and the root.
\<close>

section \<open>The table\<close>

definition fileinit :: "sys \<Rightarrow> sys" where
  "fileinit s = s\<lparr>files := (\<lambda>f. if f < NFILE then zero_file else files s f)\<rparr>"

definition filealloc :: "sys \<Rightarrow> nat option \<times> sys" where
  "filealloc s =
     (case find (\<lambda>f. fref (files s f) = 0) [0..<NFILE] of
        None \<Rightarrow> (None, s)
      | Some f \<Rightarrow> (Some f, set_file f (\<lambda>x. x\<lparr>fref := 1\<rparr>) s))"

definition filedup :: "nat \<Rightarrow> sys \<Rightarrow> sys res" where
  "filedup f s =
     (if fref (files s f) < 1 then Panic ''filedup'' else Ret (set_file f (\<lambda>x. x\<lparr>fref := fref x + 1\<rparr>) s))"

text \<open>The calls of \<^verbatim>\<open>wakeup\<close> that a pipe operation makes.\<close>

definition wake_pipe :: "u64 \<Rightarrow> chan list \<Rightarrow> sys \<Rightarrow> sys" where
  "wake_pipe pi cs s = fold (\<lambda>c. wakeup (PipeChan pi c)) cs s"

definition close_pipe :: "u64 \<Rightarrow> bool \<Rightarrow> sys \<Rightarrow> sys res" where
  "close_pipe pi wr s =
     (case pipeclose wr (pipes s pi) of (p1, freed, cs) \<Rightarrow>
        let s1 = wake_pipe pi cs (s\<lparr>pipes := (pipes s)(pi := p1)\<rparr>) in
        if freed then with_kmem (kfree pi) s1 else Ret s1)"

definition fileclose :: "nat \<Rightarrow> sys \<Rightarrow> sys res" where
  "fileclose f s =
     (let x = files s f in
      if fref x < 1 then Panic ''fileclose''
      else if fref x - 1 > 0 then Ret (set_file f (\<lambda>y. y\<lparr>fref := fref y - 1\<rparr>) s)
      else let s1 = set_file f (\<lambda>y. y\<lparr>fref := 0, ftype := FD_NONE\<rparr>) s in
        case ftype x of
          FD_PIPE \<Rightarrow> close_pipe (fpipe x) (writable x) s1
        | FD_ENTRY \<Rightarrow> with_fs (eput eput_depth (fep x)) s1
        | _ \<Rightarrow> Ret s1)"

definition pipealloc :: "sys \<Rightarrow> ((nat \<times> nat) option \<times> sys) res" where
  "pipealloc s =
     (case filealloc s of
        (None, s1) \<Rightarrow> Ret (None, s1)
      | (Some f0, s1) \<Rightarrow>
        (case filealloc s1 of
           (None, s2) \<Rightarrow> bind_res (fileclose f0 s2) (\<lambda>s3. Ret (None, s3))
         | (Some f1, s2) \<Rightarrow>
           (case kalloc (kmem s2) of (pi, k) \<Rightarrow>
              if pi = 0
              then bind_res (fileclose f0 (set_kmem k s2)) (\<lambda>s3. bind_res (fileclose f1 s3) (\<lambda>s4. Ret (None, s4)))
              else let s3 = (set_kmem k s2)\<lparr>pipes := (pipes s2)(pi := pipe_init)\<rparr>;
                       s4 = set_file f0 (\<lambda>x. x\<lparr>ftype := FD_PIPE, readable := True, writable := False, fpipe := pi\<rparr>) s3;
                       s5 = set_file f1 (\<lambda>x. x\<lparr>ftype := FD_PIPE, readable := False, writable := True, fpipe := pi\<rparr>) s4
                   in Ret (Some (f0, f1), s5))))"

section \<open>Status\<close>

text \<open>The bytes of a \<^verbatim>\<open>struct kstat\<close>. The last eight are never set and hold what was on the stack; of the two fields
  of padding \<open>pads\<close> says whether they are.\<close>

definition kstat_bytes :: "bool \<Rightarrow> u8 list \<Rightarrow> kstat_t \<Rightarrow> u64 \<Rightarrow> u64 \<Rightarrow> u64 \<Rightarrow> u64 \<Rightarrow> u8 list" where
  "kstat_bytes pads junk k asec ansec msec mnsec =
     le_bytes 8 (st_dev k) @ le_bytes 8 (st_ino k) @ le_bytes 4 (st_mode k) @ le_bytes 4 (st_nlink k) @ replicate 8 0
     @ le_bytes 8 (st_rdev k) @ (if pads then replicate 8 0 else take 8 (drop 40 junk)) @ le_bytes 8 (st_size k)
     @ le_bytes 4 (st_blksize k) @ (if pads then replicate 4 0 else take 4 (drop 60 junk)) @ le_bytes 8 (st_blocks k)
     @ le_bytes 8 asec @ le_bytes 8 ansec @ le_bytes 8 msec @ le_bytes 8 mnsec @ replicate 16 0 @ take 8 (drop 120 junk)"

definition filestat :: "nat \<Rightarrow> u64 \<Rightarrow> sys \<Rightarrow> (int \<times> sys) res" where
  "filestat f addr s =
     (let x = files s f; junk = get_local 128 (fs s) in
      case ftype x of
        FD_ENTRY \<Rightarrow>
          bind_res (with_fs (elock (fep x)) s) (\<lambda>s1.
            let k = kstat (ents (fs s1) (fep x));
                asec = t0_nsec x; ansec = t0_sec x; msec = t1_nsec x; mnsec = t1_sec x;
                msec1 = (if msec = 0x3ffffffe then 0 else msec);
                asec1 = (if asec = 0x3ffffffe then 0 else asec);
                msec2 = (if mnsec = 0x100000000 then 0x100000000 else msec1);
                asec2 = (if ansec = 0x100000000 then 0x100000000 else asec1) in
            bind_res (with_fs (eunlock (fep x)) s1) (\<lambda>s2.
              bind_res (copyout_cur addr (kstat_bytes True junk k asec2 ansec msec2 mnsec) s2) (\<lambda>(r, s3).
                Ret (if r < 0 then -1 else 0, s3))))
      | FD_DEVICE \<Rightarrow>
          if major x \<noteq> CONSOLE then Ret (-1, s)
          else let k = \<lparr>st_dev = of_int (major x), st_ino = scast (hashpath []), st_mode = S_IFCHR, st_nlink = 1, st_size = 0,
                        st_blksize = 128, st_blocks = 0, st_rdev = 0\<rparr> in
            bind_res (copyout_cur addr (kstat_bytes False junk k 0 0 0 0) s) (\<lambda>(r, s1). Ret (if r < 0 then -1 else 0, s1))
      | _ \<Rightarrow> Ret (-1, s))"

section \<open>Reading and writing\<close>

definition read_pipe :: "u64 \<Rightarrow> bool \<Rightarrow> u64 \<Rightarrow> int \<Rightarrow> sys \<Rightarrow> (call \<times> sys) res" where
  "read_pipe pi user addr n s =
     bind_res (piperead user addr n (killed (myproc s) \<noteq> 0) (ksp (fs s)) (pagetable (myproc s)) (kmem s) (pipes s pi)) (\<lambda>(pr, k, p1, cs).
       Ret (case pr of Done r \<Rightarrow> Return r | Sleep i \<Rightarrow> Wait (PipeChan pi NRead) (PipeAt i),
            wake_pipe pi cs (set_kmem k (s\<lparr>pipes := (pipes s)(pi := p1)\<rparr>))))"

definition write_pipe :: "at \<Rightarrow> u64 \<Rightarrow> bool \<Rightarrow> u64 \<Rightarrow> int \<Rightarrow> sys \<Rightarrow> (call \<times> sys) res" where
  "write_pipe a pi user addr n s =
     bind_res (pipewrite (case a of PipeAt i \<Rightarrow> i | _ \<Rightarrow> 0) user addr n (killed (myproc s) \<noteq> 0) (pagetable (myproc s)) (kmem s) (pipes s pi))
       (\<lambda>(pr, p1, cs).
         Ret (case pr of Done r \<Rightarrow> Return r | Sleep i \<Rightarrow> Wait (PipeChan pi NWrite) (PipeAt i),
              wake_pipe pi cs (s\<lparr>pipes := (pipes s)(pi := p1)\<rparr>)))"

definition read_console :: "at \<Rightarrow> bool \<Rightarrow> u64 \<Rightarrow> int \<Rightarrow> sys \<Rightarrow> (call \<times> sys) res" where
  "read_console a user addr n s =
     bind_res (case a of
         ConsAt left dst \<Rightarrow> consoleread_loop left (nat n) user dst (killed (myproc s) \<noteq> 0) (ksp (fs s)) (pagetable (myproc s)) (kmem s) (console s)
       | _ \<Rightarrow> consoleread user addr n (killed (myproc s) \<noteq> 0) (ksp (fs s)) (pagetable (myproc s)) (kmem s) (console s)) (\<lambda>(pr, k, c).
       Ret (case pr of CDone r \<Rightarrow> Return r | CSleep left dst \<Rightarrow> Wait ConsChan (ConsAt left dst), set_kmem k (s\<lparr>console := c\<rparr>)))"

definition write_console :: "bool \<Rightarrow> u64 \<Rightarrow> int \<Rightarrow> sys \<Rightarrow> (call \<times> sys) res" where
  "write_console user addr n s =
     bind_res (consolewrite user addr n (pagetable (myproc s)) (kmem s)) (\<lambda>(r, out). Ret (Return r, s\<lparr>con_out := con_out s @ out\<rparr>))"

text \<open>The switch of \<^verbatim>\<open>fileinput\<close> and \<^verbatim>\<open>fileoutput\<close>; in \<^verbatim>\<open>fileoutput\<close> a socket falls through to the null device. A device
  without a driver would be called through a null pointer.\<close>

definition fileinput :: "at \<Rightarrow> nat \<Rightarrow> bool \<Rightarrow> u64 \<Rightarrow> int \<Rightarrow> u64 \<Rightarrow> sys \<Rightarrow> (call \<times> sys) res" where
  "fileinput a f user addr n off s =
     (let x = files s f in
      case ftype x of
        FD_PIPE \<Rightarrow> read_pipe (fpipe x) user addr n s
      | FD_DEVICE \<Rightarrow> if major x = CONSOLE then read_console a user addr n s else Panic ''null function''
      | FD_ENTRY \<Rightarrow> bind_res (with_fs_val (eread (fep x) user addr (ucast off) (of_int n)) s) (\<lambda>(r, s1). Ret (Return (sint r), s1))
      | FD_SOCK \<Rightarrow> Ret (Return 0, s)
      | FD_NULL \<Rightarrow> Ret (Return n, set_kmem ((kmem s)\<lparr>mem := memset (mem (kmem s)) addr 0 (of_int n)\<rparr>) s)
      | FD_NONE \<Rightarrow> Ret (Return 0, s))"

definition fileoutput :: "at \<Rightarrow> nat \<Rightarrow> bool \<Rightarrow> u64 \<Rightarrow> int \<Rightarrow> u64 \<Rightarrow> sys \<Rightarrow> (call \<times> sys) res" where
  "fileoutput a f user addr n off s =
     (let x = files s f in
      case ftype x of
        FD_PIPE \<Rightarrow> write_pipe a (fpipe x) user addr n s
      | FD_DEVICE \<Rightarrow> if major x = CONSOLE then write_console user addr n s else Panic ''null function''
      | FD_ENTRY \<Rightarrow> bind_res (with_fs_val (ewrite (fep x) user addr (ucast off) (of_int n)) s) (\<lambda>(r, s1). Ret (Return r, s1))
      | FD_SOCK \<Rightarrow> Ret (Return n, s)
      | FD_NULL \<Rightarrow> Ret (Return n, s)
      | FD_NONE \<Rightarrow> Ret (Return 0, s))"


text \<open>\<^verbatim>\<open>copyout_zero\<close> (\<^verbatim>\<open>kernel/vm.c\<close>) copies from address 0.\<close>

function copyout_zero :: "u64 \<Rightarrow> u64 \<Rightarrow> u64 \<Rightarrow> kstate \<Rightarrow> (int \<times> kstate) res" where
  "copyout_zero pt dstva len s =
     (if len > 0
      then let va0 = PGROUNDDOWN dstva in
        bind_res (walkaddr pt va0 s) (\<lambda>pa0.
          if pa0 = 0 then Ret (-1, s)
          else let n = page_chunk dstva len in
            copyout_zero pt (va0 + PGSIZE) (len - n)
              (s\<lparr>mem := memmove (mem s) ((pa0 + (dstva - va0)) OR DMWIN_MASK) 0 (ucast n)\<rparr>))
      else Ret (0, s))"
  by pat_completeness auto
termination
  by (relation "measure (\<lambda>(pt, d, len, s). unat len)")
    (auto simp: chunk_decreases word_less_nat_alt [symmetric])

declare copyout_zero.simps [simp del]

text \<open>\<^verbatim>\<open>strncmp(buf, lit, n)\<close> with the length of the literal as \<^verbatim>\<open>n\<close> is 0 when the first bytes are those of the literal.\<close>

definition starts_with :: "string \<Rightarrow> u8 list \<Rightarrow> bool" where
  "starts_with lit buf \<longleftrightarrow> take (length lit) buf = map (of_nat \<circ> of_char) lit"

text \<open>The bytes one call copies out for the files that stand for devices.\<close>

definition read_byte :: "u8 \<Rightarrow> u64 \<Rightarrow> sys \<Rightarrow> sys res" where
  "read_byte b addr s =
     bind_res (either_copyout (pagetable (myproc s)) True addr (ksp (fs s)) [b] 1 (kmem s)) (\<lambda>(r, k). Ret (set_kmem k s))"

definition read_entry :: "nat \<Rightarrow> u64 \<Rightarrow> int \<Rightarrow> sys \<Rightarrow> (call \<times> sys) res" where
  "read_entry f addr n s =
     (let x = files s f in
      bind_res (with_fs (elock (fep x)) s) (\<lambda>s1.
        let name = filename (ents (fs s1) (fep x)) in
        if char_count (myproc s1) > 0
        then bind_res (with_fs (eunlock (fep x)) (set_proc (cur s1) (\<lambda>p. p\<lparr>char_count := char_count p - 1\<rparr>) s1)) (\<lambda>s2. Ret (Return n, s2))
        else if starts_with ''libc-bench'' (pname (myproc s1)) \<and> starts_with ''tmpfile_'' name
        then bind_res (with_fs (eunlock (fep x)) s1) (\<lambda>s2. bind_res (read_byte 0x78 addr s2) (\<lambda>s3. Ret (Return 1, s3)))
        else bind_res (if starts_with ''zero'' name then bind_res (read_byte 0 addr s1) (\<lambda>s2. Ret (1, s2))
                       else if starts_with ''urandom'' name then bind_res (read_byte 114 addr s1) (\<lambda>s2. Ret (1, s2))
                       else bind_res (with_fs_val (eread (fep x) True addr (foff x) (of_int n)) s1) (\<lambda>(r, s2).
                         Ret (sint r, if sint r > 0 then set_file f (\<lambda>y. y\<lparr>foff := foff y + r\<rparr>) s2 else s2))) (\<lambda>(r, s2).
          bind_res (with_fs (eunlock (fep x)) s2) (\<lambda>s3. Ret (Return r, s3)))))"

text \<open>The case of the null device has no \<^verbatim>\<open>break\<close> and runs into the panic.\<close>

definition fileread :: "at \<Rightarrow> nat \<Rightarrow> u64 \<Rightarrow> int \<Rightarrow> sys \<Rightarrow> (call \<times> sys) res" where
  "fileread a f addr n s =
     (let x = files s f in
      if \<not> readable x then Ret (Return (-1), s)
      else case ftype x of
        FD_PIPE \<Rightarrow> read_pipe (fpipe x) True addr n s
      | FD_DEVICE \<Rightarrow> if major x \<noteq> CONSOLE then Ret (Return (-1), s) else read_console a True addr n s
      | FD_ENTRY \<Rightarrow> read_entry f addr n s
      | FD_NULL \<Rightarrow> bind_res (copyout_zero (pagetable (myproc s)) addr (of_int n) (kmem s)) (\<lambda>_. Panic ''fileread'')
      | _ \<Rightarrow> Panic ''fileread'')"

definition write_entry :: "nat \<Rightarrow> u64 \<Rightarrow> int \<Rightarrow> sys \<Rightarrow> (call \<times> sys) res" where
  "write_entry f addr n s =
     (let x = files s f in
      bind_res (with_fs (elock (fep x)) s) (\<lambda>s1.
        if char_count (myproc s1) \<noteq> 0
        then bind_res (with_fs (eunlock (fep x)) (set_proc (cur s1) (\<lambda>p. p\<lparr>char_count := char_count p + n\<rparr>) s1)) (\<lambda>s2. Ret (Return n, s2))
        else if starts_with ''libc-bench'' (pname (myproc s1)) \<and> starts_with ''tmpfile_'' (filename (ents (fs s1) (fep x)))
        then bind_res (with_fs (eunlock (fep x)) (set_proc (cur s1) (\<lambda>p. p\<lparr>char_count := n\<rparr>) s1)) (\<lambda>s2. Ret (Return 1, s2))
        else bind_res (with_fs_val (ewrite (fep x) True addr (foff x) (of_int n)) s1) (\<lambda>(r, s2).
          let s3 = (if r = n then set_file f (\<lambda>y. y\<lparr>foff := foff y + of_int n\<rparr>) s2 else s2) in
          bind_res (with_fs (eunlock (fep x)) s3) (\<lambda>s4. Ret (Return (if r = n then n else -1), s4)))))"

definition filewrite :: "at \<Rightarrow> nat \<Rightarrow> u64 \<Rightarrow> int \<Rightarrow> sys \<Rightarrow> (call \<times> sys) res" where
  "filewrite a f addr n s =
     (let x = files s f in
      if \<not> writable x then Ret (Return (-1), s)
      else case ftype x of
        FD_PIPE \<Rightarrow> write_pipe a (fpipe x) True addr n s
      | FD_DEVICE \<Rightarrow> if major x \<noteq> CONSOLE then Ret (Return (-1), s) else write_console True addr n s
      | FD_ENTRY \<Rightarrow> write_entry f addr n s
      | FD_NULL \<Rightarrow> Ret (Return n, s)
      | _ \<Rightarrow> Panic ''filewrite'')"

section \<open>Directories and positions\<close>

definition local_ent :: nat where [simp]: "local_ent = ENTRY_CACHE_NUM + 1"

text \<open>The loop over empty entries; 0x8000000 rounds visit every slot of the largest directory.\<close>

primrec dirnext_loop :: "nat \<Rightarrow> nat \<Rightarrow> int \<Rightarrow> sys \<Rightarrow> (int \<times> int \<times> sys) res" where
  "dirnext_loop 0 f count s = Stuck"
| "dirnext_loop (Suc k) f count s =
     bind_res (enext (fep (files s f)) local_ent (foff (files s f)) count (fsview s)) (\<lambda>(r, count1, x).
       let s1 = s\<lparr>fs := x\<rparr> in
       if r = 0 then dirnext_loop k f count1 (set_file f (\<lambda>y. y\<lparr>foff := foff y + of_int (count1 * 32)\<rparr>) s1)
       else Ret (r, count1, s1))"

text \<open>The bytes of a \<^verbatim>\<open>struct stat\<close>: after the name, one byte that is not set and two gaps.\<close>

definition stat_bytes :: "u8 list \<Rightarrow> dirent \<Rightarrow> u8 list" where
  "stat_bytes junk de =
     (case estat de of (name, ty, d, sz) \<Rightarrow>
        name @ take 4 (drop 32 junk) @ le_bytes 4 (ucast d :: u32) @ le_bytes 2 (of_int ty :: u16)
        @ take 6 (drop 42 junk) @ le_bytes 8 (ucast sz :: u64))"

definition dirnext :: "nat \<Rightarrow> u64 \<Rightarrow> sys \<Rightarrow> (int \<times> sys) res" where
  "dirnext f addr s =
     (let x = files s f; junk = get_local 56 (fs s) in
      if readable x \<and> fep x = no_ent then Panic ''null pointer''
      else if \<not> readable x \<or> attribute (ents (fs s) (fep x)) AND ATTR_DIRECTORY = 0 then Ret (-1, s)
      else bind_res (with_fs (elock (fep x)) s) (\<lambda>s1.
        bind_res (dirnext_loop 0x8000000 f 0 s1) (\<lambda>(r, count, s2).
          bind_res (with_fs (eunlock (fep x)) s2) (\<lambda>s3.
            if r = -1 then Ret (0, s3)
            else let s4 = set_file f (\<lambda>y. y\<lparr>foff := foff y + of_int (count * 32)\<rparr>) s3 in
              bind_res (copyout_cur addr (stat_bytes junk (ents (fs s4) local_ent)) s4) (\<lambda>(e, s5).
                Ret (if e < 0 then -1 else 1, s5))))))"

text \<open>The bytes of a \<^verbatim>\<open>struct dirent64\<close> and its length: 24 bytes less padding before the name, the name with its zero byte,
  rounded up to a multiple of eight. \<^verbatim>\<open>sizeof(struct dirent64)\<close> is 280 and the name has 256 bytes.\<close>

definition dirent64_size :: "u8 list \<Rightarrow> nat" where
  "dirent64_size name = (let z = 280 - 256 + length (cstr name) + 1 in z + (8 - z mod 8) mod 8)"

definition dirent64_bytes :: "u8 list \<Rightarrow> u32 \<Rightarrow> dirent \<Rightarrow> u8 list" where
  "dirent64_bytes junk off de =
     take (dirent64_size (filename de))
       (replicate 8 0 @ le_bytes 8 (ucast off :: u64) @ le_bytes 2 (of_nat (dirent64_size (filename de)) :: u16)
        @ [if attribute de AND ATTR_DIRECTORY \<noteq> 0 then of_int T_DIR else of_int T_FILE] @ filename de @ take 5 (drop 275 junk))"

primrec get_dirents :: "nat \<Rightarrow> nat \<Rightarrow> u64 \<Rightarrow> int \<Rightarrow> int \<Rightarrow> int \<Rightarrow> sys \<Rightarrow> (int \<times> sys) res" where
  "get_dirents 0 f addr n cnt copysize s = Stuck"
| "get_dirents (Suc k) f addr n cnt copysize s =
     (let e = fep (files s f); off = foff (files s f) in
      bind_res (enext e local_ent off cnt (fsview s)) (\<lambda>(r, cnt1, x).
        let s1 = set_file f (\<lambda>y. y\<lparr>foff := foff y + of_int (cnt1 * 32)\<rparr>) (s\<lparr>fs := x\<rparr>); de = ents (fs s1) local_ent in
        if r = 0 then get_dirents k f addr n cnt1 copysize s1
        else if r = -1 then bind_res (with_fs (eunlock e) s1) (\<lambda>s2. Ret (copysize, s2))
        else if int (dirent64_size (filename de)) > n
        then bind_res (with_fs (eunlock e) s1) (\<lambda>s2.
          Ret (copysize, set_file f (\<lambda>y. y\<lparr>foff := foff y + of_int (cnt1 * 32)\<rparr>) s2))
        else let bs = dirent64_bytes (get_local 280 (fs s)) off de in
          bind_res (copyout_cur addr bs s1) (\<lambda>(c, s2).
            if c < 0 then bind_res (with_fs (eunlock e) s2) (\<lambda>s3. Ret (-1, s3))
            else get_dirents k f (addr + of_nat (length bs)) (n - int (length bs)) cnt1 (copysize + int (length bs)) s2)))"

definition get_next_dirent :: "nat \<Rightarrow> u64 \<Rightarrow> int \<Rightarrow> sys \<Rightarrow> (int \<times> sys) res" where
  "get_next_dirent f addr n s =
     (let x = files s f in
      if readable x \<and> fep x = no_ent then Panic ''null pointer''
      else if \<not> readable x \<or> attribute (ents (fs s) (fep x)) AND ATTR_DIRECTORY = 0 then Ret (-1, s)
      else bind_res (with_fs (elock (fep x)) s) (get_dirents 0x8000000 f addr n 0 0))"

definition fileseek :: "nat \<Rightarrow> u64 \<Rightarrow> int \<Rightarrow> sys \<Rightarrow> (u64 \<times> sys) res" where
  "fileseek f offset whence s =
     (let x = files s f in
      case ftype x of
        FD_ENTRY \<Rightarrow>
          bind_res (with_fs (elock (fep x)) s) (\<lambda>s1.
            let cur_off = foff x + ucast offset; end_off = file_size (ents (fs s1) (fep x)) + ucast offset in
            bind_res (with_fs (eunlock (fep x)) s1) (\<lambda>s2.
              if whence = 0 then Ret (offset, set_file f (\<lambda>y. y\<lparr>foff := ucast offset\<rparr>) s2)
              else if whence = 1 then Ret (ucast cur_off, set_file f (\<lambda>y. y\<lparr>foff := cur_off\<rparr>) s2)
              else if whence = 2 then Ret (ucast end_off, set_file f (\<lambda>y. y\<lparr>foff := end_off\<rparr>) s2)
              else Ret (-1, s2)))
      | FD_PIPE \<Rightarrow>
          if whence = 0 then Ret (offset, set_file f (\<lambda>y. y\<lparr>foff := ucast offset\<rparr>) s)
          else if whence = 1 then Ret (ucast (foff x + ucast offset), set_file f (\<lambda>y. y\<lparr>foff := foff x + ucast offset\<rparr>) s)
          else Ret (-1, s)
      | _ \<Rightarrow> Ret (-1, s))"

definition fileillegal :: "nat \<Rightarrow> sys \<Rightarrow> int res" where
  "fileillegal f s =
     (case ftype (files s f) of
        FD_PIPE \<Rightarrow> Ret (if major (files s f) \<noteq> CONSOLE then 1 else 0)
      | FD_DEVICE \<Rightarrow> Ret (if major (files s f) \<noteq> CONSOLE then 1 else 0)
      | FD_ENTRY \<Rightarrow> Ret 0
      | _ \<Rightarrow> Panic ''fileillegal'')"

end
