(* ===== verification/Sysfile.thy ===== *)
theory Sysfile
  imports File
begin

text \<open>
  System calls on files: arguments (\<^verbatim>\<open>kernel/syscall.c\<close>), descriptors and the calls of \<^verbatim>\<open>kernel/sysfile.c\<close> that work on
  them. A system call takes its arguments from the trapframe of the current process.
\<close>

section \<open>Arguments\<close>

text \<open>\<^verbatim>\<open>argraw\<close> panics for a number above 6; every call in the kernel has a constant from 0 to 5. The argument registers
  are at bytes 24 to 80 of the trapframe.\<close>

definition argraw :: "nat \<Rightarrow> sys \<Rightarrow> u64" where
  "argraw n s = load64 (mem (kmem s)) (ptrapframe (myproc s) + 24 + 8 * of_nat n)"

definition argint :: "nat \<Rightarrow> sys \<Rightarrow> int" where
  "argint n s = sint (ucast (argraw n s) :: u32)"

definition argaddr :: "nat \<Rightarrow> sys \<Rightarrow> u64" where
  "argaddr n s = argraw n s"

definition fetchaddr :: "u64 \<Rightarrow> sys \<Rightarrow> u64 option res" where
  "fetchaddr addr s =
     (if addr \<ge> psz (myproc s) \<or> addr + 8 > psz (myproc s) then Ret None
      else bind_res (copyin_cur addr 8 s) (\<lambda>(r, bs). Ret (if r \<noteq> 0 then None else Some (le_word bs))))"

text \<open>The bytes before the terminating zero, or nothing on an error.\<close>

definition fetchstr :: "u64 \<Rightarrow> u64 \<Rightarrow> sys \<Rightarrow> u8 list option res" where
  "fetchstr addr max_len s =
     bind_res (copyinstr (pagetable (myproc s)) addr max_len (kmem s)) (\<lambda>(r, bs). Ret (if r < 0 then None else Some (cstr bs)))"

definition argstr :: "nat \<Rightarrow> u64 \<Rightarrow> sys \<Rightarrow> u8 list option res" where
  "argstr n max_len s = fetchstr (argaddr n s) max_len s"

definition FAT32_MAX_PATH :: nat where [simp]: "FAT32_MAX_PATH = 260"

section \<open>Descriptors\<close>

definition nofilemax :: "proc \<Rightarrow> nat" where
  "nofilemax p = (if filelimit p < of_nat NOFILE then unat (filelimit p) else NOFILE)"

text \<open>\<^verbatim>\<open>argfd\<close>: the error, or the descriptor and its file.\<close>

definition argfd :: "nat \<Rightarrow> sys \<Rightarrow> int + (nat \<times> nat)" where
  "argfd n s =
     (let fd = argint n s in
      if fd = -1 then Inl (-2)
      else if fd = -100 then Inl (-1)
      else if fd < 0 \<or> fd \<ge> int NOFILE then Inl (-1)
      else case ofile (myproc s) (nat fd) of None \<Rightarrow> Inl (-1) | Some f \<Rightarrow> Inr (nat fd, f))"

abbreviation set_fd :: "nat \<Rightarrow> nat option \<Rightarrow> sys \<Rightarrow> sys" where
  "set_fd fd f s \<equiv> set_proc (cur s) (\<lambda>p. p\<lparr>ofile := (ofile p)(fd := f)\<rparr>) s"

definition fdalloc2 :: "nat \<Rightarrow> nat \<Rightarrow> sys \<Rightarrow> nat option \<times> sys" where
  "fdalloc2 f start s =
     (case find (\<lambda>fd. ofile (myproc s) fd = None) [start..<nofilemax (myproc s)] of
        None \<Rightarrow> (None, s)
      | Some fd \<Rightarrow> (Some fd, set_fd fd (Some f) s))"

definition fdalloc :: "nat \<Rightarrow> sys \<Rightarrow> nat option \<times> sys" where
  "fdalloc f s = fdalloc2 f 0 s"

definition sys_dup :: "sys \<Rightarrow> (int \<times> sys) res" where
  "sys_dup s =
     (case argfd 0 s of
        Inl e \<Rightarrow> Ret (-1, s)
      | Inr (_, f) \<Rightarrow>
        (case fdalloc f s of
           (None, s1) \<Rightarrow> Ret (-24, s1)
         | (Some fd, s1) \<Rightarrow> bind_res (filedup f s1) (\<lambda>s2. Ret (int fd, s2))))"

text \<open>A file that was open at the new descriptor is not closed.\<close>

definition sys_dup3 :: "sys \<Rightarrow> (int \<times> sys) res" where
  "sys_dup3 s =
     (case argfd 0 s of
        Inl e \<Rightarrow> Ret (-1, s)
      | Inr (_, f) \<Rightarrow>
        let newfd = argint 1 s in
        if newfd < 0 then Ret (-1, s)
        else if newfd \<ge> int (nofilemax (myproc s)) then Ret (-24, s)
        else if ofile (myproc s) (nat newfd) \<noteq> Some f
        then bind_res (filedup f s) (\<lambda>s1. Ret (newfd, set_fd (nat newfd) (Some f) s1))
        else Ret (newfd, s))"

definition sys_read :: "at \<Rightarrow> sys \<Rightarrow> (call \<times> sys) res" where
  "sys_read a s =
     (case argfd 0 s of Inl e \<Rightarrow> Ret (Return (-1), s) | Inr (_, f) \<Rightarrow> fileread a f (argaddr 1 s) (argint 2 s) s)"

definition sys_pread :: "at \<Rightarrow> sys \<Rightarrow> (call \<times> sys) res" where
  "sys_pread a s =
     (case argfd 0 s of
        Inl e \<Rightarrow> Ret (Return (-1), s)
      | Inr (_, f) \<Rightarrow>
        if a = Begin
        then bind_res (fileseek f (of_int (argint 3 s)) 0 s) (\<lambda>(r, s1). fileread a f (argaddr 1 s1) (argint 2 s1) s1)
        else fileread a f (argaddr 1 s) (argint 2 s) s)"

definition sys_write :: "at \<Rightarrow> sys \<Rightarrow> (call \<times> sys) res" where
  "sys_write a s =
     (case argfd 0 s of Inl e \<Rightarrow> Ret (Return (-1), s) | Inr (_, f) \<Rightarrow> filewrite a f (argaddr 1 s) (argint 2 s) s)"

definition sys_close :: "sys \<Rightarrow> (int \<times> sys) res" where
  "sys_close s =
     (case argfd 0 s of
        Inl e \<Rightarrow> Ret (-1, s)
      | Inr (fd, f) \<Rightarrow> bind_res (fileclose f (set_fd fd None s)) (\<lambda>s1. Ret (0, s1)))"

definition sys_fstat :: "sys \<Rightarrow> (int \<times> sys) res" where
  "sys_fstat s = (case argfd 0 s of Inl e \<Rightarrow> Ret (-1, s) | Inr (_, f) \<Rightarrow> filestat f (argaddr 1 s) s)"

definition sys_lseek :: "sys \<Rightarrow> (u64 \<times> sys) res" where
  "sys_lseek s = (case argfd 0 s of Inl e \<Rightarrow> Ret (-1, s) | Inr (_, f) \<Rightarrow> fileseek f (argaddr 1 s) (argint 2 s) s)"

definition sys_readdir :: "sys \<Rightarrow> (int \<times> sys) res" where
  "sys_readdir s = (case argfd 0 s of Inl e \<Rightarrow> Ret (-1, s) | Inr (_, f) \<Rightarrow> dirnext f (argaddr 1 s) s)"

definition sys_getdents64 :: "sys \<Rightarrow> (int \<times> sys) res" where
  "sys_getdents64 s =
     (case argfd 0 s of
        Inl e \<Rightarrow> Ret (-1, s)
      | Inr (_, f) \<Rightarrow> get_next_dirent f (argaddr 1 s) (sint (ucast (argaddr 2 s) :: u32)) s)"

text \<open>A pipe that gets no two descriptors, or whose descriptors cannot be copied to the process, is closed again.\<close>

definition sys_pipe :: "sys \<Rightarrow> (int \<times> sys) res" where
  "sys_pipe s =
     (let fdarray = argaddr 0 s in
      bind_res (pipealloc s) (\<lambda>(fs2, s1).
        case fs2 of
          None \<Rightarrow> Ret (-1, s1)
        | Some (rdf, wrf) \<Rightarrow>
          (case fdalloc rdf s1 of
             (None, s2) \<Rightarrow> bind_res (fileclose rdf s2) (\<lambda>s3. bind_res (fileclose wrf s3) (\<lambda>s4. Ret (-1, s4)))
           | (Some fd0, s2) \<Rightarrow>
             (case fdalloc wrf s2 of
                (None, s3) \<Rightarrow> bind_res (fileclose rdf (set_fd fd0 None s3)) (\<lambda>s4. bind_res (fileclose wrf s4) (\<lambda>s5. Ret (-1, s5)))
              | (Some fd1, s3) \<Rightarrow>
                bind_res (copyout_cur fdarray (le_bytes 4 (of_nat fd0 :: u32)) s3) (\<lambda>(r, s4).
                bind_res (if r < 0 then Ret (r, s4) else copyout_cur (fdarray + 4) (le_bytes 4 (of_nat fd1 :: u32)) s4) (\<lambda>(r1, s5).
                  if r1 < 0
                  then bind_res (fileclose rdf (set_fd fd1 None (set_fd fd0 None s5))) (\<lambda>s6.
                    bind_res (fileclose wrf s6) (\<lambda>s7. Ret (-1, s7)))
                  else Ret (0, s5)))))))"

text \<open>\<^verbatim>\<open>fd < NOFILEMAX(p)\<close> compares as unsigned, so a negative start finds no descriptor. \<^verbatim>\<open>exec_close\<close> is an array of \<^verbatim>\<open>int\<close> in a page of its own.\<close>

definition set_exec_close :: "nat \<Rightarrow> u32 \<Rightarrow> sys \<Rightarrow> sys" where
  "set_exec_close fd v s =
     set_kmem ((kmem s)\<lparr>mem := write_bytes (mem (kmem s)) (exec_close (myproc s) + 4 * of_nat fd) (le_bytes 4 v)\<rparr>) s"

definition get_exec_close :: "nat \<Rightarrow> sys \<Rightarrow> u32" where
  "get_exec_close fd s = le_word (read_bytes (mem (kmem s)) (exec_close (myproc s) + 4 * of_nat fd) 4)"

definition dup_from :: "nat \<Rightarrow> int \<Rightarrow> sys \<Rightarrow> (int \<times> sys) res" where
  "dup_from f start s =
     (if start < 0 then Ret (-24, s)
      else case fdalloc2 f (nat start) s of
        (None, s1) \<Rightarrow> Ret (-24, s1)
      | (Some fd, s1) \<Rightarrow> bind_res (filedup f s1) (\<lambda>s2. Ret (int fd, s2)))"

definition sys_fcntl :: "sys \<Rightarrow> (int \<times> sys) res" where
  "sys_fcntl s =
     (case argfd 0 s of
        Inl e \<Rightarrow> Ret (-1, s)
      | Inr (fd, f) \<Rightarrow>
        let cmd = argint 1 s; arg = argaddr 2 s; start = sint (ucast arg :: u32) in
        if cmd = 1 then Ret (sint (get_exec_close fd s), s)
        else if cmd = 2 then Ret (0, set_exec_close fd (ucast arg) s)
        else if cmd = 0 then dup_from f start s
        else if cmd = 1030 then
          bind_res (dup_from f start s) (\<lambda>(r, s1). Ret (r, if r < 0 then s1 else set_exec_close (nat r) 1 s1))
        else Ret (0, s))"


section \<open>Opening files\<close>

text \<open>The directory where the lookup of a path starts; without one, \<^verbatim>\<open>elock\<close> panics on the null pointer.\<close>

definition start_dir :: "u8 list \<Rightarrow> sys \<Rightarrow> nat res" where
  "start_dir path s =
     (case cwd (myproc s) of
        Some c \<Rightarrow> Ret c
      | None \<Rightarrow> if path \<noteq> [] \<and> hd path \<noteq> slash then Panic ''elock'' else Ret root)"

definition ename_cur :: "u8 list \<Rightarrow> sys \<Rightarrow> (nat option \<times> sys) res" where
  "ename_cur path s =
     bind_res (start_dir path s) (\<lambda>c. with_fs_val (\<lambda>x. bind_res (ename c path x) (\<lambda>(e, name, x1). Ret (e, x1))) s)"

text \<open>\<^verbatim>\<open>create\<close> locks the entry it returns. \<^verbatim>\<open>O_RDONLY\<close> is 0, so the test for it never holds; the recursion on the
  parent's path is bounded by the first argument.\<close>

primrec create :: "nat \<Rightarrow> nat \<Rightarrow> u8 list \<Rightarrow> int \<Rightarrow> u32 \<Rightarrow> fsys \<Rightarrow> (nat option \<times> fsys) res" where
  "create 0 c path ty mode s = Stuck"
| "create (Suc k) c path ty mode s =
     (let attr = (if ty = T_DIR then ATTR_DIRECTORY else if mode AND 0 \<noteq> 0 then ATTR_READ_ONLY else 0) in
      bind_res (enameparent c path [] s) (\<lambda>(dp, name, s1).
      bind_res (case dp of
          None \<Rightarrow> let (pname, name') = get_parent_name path in
            bind_res (create k c pname T_DIR O_RDWR s1) (\<lambda>(dp', s2). Ret (dp', name', s2))
        | Some d \<Rightarrow> bind_res (elock d s1) (\<lambda>s2. Ret (Some d, name, s2))) (\<lambda>(dp', name', s2).
      case dp' of
        None \<Rightarrow> Ret (None, s2)
      | Some d \<Rightarrow>
        bind_res (ealloc d name' attr s2) (\<lambda>(ep, s3).
        case ep of
          None \<Rightarrow> bind_res (eunlock d s3) (\<lambda>s4. bind_res (eput eput_depth d s4) (\<lambda>s5. Ret (None, s5)))
        | Some e \<Rightarrow>
          bind_res (eunlock d s3) (\<lambda>s4.
          if ty = T_DIR \<and> attribute (ents s3 e) AND ATTR_DIRECTORY = 0 \<or> ty = T_FILE \<and> attribute (ents s3 e) AND ATTR_DIRECTORY \<noteq> 0
          then bind_res (eput eput_depth e s4) (\<lambda>s5. bind_res (eput eput_depth d s5) (\<lambda>s6. Ret (None, s6)))
          else bind_res (eput eput_depth d s4) (\<lambda>s5. bind_res (elock e s5) (\<lambda>s6. Ret (Some e, s6))))))))"

definition create_cur :: "u8 list \<Rightarrow> int \<Rightarrow> u32 \<Rightarrow> sys \<Rightarrow> (nat option \<times> sys) res" where
  "create_cur path ty mode s =
     bind_res (start_dir path s) (\<lambda>c. with_fs_val (create (length path + 1) c path ty mode) s)"

definition put_entry :: "nat \<Rightarrow> sys \<Rightarrow> sys res" where
  "put_entry e s = bind_res (with_fs (eunlock e) s) (with_fs (eput eput_depth e))"

text \<open>A free file with a descriptor of the current process, for both ways to open. The file of a failed call is closed again.\<close>

definition newfile :: "sys \<Rightarrow> ((nat \<times> nat) option \<times> sys) res" where
  "newfile s =
     (case filealloc s of
        (None, s1) \<Rightarrow> Ret (None, s1)
      | (Some f, s1) \<Rightarrow>
        (case fdalloc f s1 of
           (None, s2) \<Rightarrow> bind_res (fileclose f s2) (\<lambda>s3. Ret (None, s3))
         | (Some fd, s2) \<Rightarrow> Ret (Some (f, fd), s2)))"

definition open_entry :: "nat \<Rightarrow> u32 \<Rightarrow> int \<Rightarrow> sys \<Rightarrow> (int \<times> sys) res" where
  "open_entry e omode err s =
     bind_res (newfile s) (\<lambda>(r, s1).
       case r of
         None \<Rightarrow> bind_res (put_entry e s1) (\<lambda>s2. Ret (err, s2))
       | Some (f, fd) \<Rightarrow>
         bind_res (if attribute (ents (fs s1) e) AND ATTR_DIRECTORY = 0 \<and> omode AND O_TRUNC \<noteq> 0 then with_fs (etrunc e) s1 else Ret s1) (\<lambda>s2.
           let s3 = set_file f (\<lambda>x. x\<lparr>ftype := FD_ENTRY, foff := (if omode AND O_APPEND \<noteq> 0 then file_size (ents (fs s2) e) else 0),
                      fep := e, readable := (omode AND O_WRONLY = 0), writable := (omode AND O_WRONLY \<noteq> 0 \<or> omode AND O_RDWR \<noteq> 0)\<rparr>) s2
           in bind_res (with_fs (eunlock e) s3) (\<lambda>s4. Ret (int fd, s4))))"

definition open_path :: "u8 list \<Rightarrow> u32 \<Rightarrow> sys \<Rightarrow> (int \<times> sys) res" where
  "open_path path omode s =
     (if omode AND O_CREATE \<noteq> 0
      then bind_res (create_cur path T_FILE omode s) (\<lambda>(ep, s1).
        case ep of None \<Rightarrow> Ret (-1, s1) | Some e \<Rightarrow> open_entry e omode (-1) s1)
      else bind_res (ename_cur path s) (\<lambda>(ep, s1).
        case ep of
          None \<Rightarrow> Ret (-1, s1)
        | Some e \<Rightarrow>
          bind_res (with_fs (elock e) s1) (\<lambda>s2.
            if attribute (ents (fs s2) e) AND ATTR_DIRECTORY \<noteq> 0 \<and> omode \<noteq> 0
            then bind_res (put_entry e s2) (\<lambda>s3. Ret (-1, s3))
            else open_entry e omode (-1) s2)))"

definition sys_open :: "sys \<Rightarrow> (int \<times> sys) res" where
  "sys_open s = bind_res (argstr 0 (of_nat FAT32_MAX_PATH) s) (\<lambda>p.
     case p of None \<Rightarrow> Ret (-1, s) | Some path \<Rightarrow> open_path path (of_int (argint 1 s)) s)"

definition special_path :: "u8 list \<Rightarrow> bool" where
  "special_path path \<longleftrightarrow> (\<exists>lit \<in> set [''/proc/loadavg'', ''/tmp/testsuite-'', ''/dev/zero'', ''/etc/passwd'', ''/proc/meminfo'', ''/dev/tty'',
     ''/etc/localtime'', ''/dev/misc/rtc'', ''/proc/mounts'', ''/dev/urandom'']. starts_with lit path)"

definition open_null :: "sys \<Rightarrow> (int \<times> sys) res" where
  "open_null s = bind_res (newfile s) (\<lambda>(r, s1).
     case r of
       None \<Rightarrow> Ret (-24, s1)
     | Some (f, fd) \<Rightarrow> Ret (int fd, set_file f (\<lambda>x. x\<lparr>ftype := FD_NULL, foff := 0, fep := no_ent, readable := True, writable := True\<rparr>) s1))"

text \<open>The directory of \<^verbatim>\<open>openat\<close>: a descriptor of a file that is no directory is unlocked without having been locked.\<close>

definition at_dir :: "sys \<Rightarrow> (nat option \<times> sys) res" where
  "at_dir s =
     (case argfd 0 s of
        Inl e \<Rightarrow> Ret (None, s)
      | Inr (_, f) \<Rightarrow>
        if ftype (files s f) \<noteq> FD_ENTRY then Ret (None, s)
        else let d = fep (files s f) in
          if attribute (ents (fs s) d) AND ATTR_DIRECTORY = 0 then bind_res (with_fs (eunlock d) s) (\<lambda>s1. Ret (None, s1))
          else Ret (Some d, s))"

definition openat_entry :: "nat option \<Rightarrow> u8 list \<Rightarrow> u32 \<Rightarrow> sys \<Rightarrow> (nat option \<times> sys) res" where
  "openat_entry dp path flags s =
     bind_res (start_dir path s) (\<lambda>c.
     bind_res (with_fs_val (\<lambda>x. bind_res (new_ename c dp path x) (\<lambda>(e, name, x1). Ret (e, x1))) s) (\<lambda>(ep, s1).
       case ep of
         Some e \<Rightarrow> bind_res (with_fs (elock e) s1) (\<lambda>s2. Ret (Some e, s2))
       | None \<Rightarrow>
         if flags AND O_CREATE \<noteq> 0 \<or> special_path path
         then with_fs_val (new_create (length path + 1) c dp path T_FILE flags) s1
         else Ret (None, s1)))"

text \<open>\<^verbatim>\<open>strncpy(f->ep->filename, "zero", 4)\<close> for \<^verbatim>\<open>/dev/zero\<close>.\<close>

definition name_zero :: "nat \<Rightarrow> sys \<Rightarrow> sys" where
  "name_zero e s = s\<lparr>fs := set_ent e (\<lambda>x. x\<lparr>filename := [0x7a, 0x65, 0x72, 0x6f] @ drop 4 (filename x)\<rparr>) (fs s)\<rparr>"

definition openat_done :: "nat option \<Rightarrow> nat \<Rightarrow> u8 list \<Rightarrow> int \<Rightarrow> sys \<Rightarrow> (int \<times> sys) res" where
  "openat_done dp e path fd s =
     bind_res (case dp of None \<Rightarrow> Ret s | Some d \<Rightarrow> with_fs (elock d) s) (\<lambda>s1.
       let s2 = set_exec_close (nat fd) 0 s1; s3 = (if starts_with ''/dev/zero'' path then name_zero e s2 else s2) in
       bind_res (case dp of None \<Rightarrow> Ret s3 | Some d \<Rightarrow> with_fs (eunlock d) s3) (\<lambda>s4. Ret (fd, s4)))"

definition sys_openat :: "sys \<Rightarrow> (int \<times> sys) res" where
  "sys_openat s =
     bind_res (argstr 1 (of_nat FAT32_MAX_PATH) s) (\<lambda>p.
       case p of
         None \<Rightarrow> Ret (-1, s)
       | Some path \<Rightarrow>
         if starts_with ''/dev/null'' path then open_null s
         else let flags = of_int (argint 2 s) OR O_RDWR in
           bind_res (at_dir s) (\<lambda>(dp, s1).
           bind_res (openat_entry dp path flags s1) (\<lambda>(ep, s2).
             case ep of
               None \<Rightarrow> Ret (-1, s2)
             | Some e \<Rightarrow>
               if attribute (ents (fs s2) e) AND ATTR_DIRECTORY \<noteq> 0 \<and> flags AND O_WRONLY = 0 \<and> flags AND O_RDWR = 0
               then bind_res (put_entry e s2) (\<lambda>s3. Ret (-1, s3))
               else bind_res (open_entry e flags (-24) s2) (\<lambda>(r, s3). if r < 0 then Ret (r, s3) else openat_done dp e path r s3))))"

definition sys_dev :: "sys \<Rightarrow> (int \<times> sys) res" where
  "sys_dev s =
     (let omode = of_int (argint 0 s) :: u32; maj = argint 1 s in
      if omode AND O_CREATE \<noteq> 0 then Panic ''dev file on FAT''
      else if maj < 0 \<or> maj \<ge> int NDEV then Ret (-1, s)
      else bind_res (newfile s) (\<lambda>(r, s1).
        case r of
          None \<Rightarrow> Ret (-1, s1)
        | Some (f, fd) \<Rightarrow> Ret (int fd, set_file f (\<lambda>x. x\<lparr>ftype := FD_DEVICE, foff := 0, fep := no_ent, major := maj,
            readable := (omode AND O_WRONLY = 0), writable := (omode AND O_WRONLY \<noteq> 0 \<or> omode AND O_RDWR \<noteq> 0)\<rparr>) s1)))"

section \<open>Directories\<close>

definition make_dir :: "u8 list \<Rightarrow> sys \<Rightarrow> (int \<times> sys) res" where
  "make_dir path s = bind_res (create_cur path T_DIR 0 s) (\<lambda>(ep, s1).
     case ep of None \<Rightarrow> Ret (-1, s1) | Some e \<Rightarrow> bind_res (put_entry e s1) (\<lambda>s2. Ret (0, s2)))"

definition sys_mkdir :: "sys \<Rightarrow> (int \<times> sys) res" where
  "sys_mkdir s = bind_res (argstr 0 (of_nat FAT32_MAX_PATH) s) (\<lambda>p. case p of None \<Rightarrow> Ret (-1, s) | Some path \<Rightarrow> make_dir path s)"

definition sys_mkdirat :: "sys \<Rightarrow> (int \<times> sys) res" where
  "sys_mkdirat s = bind_res (argstr 1 (of_nat FAT32_MAX_PATH) s) (\<lambda>p.
     case p of None \<Rightarrow> Ret (-1, s) | Some path \<Rightarrow> if length path = 1 then Ret (0, s) else make_dir path s)"

definition sys_chdir :: "sys \<Rightarrow> (int \<times> sys) res" where
  "sys_chdir s =
     bind_res (argstr 0 (of_nat FAT32_MAX_PATH) s) (\<lambda>p.
       case p of
         None \<Rightarrow> Ret (-1, s)
       | Some path \<Rightarrow>
         bind_res (ename_cur path s) (\<lambda>(ep, s1).
           case ep of
             None \<Rightarrow> Ret (-1, s1)
           | Some e \<Rightarrow>
             bind_res (with_fs (elock e) s1) (\<lambda>s2.
               if attribute (ents (fs s2) e) AND ATTR_DIRECTORY = 0 then bind_res (put_entry e s2) (\<lambda>s3. Ret (-1, s3))
               else bind_res (with_fs (eunlock e) s2) (\<lambda>s3.
                 bind_res (case cwd (myproc s3) of None \<Rightarrow> Panic ''null pointer'' | Some d \<Rightarrow> with_fs (eput eput_depth d) s3) (\<lambda>s4.
                   Ret (0, set_proc (cur s4) (\<lambda>q. q\<lparr>cwd := Some e\<rparr>) s4))))))"

text \<open>The entries after the first two of a directory.\<close>

definition isdirempty :: "nat \<Rightarrow> sys \<Rightarrow> (bool \<times> sys) res" where
  "isdirempty dp s =
     bind_res (enext dp local_ent 64 0 (fsview s)) (\<lambda>(r, count, x). Ret (r = -1, s\<lparr>fs := x\<rparr>))"

text \<open>A path whose last element, trailing slashes aside, is a single dot.\<close>

definition ends_in_dot :: "u8 list \<Rightarrow> bool" where
  "ends_in_dot path =
     (case dropWhile (\<lambda>c. c = slash) (rev path) of
        [] \<Rightarrow> False
      | c # rest \<Rightarrow> c = dot \<and> (rest = [] \<or> hd rest = slash))"

definition remove_entry :: "nat \<Rightarrow> sys \<Rightarrow> (int \<times> sys) res" where
  "remove_entry e s =
     bind_res (with_fs (elock e) s) (\<lambda>s1.
     bind_res (if attribute (ents (fs s1) e) AND ATTR_DIRECTORY \<noteq> 0 then isdirempty e s1 else Ret (True, s1)) (\<lambda>(ok, s2).
       if \<not> ok then bind_res (put_entry e s2) (\<lambda>s3. Ret (-1, s3))
       else let d = parent (ents (fs s2) e) in
         bind_res (with_fs (elock d) s2) (\<lambda>s3. bind_res (with_fs (eremove e) s3) (\<lambda>s4.
         bind_res (with_fs (eunlock d) s4) (\<lambda>s5. bind_res (put_entry e s5) (\<lambda>s6. Ret (0, s6)))))))"

definition sys_remove :: "sys \<Rightarrow> (int \<times> sys) res" where
  "sys_remove s =
     bind_res (argstr 0 (of_nat FAT32_MAX_PATH) s) (\<lambda>p.
       case p of
         None \<Rightarrow> Ret (-1, s)
       | Some path \<Rightarrow>
         if path = [] \<or> ends_in_dot path then Ret (-1, s)
         else bind_res (ename_cur path s) (\<lambda>(ep, s1). case ep of None \<Rightarrow> Ret (-1, s1) | Some e \<Rightarrow> remove_entry e s1))"

text \<open>\<^verbatim>\<open>unlinkat\<close> does the same except for the files of one test suite, which it looks up and leaves alone.\<close>

definition sys_unlinkat :: "sys \<Rightarrow> (int \<times> sys) res" where
  "sys_unlinkat s =
     bind_res (argstr 1 (of_nat FAT32_MAX_PATH) s) (\<lambda>p.
       case p of
         None \<Rightarrow> Ret (-1, s)
       | Some path \<Rightarrow>
         if path = [] \<or> ends_in_dot path then Ret (-1, s)
         else bind_res (ename_cur path s) (\<lambda>(ep, s1).
           if starts_with ''/tmp/testsuite-'' path then Ret (0, s1)
           else case ep of None \<Rightarrow> Ret (-1, s1) | Some e \<Rightarrow> remove_entry e s1))"

text \<open>\<^verbatim>\<open>getcwd\<close> fills a buffer from its end: \<open>pos\<close> is the place of the bytes \<open>out\<close> written so far. Only the root has no
  parent, and a chain of parents is no longer than the entry cache.\<close>

primrec getcwd_loop :: "nat \<Rightarrow> (nat \<Rightarrow> dirent) \<Rightarrow> nat \<Rightarrow> nat \<Rightarrow> u8 list \<Rightarrow> u8 list option res" where
  "getcwd_loop 0 es e pos out = Stuck"
| "getcwd_loop (Suc k) es e pos out =
     (if e = root then Ret (Some out)
      else let name = cstr (filename (es e)) in
        if pos \<le> length name then Ret None
        else getcwd_loop k es (parent (es e)) (pos - length name - 1) (slash # name @ out))"

definition sys_getcwd :: "sys \<Rightarrow> (u64 \<times> sys) res" where
  "sys_getcwd s =
     (let addr = argaddr 0 s in
      case cwd (myproc s) of
        None \<Rightarrow> Panic ''null pointer''
      | Some d \<Rightarrow>
        bind_res (if d = root then Ret (Some [slash, 0]) else getcwd_loop eput_depth (ents (fs s)) d (FAT32_MAX_PATH - 1) [0]) (\<lambda>p.
          case p of
            None \<Rightarrow> Ret (-1, s)
          | Some bs \<Rightarrow> bind_res (copyout_cur addr bs s) (\<lambda>(r, s1). Ret (if r < 0 then -1 else addr, s1))))"

end
