(* ===== verification/Proc.thy ===== *)
theory Proc
  imports Sysfile
begin

text \<open>
  \<^verbatim>\<open>kernel/proc.c\<close>: the process table. Each operation runs under the locks its code takes and up to the point where it
  returns, sleeps or gives up the CPU; \<^verbatim>\<open>exit\<close> is split where it holds no lock. The kernel stack switch \<^verbatim>\<open>swtch\<close> and
  the saved registers of a running process are not part of the state.
\<close>

section \<open>The table\<close>

definition zero_sigaction :: sigaction where
  "zero_sigaction = \<lparr>sa_handler = 0, sa_mask = 0, sa_flags = 0\<rparr>"

definition zero_ctx :: ctx where
  "zero_ctx = \<lparr>cra = 0, csp = 0, csaved = replicate 9 0, cfp = 0\<rparr>"

definition copycontext :: "ctx \<Rightarrow> ctx \<Rightarrow> ctx" where
  "copycontext t1 t2 = t1\<lparr>cra := cra t2, csp := csp t2, csaved := csaved t2, cfp := cfp t2\<rparr>"

definition procinit :: "sys \<Rightarrow> sys" where
  "procinit s = s\<lparr>procs := (\<lambda>i. if i < NPROC
     then (procs s i)\<lparr>pstate := UNUSED, pparent := None, pchan := None, killed := 0, xstate := 0, pid := 0, kstack := PROCVKSTACK i,
            psz := 0, pagetable := 0, ptrapframe := 0, ofile := (\<lambda>fd. if fd < NOFILE then None else ofile (procs s i) fd), cwd := None,
            pname := 0 # tl (pname (procs s i)), pvma := 0, tmask := 0, ktime := 0, utime := 0,
            sigactions := (\<lambda>_. zero_sigaction), sig_set := 0, sig_pending := 0, sig_tf := 0\<rparr>
     else procs s i)\<rparr>"

text \<open>Beyond the largest \<^verbatim>\<open>int\<close> the increment is undefined: the model stops there.\<close>

definition allocpid :: "sys \<Rightarrow> (int \<times> sys) res" where
  "allocpid s = (if nextpid s \<ge> 0x7fffffff then Stuck else Ret (nextpid s, s\<lparr>nextpid := nextpid s + 1\<rparr>))"

definition get_proc_addr_num :: "nat \<Rightarrow> int" where
  "get_proc_addr_num i = (if i < NPROC then int i else -1)"

definition procnum :: "sys \<Rightarrow> nat" where
  "procnum s = length (filter (\<lambda>i. pstate (procs s i) \<noteq> UNUSED) [0..<NPROC])"

section \<open>Address spaces of processes\<close>

text \<open>\<^verbatim>\<open>PTE_NX\<close> does not fit into the permissions that \<open>mappages\<close> takes.\<close>

definition tramp_perm :: u32 where "tramp_perm = ucast (PTE_P OR PTE_MAT OR PTE_D)"
definition tf_perm :: u32 where "tf_perm = ucast (PTE_NX OR PTE_P OR PTE_W OR PTE_MAT OR PTE_D)"

definition map_one :: "u64 \<Rightarrow> u64 \<Rightarrow> u64 \<Rightarrow> u32 \<Rightarrow> sys \<Rightarrow> (int \<times> sys) res" where
  "map_one pt va pa perm = with_kmem_val (mappages pt va PGSIZE pa perm)"

definition drop_pagetable :: "u64 \<Rightarrow> sys \<Rightarrow> (u64 \<times> sys) res" where
  "drop_pagetable pt s = bind_res (with_kmem (uvmfree pt 0) s) (\<lambda>s'. Ret (0, s'))"

definition map_trampolines :: "nat \<Rightarrow> u64 \<Rightarrow> sys \<Rightarrow> (u64 \<times> sys) res" where
  "map_trampolines i pt s =
     bind_res (map_one pt TRAMPOLINE (tramp s) tramp_perm s) (\<lambda>(r, s1).
       if r < 0 then drop_pagetable pt s1
       else bind_res (map_one pt TRAPFRAME (ptrapframe (procs s1 i)) tf_perm s1) (\<lambda>(r, s2).
         if r < 0 then bind_res (with_kmem (vmunmap pt TRAMPOLINE 1 False) s2) (drop_pagetable pt)
         else bind_res (map_one pt SIGTRAMPOLINE (sigtramp s2) tramp_perm s2) (\<lambda>(r, s3).
           if r < 0 then bind_res (with_kmem (vmunmap pt TRAMPOLINE 1 False) s3) (\<lambda>s4.
             bind_res (with_kmem (vmunmap pt TRAPFRAME 1 False) s4) (drop_pagetable pt))
           else Ret (pt, s3))))"

definition proc_pagetable :: "nat \<Rightarrow> sys \<Rightarrow> (u64 \<times> sys) res" where
  "proc_pagetable i s =
     (case uvmcreate (kmem s) of (pt, k) \<Rightarrow>
        let s1 = set_kmem k s in
        if pt = 0 then Ret (0, s1)
        else bind_res (with_vma_val (vma_init (pagetable (procs s1 i))) s1) (\<lambda>(v, s2).
          if v = 0 then drop_pagetable pt s2
          else map_trampolines i pt (set_proc i (\<lambda>p. p\<lparr>pvma := v\<rparr>) s2)))"

definition proc_freepagetable :: "u64 \<Rightarrow> u64 \<Rightarrow> kstate \<Rightarrow> kstate res" where
  "proc_freepagetable pt sz k =
     bind_res (vmunmap pt TRAMPOLINE 1 False k) (\<lambda>k1. bind_res (vmunmap pt TRAPFRAME 1 False k1) (uvmfree pt sz))"

definition free_areas :: "nat \<Rightarrow> sys \<Rightarrow> sys res" where
  "free_areas i s =
     bind_res (with_vma_val (\<lambda>v. bind_res (free_vma_list (pagetable (procs s i)) (pvma (procs s i)) v) (\<lambda>v1. Ret ((), v1))) s) (\<lambda>(_, s1). Ret s1)"

definition freeproc :: "nat \<Rightarrow> sys \<Rightarrow> sys res" where
  "freeproc i s =
     (let p = procs s i in
      bind_res (if ptrapframe p \<noteq> 0 then with_kmem (kfree (ptrapframe p)) s else Ret s) (\<lambda>s1.
      bind_res (with_kmem (kfree (exec_close p)) s1) (\<lambda>s2.
      bind_res (if pagetable p \<noteq> 0
          then bind_res (free_areas i s2) (with_kmem (proc_freepagetable (pagetable p) (psz p)))
          else Ret s2) (\<lambda>s3.
      Ret (set_proc i (\<lambda>p. p\<lparr>ptrapframe := 0, pagetable := 0, pvma := 0, psz := 0, pid := 0, pparent := None,
             pname := 0 # tl (pname p), pchan := None, killed := 0, xstate := 0, pstate := UNUSED\<rparr>) s3)))))"

text \<open>\<^verbatim>\<open>allocproc\<close> in three parts: the fields of the slot, the trapframe and the address space, and the rest. The slot stays
  \<^verbatim>\<open>UNUSED\<close> until the caller makes the process runnable. A null \<^verbatim>\<open>exec_close\<close> is written through.\<close>

definition alloc_finish :: "nat \<Rightarrow> sys \<Rightarrow> (nat option \<times> sys) res" where
  "alloc_finish i s =
     (case kalloc (kmem s) of (ec, k) \<Rightarrow>
        if ec = 0 then Panic ''null pointer''
        else Ret (Some i, set_proc i (\<lambda>p. p\<lparr>kstack := PROCVKSTACK i, exec_close := ec,
                 pcontext := zero_ctx\<lparr>cra := forkret_addr s, csp := PROCVKSTACK i + KSTACKSIZE\<rparr>\<rparr>)
               (set_kmem (k\<lparr>mem := write_bytes (mem k) ec (replicate (4 * NOFILE) 0)\<rparr>) s)))"

definition alloc_space :: "nat \<Rightarrow> sys \<Rightarrow> (nat option \<times> sys) res" where
  "alloc_space i s =
     (case kalloc (kmem s) of (tf, k) \<Rightarrow>
        if tf = 0 then Ret (None, set_proc i (\<lambda>p. p\<lparr>ptrapframe := 0\<rparr>) (set_kmem k s))
        else bind_res (proc_pagetable i
              (set_proc i (\<lambda>p. p\<lparr>ptrapframe := tf\<rparr>) (set_kmem (k\<lparr>mem := memset (mem k) tf 0 4096\<rparr>) s))) (\<lambda>(pt, s1).
            let s2 = set_proc i (\<lambda>p. p\<lparr>pagetable := pt\<rparr>) s1 in
            if pt = 0 then bind_res (freeproc i s2) (\<lambda>s3. Ret (None, s3)) else alloc_finish i s2))"

definition allocproc :: "sys \<Rightarrow> (nat option \<times> sys) res" where
  "allocproc s =
     (case find (\<lambda>i. pstate (procs s i) = UNUSED) [0..<NPROC] of
        None \<Rightarrow> Ret (None, s)
      | Some i \<Rightarrow>
        bind_res (allocpid s) (\<lambda>(n, s1).
          alloc_space i (set_proc i (\<lambda>p. p\<lparr>pid := n, pvma := 0, filelimit := of_nat NOFILE, ktime := 1, utime := 1, uid := 0, gid := 0, pgid := 0,
            sigactions := (\<lambda>_. zero_sigaction), sig_set := 0, sig_pending := 0\<rparr>) s1)))"

section \<open>The first process\<close>

text \<open>\<^verbatim>\<open>safestrcpy\<close> of a name of 16 bytes: up to 15 bytes before the first zero, then a zero, and one more after a copied zero.\<close>

definition copy_name :: "u8 list \<Rightarrow> u8 list \<Rightarrow> u8 list" where
  "copy_name src old =
     (let t = takeWhile (\<lambda>c. c \<noteq> 0) (take 15 src) in
      if length t = 15 then t @ [0] else t @ [0, 0] @ drop (length t + 2) old)"

text \<open>Fields of the trapframe: \<^verbatim>\<open>sp\<close> at 16, \<^verbatim>\<open>a0\<close> at 24, \<^verbatim>\<open>era\<close> at 264; 288 bytes in all.\<close>

definition set_tf :: "nat \<Rightarrow> u64 \<Rightarrow> u64 \<Rightarrow> sys \<Rightarrow> sys" where
  "set_tf i off v s = set_kmem ((kmem s)\<lparr>mem := store64 (mem (kmem s)) (ptrapframe (procs s i) + off) v\<rparr>) s"

definition tf_size :: nat where [simp]: "tf_size = 288"

definition userinit :: "sys \<Rightarrow> sys res" where
  "userinit s =
     bind_res (allocproc s) (\<lambda>(r, s1).
       case r of
         None \<Rightarrow> Panic ''null pointer''
       | Some i \<Rightarrow>
         bind_res (with_kmem (uvminit (pagetable (procs s1 i)) (initcode s1) (initcodesize s1)) (s1\<lparr>initproc := i\<rparr>)) (\<lambda>s2.
         let s3 = set_proc i (\<lambda>p. p\<lparr>psz := PGROUNDUP (ucast (initcodesize s2))\<rparr>) s2 in
         bind_res (with_vma_val (alloc_vma_stack (pvma (procs s3 i)) (pagetable (procs s3 i))) s3) (\<lambda>(_, s4).
         bind_res (get_proc_sp (pvma (procs s4 i)) \<lparr>vkst = kmem s4, vmas = vareas s4\<rparr>) (\<lambda>sp.
         let s5 = set_tf i 264 0 (set_tf i 16 sp s4) in
         Ret (set_proc i (\<lambda>p. p\<lparr>pname := copy_name (map (of_nat \<circ> of_char) ''initcode'' @ [0]) (pname p), pstate := RUNNABLE, tmask := 0\<rparr>) s5)))))"

text \<open>The size of a process is computed in 32 bits.\<close>

definition growproc :: "int \<Rightarrow> sys \<Rightarrow> (int \<times> sys) res" where
  "growproc n s =
     (let p = myproc s; sz = ucast (psz p) :: u32; sum32 = sz + of_int n in
      if n > 0
      then bind_res (with_kmem_val (uvmalloc (pagetable p) (ucast sz) (ucast sum32) (ucast (PTE_P OR PTE_W))) s) (\<lambda>(r, s1).
        if (ucast r :: u32) = 0 then Ret (-1, s1) else Ret (0, set_proc (cur s1) (\<lambda>p. p\<lparr>psz := ucast (ucast r :: u32)\<rparr>) s1))
      else if n < 0
      then bind_res (with_kmem_val (uvmdealloc (pagetable p) (ucast sz) (ucast sum32)) s) (\<lambda>(r, s1).
        Ret (0, set_proc (cur s1) (\<lambda>p. p\<lparr>psz := ucast (ucast r :: u32)\<rparr>) s1))
      else Ret (0, set_proc (cur s) (\<lambda>p. p\<lparr>psz := ucast sz\<rparr>) s))"


section \<open>Creating processes\<close>

text \<open>The fields of the new list head that \<^verbatim>\<open>vma_copy\<close> does not set keep the byte 5 with which \<open>kalloc\<close> fills a page.\<close>

definition fives_vma :: vma where
  "fives_vma = \<lparr>vtype = NONE, vperm = 0x05050505, vaddr = 0x0505050505050505, vsz = 0x0505050505050505, vend = 0x0505050505050505,
     vflags = 0x05050505, vfd = 0x05050505, vfoff = 0x0505050505050505, vprev = 0, vnext = 0\<rparr>"

text \<open>The loop over the copied areas. When an area cannot be mapped, \<^verbatim>\<open>fork\<close> returns with \<^verbatim>\<open>np->lock\<close> held and the slot
  half built; the next scan of the table waits for that lock forever, and the model stops there.\<close>

primrec map_areas :: "nat \<Rightarrow> u64 \<Rightarrow> u64 \<Rightarrow> u64 \<Rightarrow> u64 \<Rightarrow> sys \<Rightarrow> sys res" where
  "map_areas 0 old new hv v s = Stuck"
| "map_areas (Suc n) old new hv v s =
     (if v = hv then Ret s
      else bind_res (with_kmem_val (vma_map old new (vareas s v)) s) (\<lambda>(r, s1).
        if r < 0 then Stuck else map_areas n old new hv (vnext (vareas s1 v)) s1))"

definition copy_areas :: "nat \<Rightarrow> nat \<Rightarrow> sys \<Rightarrow> sys res" where
  "copy_areas p np s =
     bind_res (with_vma_val (vma_copy fives_vma (pvma (procs s p))) s) (\<lambda>(v, s1).
       let s2 = set_proc np (\<lambda>q. q\<lparr>pvma := v\<rparr>) s1 in
       if v = 0 then Ret s2
       else map_areas vma_bound (pagetable (procs s2 p)) (pagetable (procs s2 np)) v (vnext (vareas s2 v)) s2)"

primrec dup_files :: "nat list \<Rightarrow> nat \<Rightarrow> nat \<Rightarrow> sys \<Rightarrow> sys res" where
  "dup_files [] p np s = Ret s"
| "dup_files (fd # fds) p np s =
     (case ofile (procs s p) fd of
        None \<Rightarrow> dup_files fds p np s
      | Some f \<Rightarrow> bind_res (filedup f s) (\<lambda>s1. dup_files fds p np (set_proc np (\<lambda>q. q\<lparr>ofile := (ofile q)(fd := Some f)\<rparr>) s1)))"

definition copy_tf :: "nat \<Rightarrow> nat \<Rightarrow> sys \<Rightarrow> sys" where
  "copy_tf p np s =
     set_kmem ((kmem s)\<lparr>mem := write_bytes (mem (kmem s)) (ptrapframe (procs s np))
       (read_bytes (mem (kmem s)) (ptrapframe (procs s p)) tf_size)\<rparr>) s"

text \<open>What \<^verbatim>\<open>fork\<close> and \<^verbatim>\<open>clone\<close> have in common, up to the last assignments to the child.\<close>

definition copy_process :: "sys \<Rightarrow> (nat option \<times> sys) res" where
  "copy_process s =
     (let p = cur s in
      bind_res (allocproc s) (\<lambda>(r, s1).
        case r of
          None \<Rightarrow> Ret (None, s1)
        | Some np \<Rightarrow>
          bind_res (with_kmem_val (uvmcopy (pagetable (procs s1 p)) (pagetable (procs s1 np)) (psz (procs s1 p))) s1) (\<lambda>(e, s2).
            if e < 0 then bind_res (freeproc np s2) (\<lambda>s3. Ret (None, s3))
            else bind_res (copy_areas p np s2) (\<lambda>s3.
              let s4 = set_proc np (\<lambda>q. q\<lparr>psz := psz (procs s3 p), pparent := Some p, tmask := tmask (procs s3 p)\<rparr>) s3;
                  s5 = set_tf np 24 0 (copy_tf p np s4) in
              bind_res (dup_files [0..<NOFILE] p np s5) (\<lambda>s6.
                let s7 = (case cwd (procs s6 p) of None \<Rightarrow> s6 | Some d \<Rightarrow> s6\<lparr>fs := edup d (fs s6)\<rparr>) in
                Ret (Some np, set_proc np (\<lambda>q. q\<lparr>cwd := cwd (procs s7 p), pname := copy_name (pname (procs s7 p)) (pname q),
                       pstate := RUNNABLE\<rparr>) s7))))))"

definition fork :: "sys \<Rightarrow> (int \<times> sys) res" where
  "fork s = bind_res (copy_process s) (\<lambda>(r, s1). Ret (case r of None \<Rightarrow> -1 | Some np \<Rightarrow> pid (procs s1 np), s1))"

definition clone :: "u64 \<Rightarrow> u64 \<Rightarrow> sys \<Rightarrow> (int \<times> sys) res" where
  "clone new_stack new_fn s = bind_res (copy_process s) (\<lambda>(r, s1).
     case r of None \<Rightarrow> Ret (-1, s1) | Some np \<Rightarrow> Ret (pid (procs s1 np), set_tf np 16 new_stack (set_tf np 264 new_fn s1)))"

section \<open>Ending and waiting\<close>

definition reparent :: "nat \<Rightarrow> sys \<Rightarrow> sys" where
  "reparent p s = s\<lparr>procs := (\<lambda>i. if i < NPROC \<and> pparent (procs s i) = Some p
     then (procs s i)\<lparr>pparent := Some (initproc s)\<rparr> else procs s i)\<rparr>"

definition wakeup1 :: "nat \<Rightarrow> sys \<Rightarrow> sys" where
  "wakeup1 p s = set_proc p (wake_proc (ProcChan p)) s"

primrec close_files :: "nat list \<Rightarrow> sys \<Rightarrow> sys res" where
  "close_files [] s = Ret s"
| "close_files (fd # fds) s =
     (case ofile (myproc s) fd of
        None \<Rightarrow> close_files fds s
      | Some f \<Rightarrow> bind_res (fileclose f s) (\<lambda>s1. close_files fds (set_fd fd None s1)))"

text \<open>\<^verbatim>\<open>exit\<close> up to the point where it has read its parent; the parent is the result.\<close>

definition exit_begin :: "sys \<Rightarrow> (nat \<times> sys) res" where
  "exit_begin s =
     (if cur s = initproc s then Panic ''init exiting''
      else bind_res (close_files [0..<NOFILE] s) (\<lambda>s1.
        case cwd (myproc s1) of
          None \<Rightarrow> Panic ''null pointer''
        | Some d \<Rightarrow>
          bind_res (with_fs (eput eput_depth d) s1) (\<lambda>s2.
            let s3 = wakeup1 (initproc s2) (set_proc (cur s2) (\<lambda>p. p\<lparr>cwd := None\<rparr>) s2) in
            case pparent (myproc s3) of None \<Rightarrow> Panic ''null pointer'' | Some q \<Rightarrow> Ret (q, s3))))"

text \<open>The rest of \<^verbatim>\<open>exit\<close>, under the locks of the process and of the parent read before.\<close>

definition exit_end :: "int \<Rightarrow> nat \<Rightarrow> sys \<Rightarrow> sys" where
  "exit_end status q s =
     (let p = cur s; s1 = wakeup1 q (reparent p s); s2 = set_proc q (wake_proc (ProcChan p)) s1
      in set_proc p (\<lambda>x. x\<lparr>xstate := of_int status, pstate := ZOMBIE\<rparr>) s2)"

definition exit :: "int \<Rightarrow> sys \<Rightarrow> sys res" where
  "exit status s = bind_res (exit_begin s) (\<lambda>(q, s1). Ret (exit_end status q s1))"

definition sleep :: "channel \<Rightarrow> sys \<Rightarrow> sys" where
  "sleep c s = set_proc (cur s) (\<lambda>p. p\<lparr>pchan := Some c, pstate := SLEEPING\<rparr>) s"

definition yield :: "sys \<Rightarrow> sys" where
  "yield s = set_proc (cur s) (\<lambda>p. p\<lparr>pstate := RUNNABLE\<rparr>) s"

definition is_child :: "nat \<Rightarrow> sys \<Rightarrow> nat \<Rightarrow> bool" where
  "is_child p s i \<longleftrightarrow> pparent (procs s i) = Some p"

text \<open>Copying the exit status out and freeing the child.\<close>

definition reap :: "nat \<Rightarrow> u64 \<Rightarrow> sys \<Rightarrow> (call \<times> sys) res" where
  "reap c addr s =
     bind_res (if addr \<noteq> 0 then copyout_cur addr (le_bytes 4 (xstate (procs s c))) s else Ret (0, s)) (\<lambda>(r, s1).
       if r < 0 then Ret (Return (-1), s1)
       else bind_res (freeproc c s1) (\<lambda>s2. Ret (Return (pid (procs s c)), s2)))"

text \<open>One round of \<^verbatim>\<open>wait\<close>. A call that sleeps starts over with the next round.\<close>

definition wait :: "u64 \<Rightarrow> sys \<Rightarrow> (call \<times> sys) res" where
  "wait addr s =
     (let p = cur s in
      case find (\<lambda>i. is_child p s i \<and> pstate (procs s i) = ZOMBIE) [0..<NPROC] of
        Some c \<Rightarrow> reap c addr s
      | None \<Rightarrow>
        if filter (is_child p s) [0..<NPROC] = [] \<or> killed (myproc s) \<noteq> 0 then Ret (Return (-1), s)
        else Ret (Wait (ProcChan p) Begin, sleep (ProcChan p) s))"

text \<open>\<^verbatim>\<open>findchild\<close>: a dead child that matches, and the last child that matches if there is none.\<close>

definition findchild :: "nat \<Rightarrow> int \<Rightarrow> sys \<Rightarrow> nat option \<times> nat option" where
  "findchild p n s =
     (let match = (\<lambda>i. (n = -1 \<or> pid (procs s i) = n) \<and> is_child p s i) in
      case find (\<lambda>i. match i \<and> pstate (procs s i) = ZOMBIE) [0..<NPROC] of
        Some c \<Rightarrow> (Some c, Some c)
      | None \<Rightarrow> (None, if filter match [0..<NPROC] = [] then None else Some (last (filter match [0..<NPROC]))))"

definition wait4pid :: "int \<Rightarrow> u64 \<Rightarrow> sys \<Rightarrow> (call \<times> sys) res" where
  "wait4pid n addr s =
     (let p = cur s in
      case findchild p n s of
        (Some c, _) \<Rightarrow> reap c addr (set_proc c (\<lambda>x. x\<lparr>xstate := push_bit 8 (xstate x)\<rparr>) s)
      | (None, None) \<Rightarrow> Ret (Return (-1), s)
      | (None, Some t) \<Rightarrow> let c = (if n = -1 then ProcChan p else ProcChan t) in Ret (Wait c Begin, sleep c s))"

definition kill :: "int \<Rightarrow> int \<Rightarrow> sys \<Rightarrow> int \<times> sys" where
  "kill n sig s =
     (case find (\<lambda>i. pid (procs s i) = n) [0..<NPROC] of
        None \<Rightarrow> (-1, s)
      | Some i \<Rightarrow> (0, set_proc i (\<lambda>p. p\<lparr>
          sig_pending := sig_pending p OR scast (push_bit (nat sig) (1 :: u32)),
          killed := (if killed p = 0 \<or> killed p > sig then sig else killed p),
          pstate := (if pstate p = SLEEPING then RUNNABLE else pstate p)\<rparr>) s))"

definition tgkill :: "int \<Rightarrow> int \<Rightarrow> int \<Rightarrow> sys \<Rightarrow> int \<times> sys" where
  "tgkill tid tgid sig s = kill tid sig s"

section \<open>Scheduling\<close>

text \<open>The visit of one slot by the loop of \<^verbatim>\<open>scheduler\<close>. A process that wakes up clears its channel before it goes on.\<close>

definition scheduler_visit :: "nat \<Rightarrow> sys \<Rightarrow> sys" where
  "scheduler_visit i s =
     (if pstate (procs s i) = RUNNABLE then set_proc i (\<lambda>p. p\<lparr>pstate := RUNNING, pchan := None\<rparr>) s else s)"

text \<open>\<^verbatim>\<open>forkret\<close>, where a new process starts; the first of all sets up the file system.\<close>

definition forkret :: "bool \<Rightarrow> sys \<Rightarrow> sys res" where
  "forkret first s =
     (if \<not> first then Ret s
      else bind_res (with_fs_val fat32_init s) (\<lambda>(_, s1).
        bind_res (with_fs_val (\<lambda>x. bind_res (ename root [slash] x) (\<lambda>(e, name, x1). Ret (e, x1))) s1) (\<lambda>(e, s2).
          Ret (set_proc (cur s2) (\<lambda>p. p\<lparr>cwd := e\<rparr>) s2))))"

end
