(* ===== verification/Signal.thy ===== *)
theory Signal
  imports Proc
begin

text \<open>
  \<^verbatim>\<open>kernel/signal.c\<close> and \<^verbatim>\<open>kernel/syssig.c\<close>: actions, masks, delivery of a signal to a handler and the return from it.
\<close>

section \<open>Operations\<close>

definition SIGKILL :: nat where [simp]: "SIGKILL = 9"
definition SIGTERM :: nat where [simp]: "SIGTERM = 15"
definition SIGSTOP :: nat where [simp]: "SIGSTOP = 19"
definition SIGRTMAX :: nat where [simp]: "SIGRTMAX = 64"

text \<open>The old action is given back only when it has a handler; otherwise the caller's variable stays as it is.\<close>

definition set_sigaction :: "nat \<Rightarrow> sigaction option \<Rightarrow> sigaction option \<Rightarrow> sys \<Rightarrow> sigaction option \<times> sys" where
  "set_sigaction signum act oldact s =
     (let a = sigactions (myproc s) signum in
      (if sa_handler a \<noteq> 0 \<and> oldact \<noteq> None then Some a else oldact,
       case act of None \<Rightarrow> s | Some b \<Rightarrow> set_proc (cur s) (\<lambda>p. p\<lparr>sigactions := (sigactions p)(signum := b)\<rparr>) s))"

text \<open>The last assignment keeps only the three signals named by the comment above it.\<close>

definition sigprocmask :: "int \<Rightarrow> u64 option \<Rightarrow> sys \<Rightarrow> u64 \<times> sys" where
  "sigprocmask how set1 s =
     (let old = sig_set (myproc s);
          new = (case set1 of
                   None \<Rightarrow> old
                 | Some w \<Rightarrow> if how = 0 then old OR w else if how = 1 then old AND NOT w else if how = 2 then w else old) in
      (old, set_proc (cur s) (\<lambda>p. p\<lparr>sig_set := new AND (push_bit SIGTERM 1 OR push_bit SIGKILL 1 OR push_bit SIGSTOP 1)\<rparr>) s))"

definition rt_sigreturn :: "sys \<Rightarrow> (u64 \<times> sys) res" where
  "rt_sigreturn s =
     (let p = myproc s; k = kmem s; k1 = k\<lparr>mem := memcpy (mem k) (ptrapframe p) (sig_tf p) (of_nat tf_size)\<rparr> in
      bind_res (kfree (sig_tf p) k1) (\<lambda>k2.
        Ret (load64 (mem k2) (ptrapframe p + 24), set_proc (cur s) (\<lambda>q. q\<lparr>sig_tf := 0\<rparr>) (set_kmem k2 s))))"

definition sighandle :: "sys \<Rightarrow> sys res" where
  "sighandle s =
     (let p = myproc s; signum = killed p; h = sa_handler (sigactions p (nat signum)) in
      if h = 0 then exit (-1) s
      else case kalloc (kmem s) of (t, k) \<Rightarrow>
        if t = 0 then Panic ''null pointer''
        else let m1 = memcpy (mem k) t (ptrapframe p) (of_nat tf_size);
                 m2 = store64 m1 (ptrapframe p + 264) h;
                 m3 = store64 m2 (ptrapframe p) SIGTRAMPOLINE;
                 m4 = store64 m3 (ptrapframe p + 16) (load64 m3 (ptrapframe p + 16) - PGSIZE);
                 pend = sig_pending p AND NOT (push_bit (nat signum) 1) in
          Ret (set_proc (cur s) (\<lambda>q. q\<lparr>sig_tf := t, sig_pending := pend, killed := (if pend = 0 then 0 else killed q)\<rparr>)
                 (set_kmem (k\<lparr>mem := m4\<rparr>) s)))"

text \<open>A \<^verbatim>\<open>sigaction\<close> is 24 bytes: handler, mask, flags and four bytes of padding.\<close>

definition sigaction_of :: "u8 list \<Rightarrow> sigaction" where
  "sigaction_of bs = \<lparr>sa_handler = le_word (take 8 bs), sa_mask = le_word (take 8 (drop 8 bs)), sa_flags = le_word (take 4 (drop 16 bs))\<rparr>"

definition sigaction_bytes :: "sigaction \<Rightarrow> u8 list" where
  "sigaction_bytes a = le_bytes 8 (sa_handler a) @ le_bytes 8 (sa_mask a) @ le_bytes 4 (sa_flags a) @ replicate 4 0"

definition sys_rt_sigaction :: "sys \<Rightarrow> (int \<times> sys) res" where
  "sys_rt_sigaction s =
     (let signum = argint 0 s; uact = argaddr 1 s; uold = argaddr 2 s in
      if signum < 0 \<or> signum > int SIGRTMAX then Ret (-1, s)
      else bind_res (if uact \<noteq> 0 then bind_res (copyin_cur uact 24 s) (\<lambda>(r, bs). Ret (r, Some (sigaction_of bs))) else Ret (0, None)) (\<lambda>(r, act).
        if r < 0 then Ret (-1, s)
        else case set_sigaction (nat signum) act (if uold \<noteq> 0 then Some zero_sigaction else None) s of (old, s1) \<Rightarrow>
          (case old of
             None \<Rightarrow> Ret (0, s1)
           | Some a \<Rightarrow> bind_res (copyout_cur uold (sigaction_bytes a) s1) (\<lambda>(r, s2). Ret (if r < 0 then -1 else 0, s2)))))"

text \<open>\<^verbatim>\<open>sigprocmask\<close> always gets the address of the local \<^verbatim>\<open>set\<close>, which holds what was on the stack when the call gave
  no set.\<close>

definition sys_rt_sigprocmask :: "sys \<Rightarrow> (int \<times> sys) res" where
  "sys_rt_sigprocmask s =
     (let how = argint 0 s; uset = argaddr 1 s; uold = argaddr 2 s; junk = le_word (get_local 8 (fs s)) in
      bind_res (if uset \<noteq> 0 then bind_res (copyin_cur uset 8 s) (\<lambda>(r, bs). Ret (r, le_word bs)) else Ret (0, junk)) (\<lambda>(r, w).
        if r < 0 then Ret (-1, s)
        else case sigprocmask how (Some w) s of (old, s1) \<Rightarrow>
          if uold = 0 then Ret (0, s1)
          else bind_res (copyout_cur uold (le_bytes 8 old) s1) (\<lambda>(r, s2). Ret (if r < 0 then -1 else 0, s2))))"

definition sys_rt_sigreturn :: "sys \<Rightarrow> (u64 \<times> sys) res" where
  "sys_rt_sigreturn s = rt_sigreturn s"

definition sys_tgkill :: "sys \<Rightarrow> int \<times> sys" where
  "sys_tgkill s = tgkill (argint 1 s) (argint 0 s) (argint 2 s) s"

section \<open>Delivery and return\<close>

lemma frame_fits:
  assumes "ram_page k p"
  shows "unat p + unat (of_nat tf_size :: u32) < 2 ^ 64"
proof -
  have "unat p < unat RAMSTOP" using assms by (simp add: ram_page_def word_less_nat_alt)
  then show ?thesis by simp
qed

lemma in_frame_page:
  assumes "page_aligned p" "i < 4096"
  shows "PGROUNDDOWN (p + of_nat i) = p"
  using PGROUNDDOWN_add [OF assms(1), of "of_nat i"] assms(2) by (simp add: word_less_nat_alt unat_of_nat)

lemma read_frame_outside:
  assumes "same_outside ps m m'" "page_aligned p" "p \<notin> ps"
  shows "read_bytes m' p tf_size = read_bytes m p tf_size"
  using assms in_frame_page [OF assms(2)] by (intro read_bytes_cong) (simp add: same_outside_def)

lemma memcpy_frame:
  assumes "ram_page k p" "ram_page k q"
  shows "read_bytes (memcpy m p q (of_nat tf_size)) p tf_size = read_bytes m q tf_size"
    "same_outside {p} m (memcpy m p q (of_nat tf_size))"
proof -
  have e: "memcpy m p q 288 = (\<lambda>a. if unat (a - p) < 288 then m (q + (a - p)) else m a)"
    using memmove_eq [of q "of_nat tf_size" p m] frame_fits [OF assms(1)] frame_fits [OF assms(2)] by (simp add: memcpy_def)
  show "read_bytes (memcpy m p q (of_nat tf_size)) p tf_size = read_bytes m q tf_size"
    by (rule nth_equalityI) (simp_all add: e unat_of_nat)
  have "PGROUNDDOWN a = p" if "unat (a - p) < 288" for a
    using in_frame_page [OF ram_page_aligned [OF assms(1)], of "unat (a - p)"] that by simp
  then show "same_outside {p} m (memcpy m p q (of_nat tf_size))" by (auto simp: same_outside_def e)
qed

lemma load64_frame:
  "i + 8 \<le> tf_size \<Longrightarrow> load64 m (p + of_nat i) = le_word (take 8 (drop i (read_bytes m p tf_size)))"
  by (simp add: load64_def take_drop_read_bytes)


text \<open>Delivery saves the frame in a fresh page and changes three fields of it.\<close>

lemma sighandle_delivers:
  assumes k: "kmem_wf (kmem s)" "free_list (kmem s) = t # ts"
    and f: "ram_page (kmem s) (ptrapframe (myproc s))" "ptrapframe (myproc s) \<notin> set (free_list (kmem s))"
    and h: "sa_handler (sigactions (myproc s) (nat (killed (myproc s)))) \<noteq> 0"
  obtains s1 where "sighandle s = Ret s1" "cur s1 = cur s" "sig_tf (myproc s1) = t" "ptrapframe (myproc s1) = ptrapframe (myproc s)"
    "kmem_wf (kmem s1)" "free_list (kmem s1) = ts" "kernel_end (kmem s1) = kernel_end (kmem s)"
    "read_bytes (mem (kmem s1)) t tf_size = read_bytes (mem (kmem s)) (ptrapframe (myproc s)) tf_size"
    "load64 (mem (kmem s1)) (ptrapframe (myproc s) + 264) = sa_handler (sigactions (myproc s) (nat (killed (myproc s))))"
    "load64 (mem (kmem s1)) (ptrapframe (myproc s)) = SIGTRAMPOLINE"
    "load64 (mem (kmem s1)) (ptrapframe (myproc s) + 16) = load64 (mem (kmem s)) (ptrapframe (myproc s) + 16) - PGSIZE"
proof -
  let ?f = "ptrapframe (myproc s)" and ?h = "sa_handler (sigactions (myproc s) (nat (killed (myproc s))))"
  obtain k1 where k1: "kalloc (kmem s) = (t, k1)" "kmem_wf k1" "free_list k1 = ts" "same_outside {t} (mem (kmem s)) (mem k1)"
    "kernel_end k1 = kernel_end (kmem s)" by (rule kalloc_refines [OF k]) auto
  have t: "ram_page (kmem s) t" "t \<noteq> ?f" "t \<notin> set ts"
    using kmem_wfD [OF k(1)] k(2) f(2) by auto
  have nz: "t \<noteq> 0" using ram_page_not_0 t(1) kmem_wfD(4) [OF k(1)] by blast
  have al: "page_aligned ?f" "page_aligned t" using f(1) t(1) by (auto dest: ram_page_aligned)
  define m1 where "m1 = memcpy (mem k1) t ?f (of_nat tf_size)"
  define m2 where "m2 = store64 m1 (?f + 264) ?h"
  define m3 where "m3 = store64 m2 ?f SIGTRAMPOLINE"
  define m4 where "m4 = store64 m3 (?f + 16) (load64 m3 (?f + 16) - PGSIZE)"
  have o1: "same_outside {t} (mem (kmem s)) m1"
    using same_outside_trans [OF k1(4) memcpy_frame(2) [OF t(1) f(1), of "mem k1"]] by (simp add: m1_def)
  have "same_outside {?f} m1 m2" "same_outside {?f} m2 m3" "same_outside {?f} m3 m4"
    using same_outside_store64 [OF al(1), of 264 m1] same_outside_store64 [OF al(1), of 0 m2] same_outside_store64 [OF al(1), of 16 m3]
    by (simp_all add: m2_def m3_def m4_def)
  then have o2: "same_outside {?f} m1 m4" by (simp add: same_outside_def)
  have "read_bytes m1 t tf_size = read_bytes (mem (kmem s)) ?f tf_size"
    using memcpy_frame(1) [OF t(1) f(1), of "mem k1"] read_frame_outside [OF k1(4) al(1)] t(2) by (simp add: m1_def)
  then have saved: "read_bytes m4 t tf_size = read_bytes (mem (kmem s)) ?f tf_size"
    using read_frame_outside [OF o2 al(2)] t(2) by simp
  have "same_outside {t, ?f} (mem k1) m4"
    using same_outside_trans [OF memcpy_frame(2) [OF t(1) f(1), of "mem k1"] o2 [unfolded m1_def]] by (simp add: insert_commute)
  moreover have "?f \<notin> set ts" using f(2) k(2) by simp
  ultimately have w: "kmem_wf (k1\<lparr>mem := m4\<rparr>)" "free_list (k1\<lparr>mem := m4\<rparr>) = ts"
    using kmem_write [OF k1(2), of "{t, ?f}" m4] t(3) k1(3) by auto
  have loads: "load64 m4 (?f + 264) = ?h" "load64 m4 ?f = SIGTRAMPOLINE" "load64 m4 (?f + 16) = load64 (mem (kmem s)) (?f + 16) - PGSIZE"
    using load64_same_outside [OF o1 al(1), of 16] t(2)
    by (simp_all add: m4_def m3_def m2_def load64_store64_other)
  show ?thesis
    by (rule that [of "set_proc (cur s) (\<lambda>q. q\<lparr>sig_tf := t, sig_pending := sig_pending (myproc s) AND NOT (push_bit (nat (killed (myproc s))) 1),
          killed := (if sig_pending (myproc s) AND NOT (push_bit (nat (killed (myproc s))) 1) = 0 then 0 else killed q)\<rparr>) (set_kmem (k1\<lparr>mem := m4\<rparr>) s)"])
      (use h nz w saved loads k1(5) in \<open>simp_all add: sighandle_def k1(1) Let_def m1_def m2_def m3_def m4_def\<close>)
qed

lemma sigreturn_restores_frame:
  assumes k: "kmem_wf (kmem s)" and t: "ram_page (kmem s) (sig_tf (myproc s))" "sig_tf (myproc s) \<notin> set (free_list (kmem s))"
    and f: "ram_page (kmem s) (ptrapframe (myproc s))" "ptrapframe (myproc s) \<notin> set (free_list (kmem s))"
    and ne: "ptrapframe (myproc s) \<noteq> sig_tf (myproc s)"
    and b: "read_bytes (mem (kmem s)) (sig_tf (myproc s)) tf_size = bs"
  obtains s2 where "rt_sigreturn s = Ret (le_word (take 8 (drop 24 bs)), s2)" "sig_tf (myproc s2) = 0" "kmem_wf (kmem s2)"
    "free_list (kmem s2) = sig_tf (myproc s) # free_list (kmem s)" "read_bytes (mem (kmem s2)) (ptrapframe (myproc s)) tf_size = bs"
proof -
  let ?f = "ptrapframe (myproc s)" and ?t = "sig_tf (myproc s)"
  define k1 where "k1 = (kmem s)\<lparr>mem := memcpy (mem (kmem s)) ?f ?t (of_nat tf_size)\<rparr>"
  have w: "kmem_wf k1" "free_list k1 = free_list (kmem s)"
    using kmem_write [OF k memcpy_frame(2) [OF f(1) t(1), of "mem (kmem s)"]] f(2) by (simp_all add: k1_def)
  have r: "ram_page k1 ?t" using t(1) by (simp add: k1_def ram_page_def)
  have nf: "?t \<notin> set (free_list k1)" using t(2) w(2) by simp
  obtain k2 where k2: "kfree ?t k1 = Ret k2" "kmem_wf k2" "free_list k2 = ?t # free_list k1" "same_outside {?t} (mem k1) (mem k2)"
    by (rule kfree_refines [OF w(1) r nf]) auto
  have "read_bytes (mem k1) ?f tf_size = bs" using memcpy_frame(1) [OF f(1) t(1), of "mem (kmem s)"] b by (simp add: k1_def)
  then have bs: "read_bytes (mem k2) ?f tf_size = bs"
    using read_frame_outside [OF k2(4) ram_page_aligned [OF f(1)]] ne by simp
  then have "load64 (mem k2) (?f + 24) = le_word (take 8 (drop 24 bs))" using load64_frame [of 24 "mem k2" ?f] by simp
  then show ?thesis
    by (intro that [of "set_proc (cur s) (\<lambda>q. q\<lparr>sig_tf := 0\<rparr>) (set_kmem k2 s)"])
      (use k2 w bs in \<open>simp_all add: rt_sigreturn_def k1_def Let_def\<close>)
qed

section \<open>Properties\<close>

text \<open>(C9) A signal handler returns to where the process was. With a page of memory left, \<^verbatim>\<open>sighandle\<close> saves the registers of the
  process and makes it enter the handler on the trampoline, one page down its stack; and from any later state in
  which the saved page is as it was and the allocator is in order, whatever the handler did to the registers,
  \<^verbatim>\<open>rt_sigreturn\<close> brings all the registers back, returns the value \<^verbatim>\<open>a0\<close> had, and frees the page.\<close>

theorem signal_return_restores:
  assumes k: "kmem_wf (kmem s)" "free_list (kmem s) = t # ts"
    and f: "ram_page (kmem s) (ptrapframe (myproc s))" "ptrapframe (myproc s) \<notin> set (free_list (kmem s))"
    and h: "sa_handler (sigactions (myproc s) (nat (killed (myproc s)))) \<noteq> 0"
  shows "\<exists>s1. sighandle s = Ret s1 \<and> sig_tf (myproc s1) = t \<and> free_list (kmem s1) = ts
    \<and> load64 (mem (kmem s1)) (ptrapframe (myproc s) + 264) = sa_handler (sigactions (myproc s) (nat (killed (myproc s))))
    \<and> load64 (mem (kmem s1)) (ptrapframe (myproc s)) = SIGTRAMPOLINE
    \<and> load64 (mem (kmem s1)) (ptrapframe (myproc s) + 16) = load64 (mem (kmem s)) (ptrapframe (myproc s) + 16) - PGSIZE
    \<and> (\<forall>s2. myproc s2 = myproc s1 \<and> kmem_wf (kmem s2) \<and> kernel_end (kmem s2) = kernel_end (kmem s)
          \<and> {t, ptrapframe (myproc s)} \<inter> set (free_list (kmem s2)) = {}
          \<and> read_bytes (mem (kmem s2)) t tf_size = read_bytes (mem (kmem s1)) t tf_size
        \<longrightarrow> (\<exists>s3. rt_sigreturn s2 = Ret (load64 (mem (kmem s)) (ptrapframe (myproc s) + 24), s3)
              \<and> read_bytes (mem (kmem s3)) (ptrapframe (myproc s)) tf_size = read_bytes (mem (kmem s)) (ptrapframe (myproc s)) tf_size
              \<and> sig_tf (myproc s3) = 0 \<and> free_list (kmem s3) = t # free_list (kmem s2)))"
proof -
  let ?f = "ptrapframe (myproc s)"
  obtain s1 where s1: "sighandle s = Ret s1" "cur s1 = cur s" "sig_tf (myproc s1) = t" "ptrapframe (myproc s1) = ?f"
    "kmem_wf (kmem s1)" "free_list (kmem s1) = ts" "kernel_end (kmem s1) = kernel_end (kmem s)"
    "read_bytes (mem (kmem s1)) t tf_size = read_bytes (mem (kmem s)) ?f tf_size"
    "load64 (mem (kmem s1)) (?f + 264) = sa_handler (sigactions (myproc s) (nat (killed (myproc s))))"
    "load64 (mem (kmem s1)) ?f = SIGTRAMPOLINE"
    "load64 (mem (kmem s1)) (?f + 16) = load64 (mem (kmem s)) (?f + 16) - PGSIZE"
    by (rule sighandle_delivers [OF assms]) blast
  have t: "ram_page (kmem s) t" "t \<noteq> ?f" using kmem_wfD [OF k(1)] k(2) f(2) by auto
  have a0: "load64 (mem (kmem s)) (?f + 24) = le_word (take 8 (drop 24 (read_bytes (mem (kmem s)) ?f tf_size)))"
    using load64_frame [of 24 "mem (kmem s)" ?f] by simp
  have returns: "\<exists>s3. rt_sigreturn s2 = Ret (load64 (mem (kmem s)) (?f + 24), s3)
      \<and> read_bytes (mem (kmem s3)) ?f tf_size = read_bytes (mem (kmem s)) ?f tf_size \<and> sig_tf (myproc s3) = 0
      \<and> free_list (kmem s3) = t # free_list (kmem s2)"
    if c: "myproc s2 = myproc s1" "kmem_wf (kmem s2)" "kernel_end (kmem s2) = kernel_end (kmem s)"
      "{t, ?f} \<inter> set (free_list (kmem s2)) = {}" "read_bytes (mem (kmem s2)) t tf_size = read_bytes (mem (kmem s1)) t tf_size" for s2
  proof -
    have p: "ptrapframe (myproc s2) = ?f" "sig_tf (myproc s2) = t" using c(1) s1(3,4) by simp_all
    have r: "ram_page (kmem s2) t" "ram_page (kmem s2) ?f"
      using t(1) f(1) ram_page_cong [OF c(3)] by simp_all
    have n: "t \<notin> set (free_list (kmem s2))" "?f \<notin> set (free_list (kmem s2))" using c(4) by auto
    show ?thesis
      using sigreturn_restores_frame [OF c(2), unfolded p, OF r(1) n(1) r(2) n(2) t(2) [symmetric] c(5), unfolded s1(8)]
      unfolding a0 by metis
  qed
  show ?thesis by (rule exI [of _ s1]) (use s1 returns in \<open>auto\<close>)
qed

text \<open>A process with its frame in the last page but one of RAM, the last page free, and a handler for signal 10.\<close>

definition signalled :: sys where
  "signalled = set_proc 0 (\<lambda>p. p\<lparr>ptrapframe := 0x9000000097FFE000, killed := 10,
     sigactions := (sigactions p)(10 := \<lparr>sa_handler = 0x1234, sa_mask = 0, sa_flags = 0\<rparr>)\<rparr>)
     (zero_sys (one_page\<lparr>kernel_end := 0x9000000097FFE000\<rparr>))"

theorem signal_return_restores_witness:
  "\<exists>s1. sighandle signalled = Ret s1 \<and> load64 (mem (kmem s1)) 0x9000000097FFE108 = 0x1234 \<and> sig_tf (myproc s1) = 0x9000000097FFF000"
proof -
  have w: "kmem_wf (kmem signalled)" "free_list (kmem signalled) = [0x9000000097FFF000]"
    by (rule kmem_wfI [of "kmem signalled" "[0x9000000097FFF000]"];
        simp add: signalled_def zero_sys_def one_page_def ram_page_def page_aligned_def)+
  have p: "ptrapframe (myproc signalled) = 0x9000000097FFE000" "killed (myproc signalled) = 10"
    "sa_handler (sigactions (myproc signalled) 10) = 0x1234"
    by (simp_all add: signalled_def zero_sys_def)
  have "ram_page (kmem signalled) 0x9000000097FFE000"
    by (simp add: signalled_def zero_sys_def one_page_def ram_page_def page_aligned_def)
  then show ?thesis using signal_return_restores [OF w] by (auto simp: p w)
qed

end
