(* ===== verification/Sysproc.thy ===== *)
theory Sysproc
  imports Signal
begin

text \<open>
  System calls on processes (\<^verbatim>\<open>kernel/sysproc.c\<close>), \<^verbatim>\<open>sys_pipe2\<close> and \<^verbatim>\<open>sys_mmap\<close> of \<^verbatim>\<open>kernel/sysfile.c\<close>, and
  \<^verbatim>\<open>kernel/mmap.c\<close>. The calls that read the clock or start a program are left out.
\<close>

section \<open>Processes\<close>

definition sys_clone :: "sys \<Rightarrow> (int \<times> sys) res" where
  "sys_clone s =
     (let new_stack = argaddr 1 s; new_fn = argaddr 0 s in
      if new_stack = 0 then fork s else clone new_stack new_fn s)"

definition sys_fork :: "sys \<Rightarrow> (int \<times> sys) res" where
  "sys_fork s = fork s"

definition sys_exit :: "sys \<Rightarrow> sys res" where
  "sys_exit s = exit (argint 0 s) s"

definition sys_wait :: "sys \<Rightarrow> (call \<times> sys) res" where
  "sys_wait s = wait (argaddr 0 s) s"

definition sys_wait4 :: "sys \<Rightarrow> (call \<times> sys) res" where
  "sys_wait4 s = wait4pid (argint 0 s) (argaddr 1 s) s"

text \<open>The identifier that the caller gives is replaced by its own.\<close>

definition sys_kill :: "sys \<Rightarrow> int \<times> sys" where
  "sys_kill s =
     (let n = argint 0 s; sig = argint 1 s in
      if n \<le> 0 then (-1, s)
      else if sig < 0 \<or> sig \<ge> int SIGRTMAX then (-1, s)
      else if sig = 0 then (0, s)
      else kill (pid (myproc s)) sig s)"

definition sys_getpid :: "sys \<Rightarrow> int" where
  "sys_getpid s = pid (myproc s)"

definition sys_getppid :: "sys \<Rightarrow> int res" where
  "sys_getppid s = (case pparent (myproc s) of None \<Rightarrow> Panic ''null pointer'' | Some q \<Rightarrow> Ret (pid (procs s q)))"

definition sys_getuid :: "sys \<Rightarrow> int" where "sys_getuid s = uid (myproc s)"
definition sys_geteuid :: "sys \<Rightarrow> int" where "sys_geteuid s = uid (myproc s)"
definition sys_getgid :: "sys \<Rightarrow> int" where "sys_getgid s = gid (myproc s)"
definition sys_getegid :: "sys \<Rightarrow> int" where "sys_getegid s = gid (myproc s)"
definition sys_getpgid :: "sys \<Rightarrow> int" where "sys_getpgid s = pgid (myproc s)"

definition sys_setuid :: "sys \<Rightarrow> int \<times> sys" where
  "sys_setuid s = (0, set_proc (cur s) (\<lambda>p. p\<lparr>uid := argint 0 s\<rparr>) s)"

definition sys_setgid :: "sys \<Rightarrow> int \<times> sys" where
  "sys_setgid s = (0, set_proc (cur s) (\<lambda>p. p\<lparr>gid := argint 0 s\<rparr>) s)"

definition sys_setpgid :: "sys \<Rightarrow> int \<times> sys" where
  "sys_setpgid s = (0, set_proc (cur s) (\<lambda>p. p\<lparr>pgid := argint 1 s\<rparr>) s)"

definition sys_trace :: "sys \<Rightarrow> int \<times> sys" where
  "sys_trace s = (0, set_proc (cur s) (\<lambda>p. p\<lparr>tmask := of_int (argint 0 s)\<rparr>) s)"

text \<open>Of the limits only the number of files is kept, and only when it is set to 42.\<close>

definition sys_prlimit64 :: "sys \<Rightarrow> (int \<times> sys) res" where
  "sys_prlimit64 s =
     bind_res (either_copyin (pagetable (myproc s)) True (argaddr 2 s) 16 (kmem s)) (\<lambda>(r, bs).
       if r < 0 then Ret (-1, s)
       else if argint 1 s = 7 \<and> (le_word (take 8 bs) :: u64) = 42
       then Ret (0, set_proc (cur s) (\<lambda>p. p\<lparr>filelimit := 42\<rparr>) s)
       else Ret (0, s))"

definition sys_sched_getaffinity :: "sys \<Rightarrow> (int \<times> sys) res" where
  "sys_sched_getaffinity s =
     bind_res (with_kmem_val (either_copyout (pagetable (myproc s)) True (argaddr 2 s) (ksp (fs s)) (le_bytes 8 (1 :: u64)) 8) s) (\<lambda>(r, s1).
       Ret (if r < 0 then -1 else 0, s1))"

definition sys_yield :: "sys \<Rightarrow> int \<times> sys" where
  "sys_yield s = (0, yield s)"

text \<open>Calls that only return a number.\<close>

definition sys_sched_getscheduler :: int where "sys_sched_getscheduler = 0"
definition sys_sched_getparam :: int where "sys_sched_getparam = 0"
definition sys_sched_setscheduler :: int where "sys_sched_setscheduler = 0"
definition sys_chroot :: int where "sys_chroot = 0"
definition sys_exit_group :: int where "sys_exit_group = 0"
definition sys_umask :: int where "sys_umask = 0"
definition sys_madvise :: int where "sys_madvise = 0"

section \<open>Memory\<close>

text \<open>The old size is returned as an \<^verbatim>\<open>int\<close>; the growth asked for by \<open>brk\<close> is cut to one.\<close>

definition sys_sbrk :: "sys \<Rightarrow> (int \<times> sys) res" where
  "sys_sbrk s =
     (let addr = sint (ucast (psz (myproc s)) :: u32) in
      bind_res (growproc (argint 0 s) s) (\<lambda>(r, s1). Ret (if r < 0 then -1 else addr, s1)))"

definition sys_brk :: "sys \<Rightarrow> (u64 \<times> sys) res" where
  "sys_brk s =
     (let n = argaddr 0 s; addr = psz (myproc s) in
      if n = 0 then Ret (addr, s)
      else if n \<ge> addr
      then bind_res (growproc (sint (ucast (n - addr) :: u32)) s) (\<lambda>(r, s1). Ret (if r < 0 then -1 else psz (myproc s1), s1))
      else Ret (0, s))"

text \<open>The permissions of a mapping are an \<^verbatim>\<open>int\<close>: \<^verbatim>\<open>PTE_NR\<close> and \<^verbatim>\<open>PTE_NX\<close> are lost. What executable pages get differs between
  the two callers.\<close>

definition mmap_perm :: "u64 \<Rightarrow> u64 \<Rightarrow> int \<Rightarrow> u32" where
  "mmap_perm start_bits exec_bits prot =
     (let w = of_int prot :: u32;
          p0 = ucast start_bits;
          p1 = (if w AND 1 \<noteq> 0 then p0 AND ucast (NOT PTE_NR) else p0);
          p2 = (if w AND 2 \<noteq> 0 then p1 OR ucast PTE_W else p1)
      in if w AND 4 \<noteq> 0 then (p2 OR ucast exec_bits) AND ucast (NOT PTE_NX) else p2)"

definition mmap_bits :: u64 where
  "mmap_bits = PTE_PLV3 OR PTE_MAT OR PTE_D OR PTE_NR OR PTE_W OR PTE_NX"

definition MAP_FIXED :: u32 where [simp]: "MAP_FIXED = 0x10"
definition MAP_ANONYMOUS :: u32 where [simp]: "MAP_ANONYMOUS = 0x20"

text \<open>The rest of both versions: the size that is read from the file is always 0, so the loop over its pages does nothing.\<close>

definition mmap_area :: "u64 \<Rightarrow> u64 \<Rightarrow> u32 \<Rightarrow> bool \<Rightarrow> int \<Rightarrow> int \<Rightarrow> sys \<Rightarrow> (u64 \<times> sys) res" where
  "mmap_area start len perm fixed fd offset s =
     (let p = myproc s; f = (if fd = -1 then None else ofile p (nat fd)) in
      if fd < -1 \<or> fd \<ge> int NOFILE then Stuck
      else if fd \<noteq> -1 \<and> f = None then Ret (-1, s)
      else bind_res (with_vma_val (alloc_mmap_vma (pvma p) (pagetable p) start len perm (of_int fd) (of_int offset)) s) (\<lambda>(v, s1).
        if v = 0 then if fixed then Ret (-1, s1) else Panic ''null pointer''
        else let start1 = (if fixed then start else vaddr (vareas s1 v)) in
          case f of
            None \<Rightarrow> Ret (start1, s1)
          | Some i \<Rightarrow> bind_res (filedup i (set_file i (\<lambda>x. x\<lparr>foff := of_int offset\<rparr>) s1)) (\<lambda>s2. Ret (start1, s2))))"

definition mmap :: "u64 \<Rightarrow> u64 \<Rightarrow> int \<Rightarrow> u32 \<Rightarrow> int \<Rightarrow> int \<Rightarrow> sys \<Rightarrow> (u64 \<times> sys) res" where
  "mmap start len prot flags fd offset s =
     (if offset < 0 then Ret (-1, s)
      else mmap_area start len (mmap_perm mmap_bits (PTE_MAT OR PTE_P) prot) (flags AND MAP_FIXED \<noteq> 0) fd offset s)"

definition mmap_with_newpt :: "u64 \<Rightarrow> u64 \<Rightarrow> int \<Rightarrow> int \<Rightarrow> int \<Rightarrow> sys \<Rightarrow> (u64 \<times> sys) res" where
  "mmap_with_newpt start len prot fd offset s =
     (if offset < 0 then Ret (-1, s)
      else mmap_area start len (mmap_perm mmap_bits PTE_MAT prot) False fd offset s)"

definition sys_mmap :: "sys \<Rightarrow> (u64 \<times> sys) res" where
  "sys_mmap s =
     (let flags = of_int (argint 3 s) :: u32 in
      case argfd 4 s of
        Inl e \<Rightarrow> if e = -2 \<and> flags AND MAP_ANONYMOUS \<noteq> 0
          then mmap (argaddr 0 s) (argaddr 1 s) (argint 2 s) flags (-1) (argint 5 s) s
          else Ret (-1, s)
      | Inr (fd, _) \<Rightarrow> mmap (argaddr 0 s) (argaddr 1 s) (argint 2 s) flags (int fd) (argint 5 s) s)"

definition sys_munmap :: int where "sys_munmap = 0"

primrec mprotect_loop :: "nat \<Rightarrow> u64 \<Rightarrow> u64 \<Rightarrow> u64 \<Rightarrow> kstate \<Rightarrow> kstate res" where
  "mprotect_loop 0 pt va perm s = Ret s"
| "mprotect_loop (Suc n) pt va perm s = bind_res (experm pt va perm s) (\<lambda>(_, s1). mprotect_loop n pt (va + PGSIZE) perm s1)"

definition sys_mprotect :: "sys \<Rightarrow> (int \<times> sys) res" where
  "sys_mprotect s =
     (let page_n = sint (ucast (drop_bit PGSHIFT (PGROUNDUP (argaddr 1 s))) :: u32);
          perm = mmap_perm (PTE_PLV3 OR PTE_MAT OR PTE_D) (PTE_MAT OR PTE_P) (argint 2 s) in
      bind_res (with_kmem (mprotect_loop (nat page_n) (pagetable (myproc s)) (argaddr 0 s) (scast perm)) s) (\<lambda>s1. Ret (0, s1)))"

text \<open>\<^verbatim>\<open>sys_pipe2\<close> repeats \<^verbatim>\<open>sys_pipe\<close> and does not look at its flags.\<close>

definition sys_pipe2 :: "sys \<Rightarrow> (int \<times> sys) res" where
  "sys_pipe2 s = sys_pipe s"

end
