(* ===== verification/Frames.thy ===== *)
theory Frames
  imports Sysproc
begin

text \<open>
  What the operations leave alone. Operations on memory, areas and the file system keep the process table and the
  file table; operations on files change of other processes only that a sleeper on a pipe becomes runnable.
\<close>

section \<open>Memory and file system\<close>

definition same_tables :: "sys \<Rightarrow> sys \<Rightarrow> bool" where
  "same_tables s s' \<longleftrightarrow> procs s' = procs s \<and> files s' = files s \<and> nextpid s' = nextpid s \<and> initproc s' = initproc s \<and> cur s' = cur s"

lemma same_tables_refl [simp]: "same_tables s s"
  by (simp add: same_tables_def)

lemma same_tables_trans [trans]: "same_tables s t \<Longrightarrow> same_tables t u \<Longrightarrow> same_tables s u"
  by (simp add: same_tables_def)

lemma same_tables_set_kmem [simp]: "same_tables s (set_kmem k s)"
  by (simp add: same_tables_def)

lemma with_kmem_tables: "with_kmem f s = Ret s' \<Longrightarrow> same_tables s s'"
  by (auto simp: with_kmem_def res_simps same_tables_def)

lemma with_kmem_val_tables: "with_kmem_val f s = Ret (r, s') \<Longrightarrow> same_tables s s'"
  by (auto simp: with_kmem_val_def res_simps same_tables_def)

lemma with_fs_tables: "with_fs f s = Ret s' \<Longrightarrow> same_tables s s'"
  by (auto simp: with_fs_def res_simps same_tables_def)

lemma with_fs_val_tables: "with_fs_val f s = Ret (r, s') \<Longrightarrow> same_tables s s'"
  by (auto simp: with_fs_val_def res_simps same_tables_def)

lemma with_vma_val_tables: "with_vma_val f s = Ret (r, s') \<Longrightarrow> same_tables s s'"
  by (auto simp: with_vma_val_def res_simps same_tables_def)

lemma copyout_cur_tables: "copyout_cur addr bs s = Ret (r, s') \<Longrightarrow> same_tables s s'"
  unfolding copyout_cur_def by (rule with_kmem_val_tables)

lemma map_one_tables: "map_one pt va pa perm s = Ret (r, s') \<Longrightarrow> same_tables s s'"
  unfolding map_one_def by (rule with_kmem_val_tables)

lemmas table_frames = with_kmem_tables with_kmem_val_tables with_fs_tables with_fs_val_tables with_vma_val_tables
  copyout_cur_tables map_one_tables

lemma free_areas_tables: "free_areas i s = Ret s' \<Longrightarrow> same_tables s s'"
  by (auto simp: free_areas_def res_simps dest: table_frames)

lemma copy_tf_tables [simp]: "same_tables s (copy_tf p np s)"
  by (simp add: copy_tf_def)

lemma set_tf_tables [simp]: "same_tables s (set_tf i off v s)"
  by (simp add: set_tf_def)

lemma set_exec_close_tables [simp]: "same_tables s (set_exec_close fd v s)"
  by (simp add: set_exec_close_def)

lemma name_zero_tables [simp]: "same_tables s (name_zero e s)"
  by (simp add: name_zero_def same_tables_def)

lemma put_entry_tables: "put_entry e s = Ret s' \<Longrightarrow> same_tables s s'"
  by (auto simp: put_entry_def res_simps dest!: table_frames intro: same_tables_trans)

lemma ename_cur_tables: "ename_cur path s = Ret (r, s') \<Longrightarrow> same_tables s s'"
  by (auto simp: ename_cur_def res_simps dest: table_frames)

lemma create_cur_tables: "create_cur path ty mode s = Ret (r, s') \<Longrightarrow> same_tables s s'"
  by (auto simp: create_cur_def res_simps dest: table_frames)

lemma at_dir_tables: "at_dir s = Ret (r, s') \<Longrightarrow> same_tables s s'"
  by (auto simp: at_dir_def res_simps Let_def split: sum.splits if_splits dest: table_frames)

lemma openat_entry_tables: "openat_entry dp path flags s = Ret (r, s') \<Longrightarrow> same_tables s s'"
  by (auto simp: openat_entry_def res_simps split: option.splits if_splits dest!: table_frames intro: same_tables_trans)

lemma openat_done_tables: "openat_done dp e path fd s = Ret (r, s') \<Longrightarrow> same_tables s s'"
proof -
  assume a: "openat_done dp e path fd s = Ret (r, s')"
  let ?upd = "\<lambda>s1. if starts_with ''/dev/zero'' path then name_zero e (set_exec_close (nat fd) 0 s1) else set_exec_close (nat fd) 0 s1"
  have u: "same_tables s1 (?upd s1)" for s1
    using same_tables_trans [OF set_exec_close_tables name_zero_tables] by simp
  show ?thesis
  proof (cases dp)
    case None
    then have "s' = ?upd s" using a by (simp add: openat_done_def Let_def)
    then show ?thesis using u by simp
  next
    case (Some d)
    then obtain s1 where "with_fs (elock d) s = Ret s1" "with_fs (eunlock d) (?upd s1) = Ret s'"
      using a by (auto simp: openat_done_def res_simps Let_def)
    then show ?thesis using u same_tables_trans with_fs_tables by blast
  qed
qed

lemma drop_pagetable_tables: "drop_pagetable pt s = Ret (r, s') \<Longrightarrow> same_tables s s'"
  by (auto simp: drop_pagetable_def res_simps dest: table_frames)

lemma map_trampolines_tables: "map_trampolines i pt s = Ret (r, s') \<Longrightarrow> same_tables s s'"
  unfolding map_trampolines_def
  by (auto simp only: res_simps split_paired_Ex prod.case res.inject prod.inject if_split_eq1 split: if_splits
      dest!: table_frames drop_pagetable_tables simp: same_tables_def)

section \<open>Processes\<close>

lemma proc_pagetable_tables:
  assumes "proc_pagetable i s = Ret (pt, s')"
  shows "\<exists>v. same_tables (set_proc i (\<lambda>p. p\<lparr>pvma := v\<rparr>) s) s'"
proof -
  obtain pt' k where c: "uvmcreate (kmem s) = (pt', k)" by fastforce
  have keep: "same_tables s s' \<Longrightarrow> ?thesis"
    by (rule exI [of _ "pvma (procs s i)"]) (simp add: same_tables_def)
  show ?thesis
  proof (cases "pt' = 0")
    case True
    then show ?thesis using assms c keep by (auto simp: proc_pagetable_def)
  next
    case False
    then obtain v s2 where v: "with_vma_val (vma_init (pagetable (procs s i))) (set_kmem k s) = Ret (v, s2)"
      and r: "(if v = 0 then drop_pagetable pt' s2 else map_trampolines i pt' (set_proc i (\<lambda>p. p\<lparr>pvma := v\<rparr>) s2)) = Ret (pt, s')"
      using assms c by (auto simp: proc_pagetable_def res_simps)
    have s2: "same_tables s s2" using with_vma_val_tables [OF v] by (simp add: same_tables_def)
    show ?thesis
    proof (cases "v = 0")
      case True
      then show ?thesis using r s2 keep drop_pagetable_tables same_tables_trans by auto
    next
      case False
      then show ?thesis using r s2 map_trampolines_tables by (fastforce simp: same_tables_def)
    qed
  qed
qed

lemma freeproc_tables:
  assumes "freeproc i s = Ret s'"
  shows "same_tables (set_proc i (\<lambda>p. p\<lparr>ptrapframe := 0, pagetable := 0, pvma := 0, psz := 0, pid := 0, pparent := None,
             pname := 0 # tl (pname p), pchan := None, killed := 0, xstate := 0, pstate := UNUSED\<rparr>) s) s'"
proof -
  obtain s3 where "same_tables s s3"
    "s' = set_proc i (\<lambda>p. p\<lparr>ptrapframe := 0, pagetable := 0, pvma := 0, psz := 0, pid := 0, pparent := None,
             pname := 0 # tl (pname p), pchan := None, killed := 0, xstate := 0, pstate := UNUSED\<rparr>) s3"
    using assms by (auto simp: freeproc_def Let_def res_simps split: if_splits dest!: table_frames free_areas_tables)
      (auto simp: same_tables_def)
  then show ?thesis by (simp add: same_tables_def)
qed


text \<open>One slot changes, and the file table and the rest stay.\<close>

definition slot_changed :: "sys \<Rightarrow> nat \<Rightarrow> proc \<Rightarrow> sys \<Rightarrow> bool" where
  "slot_changed s i p' s' \<longleftrightarrow> procs s' = (procs s)(i := p') \<and> files s' = files s \<and> initproc s' = initproc s \<and> cur s' = cur s"

lemma slot_changed_tables: "slot_changed s i p' t \<Longrightarrow> same_tables t u \<Longrightarrow> slot_changed s i p' u"
  by (simp add: slot_changed_def same_tables_def)

lemma slot_changed_again: "slot_changed s i p' t \<Longrightarrow> slot_changed t i p'' u \<Longrightarrow> slot_changed s i p'' u"
  by (simp add: slot_changed_def)

definition empty_slot :: "proc \<Rightarrow> proc \<Rightarrow> bool" where
  "empty_slot p p' \<longleftrightarrow> pstate p' = UNUSED \<and> pparent p' \<in> {pparent p, None} \<and> ofile p' = ofile p"

lemma freeproc_slot:
  assumes "freeproc i s = Ret s'"
  shows "\<exists>p'. slot_changed s i p' s' \<and> empty_slot (procs s i) p' \<and> pparent p' = None \<and> nextpid s' = nextpid s"
  using freeproc_tables [OF assms] by (auto simp: same_tables_def slot_changed_def empty_slot_def)

lemma find_slot:
  assumes "find P [0..<n] = Some i"
  shows "i < n" "P i" "\<forall>j < i. \<not> P j"
  using assms by (auto simp: find_Some_iff)

lemma alloc_finish_slot:
  assumes "alloc_finish i s = Ret (r, s')"
  shows "r = Some i \<and> nextpid s' = nextpid s \<and> (\<exists>p'. slot_changed s i p' s' \<and> pstate p' = pstate (procs s i)
    \<and> pparent p' = pparent (procs s i) \<and> ofile p' = ofile (procs s i) \<and> pid p' = pid (procs s i))"
  using assms by (auto simp: alloc_finish_def slot_changed_def split: prod.splits if_splits)

lemma alloc_space_slot:
  assumes a: "alloc_space i s = Ret (r, s')" and u: "pstate (procs s i) = UNUSED"
  shows "nextpid s' = nextpid s \<and> (\<exists>p'. slot_changed s i p' s' \<and> empty_slot (procs s i) p'
    \<and> (r = None \<or> r = Some i \<and> pid p' = pid (procs s i)))"
proof -
  obtain tf k where tf: "kalloc (kmem s) = (tf, k)" by fastforce
  define s1 where "s1 = set_proc i (\<lambda>p. p\<lparr>ptrapframe := tf\<rparr>) (set_kmem (k\<lparr>mem := memset (mem k) tf 0 4096\<rparr>) s)"
  show ?thesis
  proof (cases "tf = 0")
    case True
    then show ?thesis using a tf u by (auto simp: alloc_space_def slot_changed_def empty_slot_def)
  next
    case False
    then obtain pt s2 where pt: "proc_pagetable i s1 = Ret (pt, s2)"
      using a tf by (cases "proc_pagetable i s1") (auto simp: alloc_space_def s1_def)
    obtain v where v: "same_tables (set_proc i (\<lambda>p. p\<lparr>pvma := v\<rparr>) s1) s2" using proc_pagetable_tables [OF pt] by blast
    define p3 where "p3 = (procs s i)\<lparr>ptrapframe := tf, pvma := v, pagetable := pt\<rparr>"
    define s3 where "s3 = set_proc i (\<lambda>p. p\<lparr>pagetable := pt\<rparr>) s2"
    have s3: "slot_changed s i p3 s3" "nextpid s3 = nextpid s"
      using v by (simp_all add: slot_changed_def same_tables_def s3_def s1_def p3_def)
    then have p3: "procs s3 i = p3" by (simp add: slot_changed_def)
    have e3: "empty_slot (procs s i) p' \<longleftrightarrow> empty_slot p3 p'" for p' by (simp add: p3_def empty_slot_def)
    have "(if pt = 0 then bind_res (freeproc i s3) (\<lambda>s4. Ret (None, s4)) else alloc_finish i s3) = Ret (r, s')"
      using a tf False pt by (simp add: alloc_space_def s1_def s3_def Let_def split: if_splits)
    then consider "r = None" "freeproc i s3 = Ret s'" | "alloc_finish i s3 = Ret (r, s')"
      by (auto simp: res_simps split: if_splits)
    then show ?thesis
    proof cases
      case 1
      then show ?thesis using freeproc_slot [OF 1(2)] slot_changed_again [OF s3(1)] s3(2) p3 e3 by metis
    next
      case 2
      obtain p' where "slot_changed s3 i p' s'" "pstate p' = UNUSED" "pparent p' = pparent p3" "ofile p' = ofile p3"
        "pid p' = pid (procs s i)" "r = Some i" "nextpid s' = nextpid s3"
        using alloc_finish_slot [OF 2] p3 u by (auto simp: p3_def)
      then show ?thesis using slot_changed_again [OF s3(1)] s3(2) e3 by (auto simp: empty_slot_def)
    qed
  qed
qed

lemma allocproc_slot:
  assumes a: "allocproc s = Ret (r, s')"
  obtains (full) "r = None" "same_tables s s'"
  | (slot) i p' where "i < NPROC" "pstate (procs s i) = UNUSED" "slot_changed s i p' s'" "empty_slot (procs s i) p'"
      "nextpid s' = nextpid s + 1" "r = None \<or> r = Some i \<and> pid p' = nextpid s"
proof (cases "find (\<lambda>i. pstate (procs s i) = UNUSED) [0..<NPROC]")
  case None
  then show thesis using a by (intro full) (auto simp: allocproc_def)
next
  case (Some i)
  have i: "i < NPROC" "pstate (procs s i) = UNUSED" using find_slot [OF Some] by auto
  define p1 where "p1 = (procs s i)\<lparr>pid := nextpid s, pvma := 0, filelimit := of_nat NOFILE, ktime := 1, utime := 1, uid := 0, gid := 0,
    pgid := 0, sigactions := (\<lambda>_. zero_sigaction), sig_set := 0, sig_pending := 0\<rparr>"
  define s1 where "s1 = s\<lparr>nextpid := nextpid s + 1, procs := (procs s)(i := p1)\<rparr>"
  have "alloc_space i s1 = Ret (r, s')"
    using a Some by (auto simp: allocproc_def allocpid_def s1_def p1_def split: if_splits)
  moreover have "pstate (procs s1 i) = UNUSED" using i by (simp add: s1_def p1_def)
  ultimately obtain p' where "slot_changed s1 i p' s'" "empty_slot p1 p'" "nextpid s' = nextpid s + 1"
    "r = None \<or> r = Some i \<and> pid p' = nextpid s"
    using alloc_space_slot [of i s1 r s'] by (auto simp: s1_def p1_def)
  then show thesis using i by (intro slot [of i p']) (auto simp: slot_changed_def empty_slot_def s1_def p1_def)
qed


section \<open>Waking\<close>

text \<open>What an operation on files may do to a process: count bytes for it, and wake it from a pipe.\<close>

definition woken :: "proc \<Rightarrow> proc \<Rightarrow> bool" where
  "woken p p' \<longleftrightarrow> p' = p\<lparr>pstate := pstate p', char_count := char_count p'\<rparr>
     \<and> (pstate p' = pstate p \<or> pstate p = SLEEPING \<and> (\<exists>pi c. pchan p = Some (PipeChan pi c)) \<and> pstate p' = RUNNABLE)"

definition quiet :: "sys \<Rightarrow> sys \<Rightarrow> bool" where
  "quiet s s' \<longleftrightarrow> (\<forall>i. woken (procs s i) (procs s' i)) \<and> nextpid s' = nextpid s \<and> initproc s' = initproc s \<and> cur s' = cur s"

lemma woken_refl [simp]: "woken p p"
  by (simp add: woken_def)

lemma woken_trans: "woken p q \<Longrightarrow> woken q r \<Longrightarrow> woken p r"
  by (cases p; cases q; cases r) (auto simp: woken_def)

lemma quiet_refl [simp]: "quiet s s"
  by (simp add: quiet_def)

lemma quiet_trans [trans]: "quiet s t \<Longrightarrow> quiet t u \<Longrightarrow> quiet s u"
  by (auto simp: quiet_def intro: woken_trans)

lemma same_tables_quiet: "same_tables s t \<Longrightarrow> quiet s t"
  by (simp add: same_tables_def quiet_def)

lemma quiet_files [simp]: "quiet s (s\<lparr>files := fl\<rparr>) \<and> quiet s (s\<lparr>pipes := ps\<rparr>) \<and> quiet s (s\<lparr>console := c\<rparr>) \<and> quiet s (s\<lparr>con_out := out\<rparr>)"
  by (simp add: quiet_def)

lemma woken_wake: "pstate p = SLEEPING \<Longrightarrow> pchan p = Some (PipeChan pi c) \<Longrightarrow> woken p (p\<lparr>pstate := RUNNABLE\<rparr>)"
  by (cases p) (simp add: woken_def)

lemma woken_count: "woken p (p\<lparr>char_count := n\<rparr>)"
  by (cases p) (simp add: woken_def)

lemma count_quiet: "quiet s (set_proc i (\<lambda>p. p\<lparr>char_count := f p\<rparr>) s)"
  by (simp add: quiet_def woken_count)

lemma wakeup_pipe_quiet: "quiet s (wakeup (PipeChan pi c) s)"
  by (simp add: quiet_def wakeup_def wake_proc_def woken_wake)

lemma wake_pipe_quiet: "quiet s (wake_pipe pi cs s)"
  unfolding wake_pipe_def by (induction cs arbitrary: s) (auto intro: quiet_trans [OF wakeup_pipe_quiet])

lemma wakeup_files [simp]: "files (wakeup c s) = files s"
  by (simp add: wakeup_def)

lemma wake_pipe_files [simp]: "files (wake_pipe pi cs s) = files s"
  unfolding wake_pipe_def by (induction cs arbitrary: s) auto

section \<open>Operations on files\<close>

text \<open>Reads and writes move the offset of the file and nothing else of the file table.\<close>

definition file_moved :: "sys \<Rightarrow> sys \<Rightarrow> bool" where
  "file_moved s s' \<longleftrightarrow> quiet s s' \<and> (\<forall>f. \<exists>off. files s' f = (files s f)\<lparr>foff := off\<rparr>)"

lemma file_same_off: "\<exists>off. x = x\<lparr>foff := off\<rparr>" for x :: kfile
  by (rule exI [of _ "foff x"]) simp

lemma moved_refl [simp]: "file_moved s s"
  by (simp add: file_moved_def file_same_off)

lemma file_moved_trans [trans]: assumes "file_moved s t" "file_moved t u" shows "file_moved s u"
proof -
  have "\<exists>off. files u f = (files s f)\<lparr>foff := off\<rparr>" for f
  proof -
    obtain a b where "files t f = (files s f)\<lparr>foff := a\<rparr>" "files u f = (files t f)\<lparr>foff := b\<rparr>"
      using assms unfolding file_moved_def by blast
    then show ?thesis by auto
  qed
  then show ?thesis using assms quiet_trans unfolding file_moved_def by blast
qed

lemma moved_off: "file_moved s (set_file f (\<lambda>y. y\<lparr>foff := v\<rparr>) s)"
  by (auto simp: file_moved_def file_same_off)

lemma quiet_moved: "quiet s t \<Longrightarrow> files t = files s \<Longrightarrow> file_moved s t"
  by (simp add: file_moved_def file_same_off)

lemma same_tables_moved: "same_tables s t \<Longrightarrow> file_moved s t"
  by (simp add: same_tables_quiet quiet_moved same_tables_def)

lemma wake_pipe_moved: "file_moved s (wake_pipe pi cs s)"
  by (simp add: quiet_moved wake_pipe_quiet)

lemma set_pipes_moved: "file_moved s (s\<lparr>pipes := ps\<rparr>)"
  by (simp add: quiet_moved)

lemma read_pipe_moved: "read_pipe pi user addr n s = Ret (r, s') \<Longrightarrow> file_moved s s'"
  by (auto simp: read_pipe_def res_simps intro!: file_moved_trans [OF _ wake_pipe_moved] quiet_moved simp: quiet_def)

lemma write_pipe_moved: "write_pipe a pi user addr n s = Ret (r, s') \<Longrightarrow> file_moved s s'"
  by (auto simp: write_pipe_def res_simps intro!: file_moved_trans [OF set_pipes_moved wake_pipe_moved])

lemma read_console_moved: "read_console a user addr n s = Ret (r, s') \<Longrightarrow> file_moved s s'"
  by (auto simp: read_console_def res_simps intro!: quiet_moved simp: quiet_def)

lemma write_console_moved: "write_console user addr n s = Ret (r, s') \<Longrightarrow> file_moved s s'"
  by (auto simp: write_console_def res_simps intro!: quiet_moved simp: quiet_def)

lemma read_byte_moved: "read_byte b addr s = Ret s' \<Longrightarrow> file_moved s s'"
  by (auto simp: read_byte_def res_simps intro: same_tables_moved)

lemma with_fs_moved: "with_fs f s = Ret s' \<Longrightarrow> file_moved s s'"
  by (rule same_tables_moved [OF with_fs_tables])

lemma with_fs_val_moved: "with_fs_val f s = Ret (r, s') \<Longrightarrow> file_moved s s'"
  by (rule same_tables_moved [OF with_fs_val_tables])

lemma count_moved: "file_moved s (set_proc i (\<lambda>p. p\<lparr>char_count := f p\<rparr>) s)"
  by (simp add: quiet_moved count_quiet)


lemmas moved_intros = read_pipe_moved write_pipe_moved read_console_moved write_console_moved read_byte_moved with_fs_moved with_fs_val_moved

lemma read_entry_moved:
  assumes "read_entry f addr n s = Ret (r, s')"
  shows "file_moved s s'"
proof -
  let ?e = "fep (files s f)"
  obtain s1 where 1: "with_fs (elock ?e) s = Ret s1" using assms by (cases "with_fs (elock ?e) s") (auto simp: read_entry_def Let_def)
  note m1 = with_fs_moved [OF 1]
  consider (counted) m where "with_fs (eunlock ?e) (set_proc (cur s1) (\<lambda>p. p\<lparr>char_count := m\<rparr>) s1) = Ret s'"
    | (bench) s2 where "with_fs (eunlock ?e) s1 = Ret s2" "read_byte 0x78 addr s2 = Ret s'"
    | (byte) b s2 where "read_byte b addr s1 = Ret s2" "with_fs (eunlock ?e) s2 = Ret s'"
    | (entry) v s2 where "with_fs_val (eread ?e True addr (foff (files s f)) (of_int n)) s1 = Ret (v, s2)"
        "with_fs (eunlock ?e) (if sint v > 0 then set_file f (\<lambda>y. y\<lparr>foff := foff y + v\<rparr>) s2 else s2) = Ret s'"
    using assms 1 by (auto simp: read_entry_def Let_def res_simps split: if_splits)
  then show ?thesis
  proof cases
    case counted
    from file_moved_trans [OF file_moved_trans [OF m1 count_moved [of s1 "cur s1" "\<lambda>_. m"]] with_fs_moved [OF this]] show ?thesis .
  next
    case bench
    then show ?thesis using m1 with_fs_moved read_byte_moved file_moved_trans by blast
  next
    case byte
    then show ?thesis using m1 with_fs_moved read_byte_moved file_moved_trans by blast
  next
    case entry
    have "file_moved s2 (if sint v > 0 then set_file f (\<lambda>y. y\<lparr>foff := foff y + v\<rparr>) s2 else s2)" by (simp add: moved_off)
    from file_moved_trans [OF file_moved_trans [OF file_moved_trans [OF m1 with_fs_val_moved [OF entry(1)]] this] with_fs_moved [OF entry(2)]] show ?thesis .
  qed
qed

lemma write_entry_moved:
  assumes "write_entry f addr n s = Ret (r, s')"
  shows "file_moved s s'"
proof -
  let ?e = "fep (files s f)"
  obtain s1 where 1: "with_fs (elock ?e) s = Ret s1" using assms by (cases "with_fs (elock ?e) s") (auto simp: write_entry_def Let_def)
  note m1 = with_fs_moved [OF 1]
  consider (counted) m where "with_fs (eunlock ?e) (set_proc (cur s1) (\<lambda>p. p\<lparr>char_count := m\<rparr>) s1) = Ret s'"
    | (entry) v s2 where "with_fs_val (ewrite ?e True addr (foff (files s f)) (of_int n)) s1 = Ret (v, s2)"
        "with_fs (eunlock ?e) (if v = n then set_file f (\<lambda>y. y\<lparr>foff := foff y + of_int n\<rparr>) s2 else s2) = Ret s'"
    using assms 1 by (auto simp: write_entry_def Let_def res_simps split: if_splits)
  then show ?thesis
  proof cases
    case counted
    from file_moved_trans [OF file_moved_trans [OF m1 count_moved [of s1 "cur s1" "\<lambda>_. m"]] with_fs_moved [OF this]] show ?thesis .
  next
    case entry
    have "file_moved s2 (if v = n then set_file f (\<lambda>y. y\<lparr>foff := foff y + of_int n\<rparr>) s2 else s2)" by (simp add: moved_off)
    from file_moved_trans [OF file_moved_trans [OF file_moved_trans [OF m1 with_fs_val_moved [OF entry(1)]] this] with_fs_moved [OF entry(2)]] show ?thesis .
  qed
qed

lemma fileread_moved: "fileread a f addr n s = Ret (r, s') \<Longrightarrow> file_moved s s'"
  by (auto simp: fileread_def Let_def res_simps split: if_splits ftype.splits dest: moved_intros read_entry_moved)

lemma filewrite_moved: "filewrite a f addr n s = Ret (r, s') \<Longrightarrow> file_moved s s'"
  by (auto simp: filewrite_def Let_def split: if_splits ftype.splits dest: moved_intros write_entry_moved)

lemma sys_read_moved: "sys_read a s = Ret (r, s') \<Longrightarrow> file_moved s s'"
  by (auto simp: sys_read_def split: sum.splits dest: fileread_moved)

lemma sys_write_moved: "sys_write a s = Ret (r, s') \<Longrightarrow> file_moved s s'"
  by (auto simp: sys_write_def split: sum.splits dest: filewrite_moved)

section \<open>Closing and opening\<close>

definition closed :: "kfile \<Rightarrow> kfile" where
  "closed x = (if fref x > 1 then x\<lparr>fref := fref x - 1\<rparr> else x\<lparr>fref := 0, ftype := FD_NONE\<rparr>)"

lemma close_pipe_frame: "close_pipe pi wr s = Ret s' \<Longrightarrow> quiet s s' \<and> files s' = files s"
proof -
  assume a: "close_pipe pi wr s = Ret s'"
  obtain p1 fr cs where c: "pipeclose wr (pipes s pi) = (p1, fr, cs)" by (cases "pipeclose wr (pipes s pi)") auto
  let ?s1 = "wake_pipe pi cs (s\<lparr>pipes := (pipes s)(pi := p1)\<rparr>)"
  have q: "quiet s ?s1" "files ?s1 = files s"
    using quiet_trans [OF _ wake_pipe_quiet, of s "s\<lparr>pipes := (pipes s)(pi := p1)\<rparr>"] by simp_all
  have "s' = ?s1 \<or> with_kmem (kfree pi) ?s1 = Ret s'" using a c by (auto simp: close_pipe_def Let_def split: if_splits)
  then have "same_tables ?s1 s'" using with_kmem_tables by auto
  then show ?thesis using q same_tables_quiet quiet_trans by (auto simp: same_tables_def)
qed

lemma fileclose_frame:
  assumes "fileclose f s = Ret s'"
  shows "quiet s s' \<and> 1 \<le> fref (files s f) \<and> files s' = (files s)(f := closed (files s f))"
proof -
  let ?s1 = "set_file f (\<lambda>y. y\<lparr>fref := 0, ftype := FD_NONE\<rparr>) s"
  have ref: "1 \<le> fref (files s f)" using assms by (auto simp: fileclose_def Let_def split: if_splits)
  show ?thesis
  proof (cases "fref (files s f) > 1")
    case True
    then show ?thesis using assms ref by (auto simp: fileclose_def closed_def Let_def)
  next
    case False
    then have "close_pipe (fpipe (files s f)) (writable (files s f)) ?s1 = Ret s' \<or> with_fs (eput eput_depth (fep (files s f))) ?s1 = Ret s' \<or> s' = ?s1"
      using assms ref by (auto simp: fileclose_def Let_def split: ftype.splits if_splits)
    then have "quiet ?s1 s' \<and> files s' = files ?s1"
      using close_pipe_frame with_fs_tables same_tables_quiet by (auto simp: same_tables_def)
    then show ?thesis using False ref quiet_trans [of s ?s1 s'] by (simp add: closed_def)
  qed
qed

section \<open>Running out of memory\<close>

lemma kfree_panics: "\<not> ram_page k p \<Longrightarrow> kfree p k = Panic ''kfree''"
  by (auto simp: kfree_def ram_page_def page_aligned_def not_less not_le)

lemma freeproc_no_table:
  assumes "ptrapframe (procs s i) = t" "t \<noteq> 0" "pagetable (procs s i) = 0" "kfree t (kmem s) = Ret k1"
  shows "kfree (exec_close (procs s i)) k1 = Panic e \<Longrightarrow> freeproc i s = Panic e"
    and "kfree (exec_close (procs s i)) k1 = Ret k2 \<Longrightarrow> \<exists>s'. freeproc i s = Ret s' \<and> kmem s' = k2"
  using assms by (auto simp: freeproc_def Let_def with_kmem_def)

text \<open>(C40) When memory runs out in the middle of \<open>allocproc\<close>, its failure path gives a page back that the new process
  never had: with one page left, the trapframe takes it, the page table gets none, and \<open>freeproc\<close> frees the trapframe
  and then the \<open>exec_close\<close> that an earlier process left in the slot. If that is a page of RAM, it is put on the free
  list, whoever uses it now; if not, as in a slot that was never used, the kernel panics.\<close>

theorem allocproc_frees_stale_page:
  assumes k: "kmem_wf (kmem s)" "free_list (kmem s) = [t]" and i: "find (\<lambda>i. pstate (procs s i) = UNUSED) [0..<NPROC] = Some i"
    and n: "nextpid s < 0x7fffffff" and x: "exec_close (procs s i) \<noteq> t"
  shows "if ram_page (kmem s) (exec_close (procs s i))
    then \<exists>s'. allocproc s = Ret (None, s') \<and> kmem_wf (kmem s') \<and> free_list (kmem s') = [exec_close (procs s i), t]
    else allocproc s = Panic ''kfree''"
proof -
  let ?x = "exec_close (procs s i)"
  obtain k1 where k1: "kalloc (kmem s) = (t, k1)" "kmem_wf k1" "free_list k1 = []" "kernel_end k1 = kernel_end (kmem s)"
    by (rule kalloc_refines [OF k]) auto
  have t: "ram_page (kmem s) t" "t \<noteq> 0" using kmem_wfD [OF k(1)] k(2) ram_page_not_0 by auto
  define k2 where "k2 = k1\<lparr>mem := memset (mem k1) t 0 4096\<rparr>"
  have k2: "kmem_wf k2" "free_list k2 = []" "kernel_end k2 = kernel_end (kmem s)"
    using kmem_write [OF k1(2) same_outside_memset [OF ram_page_aligned [OF t(1)]]] k1(3,4) by (simp_all add: k2_def)
  define p1 where "p1 = (procs s i)\<lparr>pid := nextpid s, pvma := 0, filelimit := of_nat NOFILE, ktime := 1, utime := 1, uid := 0, gid := 0,
    pgid := 0, sigactions := (\<lambda>_. zero_sigaction), sig_set := 0, sig_pending := 0, ptrapframe := t\<rparr>"
  define s1 where "s1 = (set_kmem k2 (s\<lparr>nextpid := nextpid s + 1\<rparr>))\<lparr>procs := (procs s)(i := p1)\<rparr>"
  define s2 where "s2 = set_proc i (\<lambda>p. p\<lparr>pagetable := 0\<rparr>) s1"
  have "uvmcreate k2 = (0, k2)" using kalloc_empty [OF k2(1,2)] by (simp add: uvmcreate_def)
  then have "proc_pagetable i s1 = Ret (0, s1)" by (simp add: proc_pagetable_def s1_def)
  then have a: "allocproc s = bind_res (freeproc i s2) (\<lambda>s3. Ret (None, s3))"
    using i n k1(1) t(2) by (simp add: allocproc_def allocpid_def alloc_space_def s1_def s2_def p1_def k2_def)
  have p2: "ptrapframe (procs s2 i) = t" "pagetable (procs s2 i) = 0" "exec_close (procs s2 i) = ?x" "kmem s2 = k2"
    by (simp_all add: s2_def s1_def p1_def)
  have r2: "ram_page k2 y = ram_page (kmem s) y" for y using k2(3) by (rule ram_page_cong)
  obtain k3 where k3: "kfree t k2 = Ret k3" "kmem_wf k3" "free_list k3 = [t]" "kernel_end k3 = kernel_end k2"
    by (rule kfree_refines [OF k2(1)]) (use t(1) r2 k2(2) in auto)
  have r3: "ram_page k3 y = ram_page (kmem s) y" for y using ram_page_cong [OF k3(4)] r2 by simp
  note f = freeproc_no_table [OF p2(1) t(2) p2(2) k3(1) [folded p2(4)], unfolded p2(3)]
  show ?thesis
  proof (cases "ram_page (kmem s) ?x")
    case True
    then obtain k4 where k4: "kfree ?x k3 = Ret k4" "kmem_wf k4" "free_list k4 = [?x, t]"
      using x by (auto intro: kfree_refines [OF k3(2), of ?x] simp: r3 k3(3))
    then obtain s3 where "freeproc i s2 = Ret s3" "kmem s3 = k4" using f(2) by blast
    then show ?thesis using True a k4 by simp
  next
    case False
    then have "kfree ?x k3 = Panic ''kfree''" using kfree_panics r3 by simp
    then show ?thesis using False a f(1) by simp
  qed
qed

text \<open>A process table whose first slot still names a page below the last one.\<close>

definition stale_slot :: sys where
  "stale_slot = set_proc 0 (\<lambda>p. p\<lparr>exec_close := 0x9000000097FFE000\<rparr>) (zero_sys (one_page\<lparr>kernel_end := 0x9000000097FFE000\<rparr>))"

theorem allocproc_frees_stale_page_witness:
  "\<exists>s'. allocproc stale_slot = Ret (None, s') \<and> free_list (kmem s') = [0x9000000097FFE000, 0x9000000097FFF000]"
proof -
  have w: "kmem_wf (kmem stale_slot)" "free_list (kmem stale_slot) = [0x9000000097FFF000]"
    by (rule kmem_wfI [of "kmem stale_slot" "[0x9000000097FFF000]"];
        simp add: stale_slot_def zero_sys_def one_page_def ram_page_def page_aligned_def)+
  have f: "find (\<lambda>i. pstate (procs stale_slot i) = UNUSED) [0..<NPROC] = Some 0"
    by (simp add: stale_slot_def zero_sys_def zero_proc_def upt_rec [of 0])
  have e: "exec_close (procs stale_slot 0) = 0x9000000097FFE000" "nextpid stale_slot = 1"
    by (simp_all add: stale_slot_def zero_sys_def)
  have r: "ram_page (kmem stale_slot) 0x9000000097FFE000"
    by (simp add: stale_slot_def zero_sys_def one_page_def ram_page_def page_aligned_def)
  show ?thesis using allocproc_frees_stale_page [OF w f] by (auto simp: e r)
qed

end
