(* ===== verification/Descr.thy ===== *)
theory Descr
  imports Frames
begin

text \<open>
  Descriptors and the files they refer to. The reference count of a file is at least the number of descriptors, over all
  processes, that refer to it, and the type of a file in use is one that opening sets.
\<close>

section \<open>Counting descriptors\<close>

definition fdslots :: "(nat \<times> nat) set" where
  "fdslots = {..<NPROC} \<times> {..<NOFILE}"

definition fdmap :: "sys \<Rightarrow> nat \<times> nat \<Rightarrow> nat option" where
  "fdmap s = (\<lambda>(i, fd). ofile (procs s i) fd)"

definition nfds :: "(nat \<times> nat \<Rightarrow> nat option) \<Rightarrow> nat \<Rightarrow> nat" where
  "nfds D f = card {x \<in> fdslots. D x = Some f}"

lemma finite_fdslots [simp]: "finite {x \<in> fdslots. P x}"
  by (simp add: fdslots_def)

lemma nfds_pos: assumes "x \<in> fdslots" "D x = Some f" shows "0 < nfds D f"
proof -
  have "x \<in> {x \<in> fdslots. D x = Some f}" using assms by simp
  then have "{x \<in> fdslots. D x = Some f} \<noteq> {}" by (metis empty_iff)
  then show ?thesis by (simp only: nfds_def card_gt_0_iff finite_fdslots simp_thms)
qed

lemma nfds_add: "nfds (D(x := Some f)) f \<le> Suc (nfds D f)"
proof -
  have "{y \<in> fdslots. (D(x := Some f)) y = Some f} \<subseteq> insert x {y \<in> fdslots. D y = Some f}" by auto
  from card_mono [OF _ this] have "nfds (D(x := Some f)) f \<le> card (insert x {y \<in> fdslots. D y = Some f})" by (simp add: nfds_def)
  also have "\<dots> \<le> Suc (nfds D f)" by (simp add: nfds_def card_insert_if)
  finally show ?thesis .
qed

lemma nfds_other: "v \<noteq> Some f \<Longrightarrow> nfds (D(x := v)) f \<le> nfds D f"
  unfolding nfds_def by (rule card_mono) (auto split: if_splits)

lemma nfds_remove:
  assumes "x \<in> fdslots" "D x = Some f"
  shows "Suc (nfds (D(x := None)) f) = nfds D f"
proof -
  have "{y \<in> fdslots. (D(x := None)) y = Some f} = {y \<in> fdslots. D y = Some f} - {x}" by auto
  then show ?thesis using assms card_Suc_Diff1 [of "{y \<in> fdslots. D y = Some f}" x] by (simp add: nfds_def)
qed

lemma nfds_cong: "(\<And>x. x \<in> fdslots \<Longrightarrow> D' x = D x) \<Longrightarrow> nfds D' f = nfds D f"
  unfolding nfds_def by (rule arg_cong [of _ _ card]) auto

section \<open>The invariant\<close>

definition file_typed :: "kfile \<Rightarrow> bool" where
  "file_typed x \<longleftrightarrow> (if fref x = 0 then ftype x = FD_NONE else ftype x \<in> {FD_PIPE, FD_ENTRY, FD_DEVICE, FD_NULL})
     \<and> (ftype x = FD_DEVICE \<longrightarrow> 0 \<le> major x \<and> major x < int NDEV)"

definition fds_ok :: "(nat \<times> nat \<Rightarrow> nat option) \<Rightarrow> (nat \<Rightarrow> kfile) \<Rightarrow> bool" where
  "fds_ok D F \<longleftrightarrow> (\<forall>x \<in> fdslots. \<forall>f. D x = Some f \<longrightarrow> f < NFILE)
     \<and> (\<forall>f < NFILE. int (nfds D f) \<le> fref (F f) \<and> file_typed (F f))"

lemma fds_okD:
  assumes "fds_ok D F"
  shows "x \<in> fdslots \<Longrightarrow> D x = Some f \<Longrightarrow> f < NFILE \<and> 1 \<le> fref (F f)"
    and "f < NFILE \<Longrightarrow> int (nfds D f) \<le> fref (F f)" and "f < NFILE \<Longrightarrow> file_typed (F f)"
  using assms nfds_pos [of x D f] unfolding fds_ok_def by force+

text \<open>The four ways in which calls change descriptors and files.\<close>

lemma fds_ok_offsets:
  assumes "fds_ok D F" "\<forall>f. \<exists>off. F' f = (F f)\<lparr>foff := off\<rparr>"
  shows "fds_ok D F'"
proof -
  have "fref (F' f) = fref (F f) \<and> file_typed (F' f) = file_typed (F f)" for f
    using assms(2) [rule_format, of f] by (auto simp: file_typed_def)
  then show ?thesis using assms(1) by (simp add: fds_ok_def)
qed

lemma fds_ok_file:
  assumes ok: "fds_ok D F" and f: "f < NFILE" and y: "int (nfds D f) \<le> fref y" "file_typed y"
  shows "fds_ok D (F(f := y))"
  using assms by (auto simp: fds_ok_def)

lemma fds_ok_add:
  assumes ok: "fds_ok D F" and f: "f < NFILE" and y: "fref (F f) < fref y" "file_typed y"
  shows "fds_ok (D(x := Some f)) (F(f := y))"
proof -
  have "int (nfds (D(x := Some f)) g) \<le> fref ((F(f := y)) g)" if "g < NFILE" for g
  proof (cases "g = f")
    case True
    then show ?thesis using nfds_add [of D x f] fds_okD(2) [OF ok f] y(1) by simp
  next
    case False
    then show ?thesis using nfds_other [of "Some f" g D x] fds_okD(2) [OF ok that] by simp
  qed
  moreover have "\<forall>z \<in> fdslots. \<forall>g. (D(x := Some f)) z = Some g \<longrightarrow> g < NFILE"
    using ok f by (auto simp: fds_ok_def)
  ultimately show ?thesis using ok y(2) by (auto simp: fds_ok_def)
qed

lemma fds_ok_dup:
  assumes ok: "fds_ok D F" and f: "f < NFILE" "1 \<le> fref (F f)"
  shows "fds_ok (D(x := Some f)) (F(f := (F f)\<lparr>fref := fref (F f) + 1\<rparr>))"
  using fds_okD(3) [OF ok f(1)] f by (intro fds_ok_add [OF ok f(1)]) (auto simp: file_typed_def split: if_splits)

lemma closed_typed: "file_typed y \<Longrightarrow> 1 \<le> fref y \<Longrightarrow> file_typed (closed y)"
  by (auto simp: closed_def file_typed_def)

lemma closed_ref: "1 \<le> fref y \<Longrightarrow> fref (closed y) = fref y - 1"
  by (auto simp: closed_def)

lemma fds_ok_close:
  assumes ok: "fds_ok D F" and x: "x \<in> fdslots" "D x = Some f"
  shows "fds_ok (D(x := None)) (F(f := closed (F f)))"
proof -
  have f: "f < NFILE" "1 \<le> fref (F f)" using fds_okD(1) [OF ok x] by auto
  have "int (nfds (D(x := None)) g) \<le> fref ((F(f := closed (F f))) g)" if "g < NFILE" for g
  proof (cases "g = f")
    case True
    then show ?thesis using nfds_remove [of x D f] x fds_okD(2) [OF ok f(1)] closed_ref [OF f(2)] by auto
  next
    case False
    then show ?thesis using nfds_other [of None g D x] fds_okD(2) [OF ok that] by simp
  qed
  moreover have "\<forall>z \<in> fdslots. \<forall>g. (D(x := None)) z = Some g \<longrightarrow> g < NFILE"
    using ok by (auto simp: fds_ok_def)
  ultimately show ?thesis using ok closed_typed [OF fds_okD(3) [OF ok f(1)] f(2)] by (auto simp: fds_ok_def)
qed

lemma fds_ok_free:
  assumes "fds_ok D F" "f < NFILE" "fref (F f) = 0"
  shows "nfds D f = 0" "ftype (F f) = FD_NONE"
  using fds_okD(2,3) [OF assms(1,2)] assms(3) by (simp_all add: file_typed_def)


section \<open>The calls\<close>

text \<open>A call on files is calm: it keeps identity, parent and channel of every process and the descriptors of the other
  processes, and wakes only sleepers on pipes.\<close>

definition calm :: "sys \<Rightarrow> sys \<Rightarrow> bool" where
  "calm s s' \<longleftrightarrow> (\<forall>i. pparent (procs s' i) = pparent (procs s i) \<and> pchan (procs s' i) = pchan (procs s i) \<and> pid (procs s' i) = pid (procs s i)
       \<and> (pstate (procs s' i) = pstate (procs s i) \<or>
          pstate (procs s i) = SLEEPING \<and> (\<exists>pi c. pchan (procs s i) = Some (PipeChan pi c)) \<and> pstate (procs s' i) = RUNNABLE)
       \<and> (i \<noteq> cur s \<longrightarrow> ofile (procs s' i) = ofile (procs s i)))
     \<and> nextpid s' = nextpid s \<and> initproc s' = initproc s \<and> cur s' = cur s"

lemma calm_refl [simp]: "calm s s"
  by (simp add: calm_def)

lemma calm_trans [trans]: "calm s t \<Longrightarrow> calm t u \<Longrightarrow> calm s u"
  unfolding calm_def by (metis procstate.distinct)

lemma woken_fields:
  assumes "woken p p'"
  shows "pparent p' = pparent p" "pchan p' = pchan p" "pid p' = pid p" "ofile p' = ofile p"
  using assms by (cases p; cases p'; simp add: woken_def)+

lemma woken_state:
  assumes "woken p p'"
  shows "pstate p' = pstate p \<or> pstate p = SLEEPING \<and> (\<exists>pi c. pchan p = Some (PipeChan pi c)) \<and> pstate p' = RUNNABLE"
  using assms unfolding woken_def by (elim conjE) assumption

lemma quiet_calm: "quiet s t \<Longrightarrow> calm s t"
  unfolding quiet_def calm_def by (simp add: woken_fields woken_state)

lemma quiet_fdmap: assumes "quiet s t" shows "fdmap t = fdmap s"
proof -
  have "ofile (procs t i) = ofile (procs s i)" for i using assms woken_fields(4) by (simp add: quiet_def)
  then show ?thesis by (simp add: fdmap_def)
qed

lemma set_fd_calm [simp]: "calm s (set_fd fd v s)"
  by (simp add: calm_def)

lemma fdmap_set_fd [simp]: "fdmap (set_fd fd v s) = (fdmap s)((cur s, fd) := v)"
  by (auto simp: fdmap_def fun_eq_iff)

lemma set_file_calm [simp]: "calm s (s\<lparr>files := fl\<rparr>)"
  by (simp add: calm_def)

lemma fdmap_files [simp]: "fdmap (s\<lparr>files := fl\<rparr>) = fdmap s"
  by (simp add: fdmap_def)

text \<open>A call keeps the tables in order.\<close>

definition fd_safe :: "sys \<Rightarrow> sys \<Rightarrow> bool" where
  "fd_safe s s' \<longleftrightarrow> calm s s' \<and> (fds_ok (fdmap s) (files s) \<longrightarrow> fds_ok (fdmap s') (files s'))"

lemma fd_safe_refl [simp]: "fd_safe s s"
  by (simp add: fd_safe_def)

lemma fd_safe_trans [trans]: "fd_safe s t \<Longrightarrow> fd_safe t u \<Longrightarrow> fd_safe s u"
  using calm_trans by (auto simp: fd_safe_def)

lemma moved_safe: "file_moved s s' \<Longrightarrow> fd_safe s s'"
  by (auto simp: fd_safe_def file_moved_def quiet_calm quiet_fdmap intro: fds_ok_offsets)

lemma same_tables_safe: "same_tables s s' \<Longrightarrow> fd_safe s s'"
  by (rule moved_safe [OF same_tables_moved])

lemma argfd_slot:
  assumes "argfd n s = Inr (fd, f)" "cur s < NPROC"
  shows "(cur s, fd) \<in> fdslots" "fdmap s (cur s, fd) = Some f"
  using assms by (auto simp: argfd_def Let_def fdslots_def fdmap_def split: if_splits option.splits)

lemma sys_close_safe:
  assumes "sys_close s = Ret (r, s')" "cur s < NPROC"
  shows "fd_safe s s'"
proof (cases "argfd 0 s")
  case (Inl e)
  then show ?thesis using assms by (simp add: sys_close_def)
next
  case (Inr q)
  then obtain fd f where a: "argfd 0 s = Inr (fd, f)" by (cases q) auto
  then have c: "fileclose f (set_fd fd None s) = Ret s'" using assms by (auto simp: sys_close_def res_simps)
  note fr = fileclose_frame [OF c]
  have "fdmap s' = (fdmap s)((cur s, fd) := None)" using quiet_fdmap [OF conjunct1 [OF fr]] by (simp only: fdmap_set_fd)
  moreover have "files s' = (files s)(f := closed (files s f))" using fr by simp
  ultimately show ?thesis
    using fds_ok_close [of "fdmap s" "files s" "(cur s, fd)" f] argfd_slot [OF a assms(2)] quiet_calm [OF conjunct1 [OF fr]]
      calm_trans [OF set_fd_calm] by (simp add: fd_safe_def)
qed

lemma filedup_frame: "filedup f s = Ret s' \<Longrightarrow> s' = set_file f (\<lambda>x. x\<lparr>fref := fref x + 1\<rparr>) s \<and> 1 \<le> fref (files s f)"
  by (auto simp: filedup_def split: if_splits)

lemma nofilemax_le: "nofilemax p \<le> NOFILE"
  by (auto simp: nofilemax_def word_less_nat_alt)

lemma fdalloc2_slot:
  assumes "fdalloc2 f start s = (Some fd, s')" "cur s < NPROC"
  shows "(cur s, fd) \<in> fdslots" "fdmap s (cur s, fd) = None" "s' = set_fd fd (Some f) s"
  using assms nofilemax_le [of "myproc s"]
  by (auto simp: fdalloc2_def fdslots_def fdmap_def find_Some_iff split: option.splits)

lemma fdalloc2_None: "fdalloc2 f start s = (None, s') \<Longrightarrow> s' = s"
  by (auto simp: fdalloc2_def split: option.splits)

lemma dup_safe:
  assumes "f < NFILE" "filedup f s = Ret s1"
  shows "fd_safe s (set_fd fd (Some f) s1)"
proof -
  have s1: "s1 = set_file f (\<lambda>x. x\<lparr>fref := fref x + 1\<rparr>) s" "1 \<le> fref (files s f)" using filedup_frame [OF assms(2)] by auto
  have "fds_ok (fdmap (set_fd fd (Some f) s1)) (files (set_fd fd (Some f) s1))" if "fds_ok (fdmap s) (files s)"
    using fds_ok_dup [OF that assms(1) s1(2), of "(cur s, fd)"] unfolding fdmap_set_fd by (simp add: s1(1))
  moreover have "calm s (set_fd fd (Some f) s1)" using s1 by (simp add: calm_def)
  ultimately show ?thesis by (simp add: fd_safe_def)
qed


lemma argfd_file:
  assumes "argfd n s = Inr (fd, f)" "cur s < NPROC" "fds_ok (fdmap s) (files s)"
  shows "f < NFILE" "1 \<le> fref (files s f)"
  using fds_okD(1) [OF assms(3) argfd_slot [OF assms(1,2)]] by auto

lemma fdalloc2_dup_safe:
  assumes a: "fdalloc2 f start s = (Some fd, s1)" "filedup f s1 = Ret s2" and c: "cur s < NPROC" "fds_ok (fdmap s) (files s) \<Longrightarrow> f < NFILE"
  shows "fd_safe s s2"
proof -
  have s1: "s1 = set_fd fd (Some f) s" using fdalloc2_slot [OF a(1) c(1)] by simp
  then obtain s3 where s3: "filedup f s = Ret s3" "s2 = set_fd fd (Some f) s3"
    using a(2) by (auto simp: filedup_def split: if_splits)
  then show ?thesis using dup_safe [OF c(2) s3(1), of fd] set_fd_calm calm_trans filedup_frame [OF s3(1)]
    by (auto simp: fd_safe_def calm_def)
qed

lemma sys_dup_safe:
  assumes "sys_dup s = Ret (r, s')" "cur s < NPROC"
  shows "fd_safe s s'"
proof (cases "argfd 0 s")
  case (Inr q)
  then obtain fd0 f where a: "argfd 0 s = Inr (fd0, f)" by (cases q) auto
  show ?thesis
  proof (cases "fdalloc2 f 0 s")
    case (Pair v s1)
    then show ?thesis
      using assms a fdalloc2_dup_safe [of f 0 s _ s1 s'] argfd_file(1) [OF a assms(2)] fdalloc2_None [of f 0 s s1]
      by (cases v) (auto simp: sys_dup_def fdalloc_def res_simps)
  qed
qed (use assms in \<open>simp add: sys_dup_def\<close>)

lemma sys_dup3_safe:
  assumes "sys_dup3 s = Ret (r, s')" "cur s < NPROC"
  shows "fd_safe s s'"
proof (cases "argfd 0 s")
  case (Inr q)
  then obtain fd0 f where a: "argfd 0 s = Inr (fd0, f)" by (cases q) auto
  have "s' = s \<or> (\<exists>s1. filedup f s = Ret s1 \<and> s' = set_fd (nat (argint 1 s)) (Some f) s1)"
    using assms(1) a by (auto simp: sys_dup3_def Let_def res_simps split: if_splits)
  then show ?thesis
  proof
    assume "\<exists>s1. filedup f s = Ret s1 \<and> s' = set_fd (nat (argint 1 s)) (Some f) s1"
    then obtain s1 where s1: "filedup f s = Ret s1" "s' = set_fd (nat (argint 1 s)) (Some f) s1" by blast
    have "calm s s'" using s1 filedup_frame [OF s1(1)] by (auto simp: calm_def)
    then show ?thesis using s1(2) dup_safe [OF _ s1(1)] argfd_file(1) [OF a assms(2)] by (auto simp: fd_safe_def)
  qed simp
qed (use assms in \<open>simp add: sys_dup3_def\<close>)

section \<open>Opening\<close>

lemma filealloc_slot:
  assumes "filealloc s = (Some f, s1)"
  shows "f < NFILE" "fref (files s f) = 0" "s1 = set_file f (\<lambda>x. x\<lparr>fref := 1\<rparr>) s"
  using assms by (auto simp: filealloc_def find_Some_iff split: option.splits)

lemma filealloc_None: "filealloc s = (None, s1) \<Longrightarrow> s1 = s"
  by (auto simp: filealloc_def split: option.splits)

text \<open>Giving back a file that was just allocated.\<close>

lemma fileclose_fresh:
  assumes "fileclose f s = Ret s'" "fref (files s f) = 1"
  shows "quiet s s'" "files s' = (files s)(f := (files s f)\<lparr>fref := 0, ftype := FD_NONE\<rparr>)"
  using fileclose_frame [OF assms(1)] assms(2) by (simp_all add: closed_def)

text \<open>A new descriptor for a new file, of which the caller sets the type.\<close>

definition new_descr :: "sys \<Rightarrow> nat \<Rightarrow> nat \<Rightarrow> sys \<Rightarrow> bool" where
  "new_descr s f fd s' \<longleftrightarrow> calm s s' \<and> f < NFILE \<and> fref (files s f) = 0
     \<and> fdmap s' = (fdmap s)((cur s, fd) := Some f) \<and> files s' = (files s)(f := (files s f)\<lparr>fref := 1\<rparr>)"

lemma newfile_cases:
  assumes "newfile s = Ret (r, s')" "cur s < NPROC"
  shows "r = None \<and> fd_safe s s' \<or> (\<exists>f fd. r = Some (f, fd) \<and> new_descr s f fd s')"
proof (cases "filealloc s")
  case (Pair v s1)
  show ?thesis
  proof (cases v)
    case None
    then show ?thesis using assms Pair filealloc_None [of s s1] by (auto simp: newfile_def)
  next
    case (Some f)
    note fa = filealloc_slot [OF Pair [unfolded Some]]
    obtain w s2 where fd: "fdalloc2 f 0 s1 = (w, s2)" by fastforce
    show ?thesis
    proof (cases w)
      case None
      then have "r = None" and c: "fileclose f s1 = Ret s'"
        using assms(1) Pair Some fd fdalloc2_None [of f 0 s1 s2] by (auto simp: newfile_def fdalloc_def res_simps)
      note cl = fileclose_fresh [OF c]
      have q: "quiet s1 s'" "files s' = (files s)(f := (files s f)\<lparr>fref := 0, ftype := FD_NONE\<rparr>)" using cl fa(3) by auto
      have "fds_ok (fdmap s') (files s')" if ok: "fds_ok (fdmap s) (files s)"
      proof -
        have "fdmap s' = fdmap s" using quiet_fdmap [OF q(1)] fa(3) by simp
        then show ?thesis using q(2) fds_ok_file [OF ok fa(1)] fds_ok_free [OF ok fa(1,2)] by (simp add: file_typed_def)
      qed
      then show ?thesis using \<open>r = None\<close> quiet_calm [OF q(1)] calm_trans [of s s1 s'] fa(3) by (simp add: fd_safe_def)
    next
      case sfd: (Some fd')
      then have "r = Some (f, fd')" "s' = s2" using assms(1) Pair Some fd by (auto simp: newfile_def fdalloc_def)
      moreover have "s2 = set_fd fd' (Some f) s1" using fdalloc2_slot(3) [OF fd [unfolded sfd]] fa(3) assms(2) by simp
      moreover have "calm s (set_fd fd' (Some f) s1)" using fa(3) by (simp add: calm_def)
      ultimately show ?thesis using fa fdmap_set_fd [of s1 fd' "Some f"] by (auto simp: new_descr_def)
    qed
  qed
qed

lemma new_descr_safe:
  assumes n: "new_descr s f fd s1" and t: "quiet s1 s2" "files s2 = (files s1)(f := y)" "fref y = 1" "file_typed y"
  shows "fd_safe s s2"
proof -
  have f2: "files s2 = (files s)(f := y)" using n t(2) by (simp add: new_descr_def)
  have "fds_ok (fdmap s2) (files s2)" if "fds_ok (fdmap s) (files s)"
    using fds_ok_add [OF that, of f y "(cur s, fd)"] n f2 t(3,4) quiet_fdmap [OF t(1)] by (simp add: new_descr_def)
  then show ?thesis using n quiet_calm [OF t(1)] calm_trans by (auto simp: fd_safe_def new_descr_def)
qed

lemma new_descr_set:
  assumes "new_descr s f fd s1" "fref (g (files s1 f)) = 1" "file_typed (g (files s1 f))"
  shows "fd_safe s (set_file f g s1)"
  using assms by (intro new_descr_safe [OF assms(1), of _ "g (files s1 f)"]) simp_all

lemma new_descr_ref: "new_descr s f fd s1 \<Longrightarrow> fref (files s1 f) = 1"
  by (simp add: new_descr_def)

lemma open_null_safe:
  assumes "open_null s = Ret (r, s')" "cur s < NPROC"
  shows "fd_safe s s'"
proof -
  obtain q s1 where n: "newfile s = Ret (q, s1)" using assms(1) by (cases "newfile s") (auto simp: open_null_def)
  from newfile_cases [OF this assms(2)] show ?thesis
  proof (elim disjE conjE exE)
    fix f fd assume q: "q = Some (f, fd)" "new_descr s f fd s1"
    let ?g = "\<lambda>x. x\<lparr>ftype := FD_NULL, foff := 0, fep := no_ent, readable := True, writable := True\<rparr>"
    have "s' = set_file f ?g s1" using assms(1) n q(1) by (simp add: open_null_def)
    then show ?thesis using new_descr_set [OF q(2), of ?g] new_descr_ref [OF q(2)] by (simp add: file_typed_def)
  qed (use assms(1) n in \<open>simp add: open_null_def\<close>)
qed

lemma sys_dev_safe:
  assumes "sys_dev s = Ret (r, s')" "cur s < NPROC"
  shows "fd_safe s s'"
proof (cases "argint 1 s < 0 \<or> argint 1 s \<ge> int NDEV")
  case True
  then show ?thesis using assms(1) by (auto simp: sys_dev_def Let_def split: if_splits)
next
  case False
  then obtain q s1 where n: "newfile s = Ret (q, s1)"
    using assms(1) by (cases "newfile s") (auto simp: sys_dev_def Let_def split: if_splits)
  from newfile_cases [OF this assms(2)] show ?thesis
  proof (elim disjE conjE exE)
    fix f fd assume q: "q = Some (f, fd)" "new_descr s f fd s1"
    obtain rd wr where s': "s' = set_file f (\<lambda>x. x\<lparr>ftype := FD_DEVICE, foff := 0, fep := no_ent, major := argint 1 s, readable := rd, writable := wr\<rparr>) s1"
      using assms(1) n q(1) False by (auto simp: sys_dev_def Let_def split: if_splits)
    show ?thesis unfolding s' by (rule new_descr_set [OF q(2)]) (use new_descr_ref [OF q(2)] False in \<open>simp_all add: file_typed_def\<close>)
  qed (use assms(1) n False in \<open>auto simp: sys_dev_def Let_def split: if_splits\<close>)
qed

lemma open_entry_safe:
  assumes a: "open_entry e omode err s = Ret (r, s')" and c: "cur s < NPROC"
  shows "fd_safe s s'"
proof -
  obtain q s1 where n: "newfile s = Ret (q, s1)" using a by (cases "newfile s") (auto simp: open_entry_def)
  from newfile_cases [OF this c] show ?thesis
  proof (elim disjE conjE exE)
    assume "q = None" "fd_safe s s1"
    moreover then have "put_entry e s1 = Ret s'" using a n by (auto simp: open_entry_def res_simps)
    ultimately show ?thesis using same_tables_safe [OF put_entry_tables] fd_safe_trans by blast
  next
    fix f fd assume q: "q = Some (f, fd)" "new_descr s f fd s1"
    define y where "y s2 = (if omode AND O_APPEND \<noteq> 0 then file_size (ents (fs s2) e) else 0)" for s2 :: sys
    obtain s2 where t: "(if attribute (ents (fs s1) e) AND ATTR_DIRECTORY = 0 \<and> omode AND O_TRUNC \<noteq> 0 then with_fs (etrunc e) s1 else Ret s1) = Ret s2"
      and w: "with_fs (eunlock e) (set_file f (\<lambda>x. x\<lparr>ftype := FD_ENTRY, foff := y s2,
          fep := e, readable := (omode AND O_WRONLY = 0), writable := (omode AND O_WRONLY \<noteq> 0 \<or> omode AND O_RDWR \<noteq> 0)\<rparr>) s2) = Ret s'"
      using a n q(1) unfolding open_entry_def y_def by (auto simp only: res_simps Let_def bind_res.simps prod.case option.case res.inject prod.inject)
    have s2: "same_tables s1 s2" using t with_fs_tables by (simp split: if_splits)
    let ?x = "(files s2 f)\<lparr>ftype := FD_ENTRY, foff := y s2, fep := e, readable := (omode AND O_WRONLY = 0),
      writable := (omode AND O_WRONLY \<noteq> 0 \<or> omode AND O_RDWR \<noteq> 0)\<rparr>"
    have "same_tables (s2\<lparr>files := (files s2)(f := ?x)\<rparr>) s'" using with_fs_tables [OF w] by simp
    moreover have "files s2 = files s1" "fref (files s2 f) = 1" using s2 q(2) by (simp_all add: same_tables_def new_descr_def)
    ultimately have "quiet s1 s'" "files s' = (files s1)(f := ?x)" "fref ?x = 1" "file_typed ?x"
      using s2 by (simp_all add: same_tables_def quiet_def file_typed_def)
    then show ?thesis using new_descr_safe [OF q(2)] by blast
  qed
qed

lemma sys_openat_safe:
  assumes a: "sys_openat s = Ret (r, s')" and c: "cur s < NPROC"
  shows "fd_safe s s'"
proof -
  obtain p where p: "argstr 1 (of_nat FAT32_MAX_PATH) s = Ret p" using a by (cases "argstr 1 (of_nat FAT32_MAX_PATH) s") (auto simp: sys_openat_def)
  show ?thesis
  proof (cases "p = None \<or> (\<exists>path. p = Some path \<and> starts_with ''/dev/null'' path)")
    case True
    then show ?thesis using a p open_null_safe [OF _ c] by (auto simp: sys_openat_def)
  next
    case False
    then obtain path where path: "p = Some path" "\<not> starts_with ''/dev/null'' path" by auto
    define flags :: u32 where "flags = of_int (argint 2 s) OR O_RDWR"
    obtain dp s1 ep s2 where d: "at_dir s = Ret (dp, s1)" "openat_entry dp path flags s1 = Ret (ep, s2)"
      and r: "(case ep of None \<Rightarrow> Ret (-1, s2)
             | Some e \<Rightarrow>
               if attribute (ents (fs s2) e) AND ATTR_DIRECTORY \<noteq> 0 \<and> flags AND O_WRONLY = 0 \<and> flags AND O_RDWR = 0
               then bind_res (put_entry e s2) (\<lambda>s3. Ret (-1, s3))
               else bind_res (open_entry e flags (-24) s2) (\<lambda>(r, s3). if r < 0 then Ret (r, s3) else openat_done dp e path r s3)) = Ret (r, s')"
      using a p path unfolding sys_openat_def flags_def [symmetric] by (auto simp: res_simps Let_def)
    have s2: "same_tables s s2" using at_dir_tables [OF d(1)] openat_entry_tables [OF d(2)] same_tables_trans by blast
    then have c2: "cur s2 < NPROC" using c by (simp add: same_tables_def)
    consider "s' = s2" | e where "put_entry e s2 = Ret s'" | e v s3 where "open_entry e flags (-24) s2 = Ret (v, s3)" "s' = s3"
      | e v s3 where "open_entry e flags (-24) s2 = Ret (v, s3)" "openat_done dp e path v s3 = Ret (r, s')"
      using r by (cases ep) (auto simp: res_simps split: if_splits)
    then have "fd_safe s2 s'"
    proof cases
      case 4
      then show ?thesis using open_entry_safe [OF 4(1) c2] same_tables_safe [OF openat_done_tables [OF 4(2)]] fd_safe_trans by blast
    qed (auto intro: same_tables_safe put_entry_tables open_entry_safe c2)
    then show ?thesis using same_tables_safe [OF s2] fd_safe_trans by blast
  qed
qed


section \<open>Pipes\<close>

lemma fds_ok_reset:
  assumes "fds_ok D F" "f < NFILE" "fref (F f) = 0" "fref y = 0" "ftype y = FD_NONE"
  shows "fds_ok D (F(f := y))"
  using fds_ok_file [OF assms(1,2), of y] fds_ok_free [OF assms(1,2,3)] assms(4,5) by (simp add: file_typed_def)

text \<open>Two files that were free, in use by nobody yet.\<close>

definition two_files :: "sys \<Rightarrow> nat \<Rightarrow> nat \<Rightarrow> sys \<Rightarrow> bool" where
  "two_files s f0 f1 t \<longleftrightarrow> calm s t \<and> fdmap t = fdmap s \<and> f0 \<noteq> f1 \<and> f0 < NFILE \<and> f1 < NFILE \<and> fref (files s f0) = 0 \<and> fref (files s f1) = 0
     \<and> files t = (files s)(f0 := files t f0, f1 := files t f1) \<and> fref (files t f0) = 1 \<and> fref (files t f1) = 1"

lemma close_two:
  assumes t: "two_files s f0 f1 t" and c: "fileclose f0 t = Ret t1" "fileclose f1 t1 = Ret t2"
  shows "fd_safe s t2"
proof -
  define y0 y1 where "y0 = files t f0" and "y1 = files t f1"
  then have y: "files t = (files s)(f0 := y0, f1 := y1)" "fref y0 = 1" "fref y1 = 1" and ne: "f0 \<noteq> f1"
    using t by (simp_all add: two_files_def)
  have 1: "quiet t t1" "files t1 = (files t)(f0 := y0\<lparr>fref := 0, ftype := FD_NONE\<rparr>)"
    using fileclose_fresh [OF c(1)] y ne by simp_all
  have 2: "quiet t1 t2" "files t2 = (files t1)(f1 := y1\<lparr>fref := 0, ftype := FD_NONE\<rparr>)"
    using fileclose_fresh [OF c(2)] y 1(2) ne by simp_all
  have F: "files t2 = (files s)(f0 := y0\<lparr>fref := 0, ftype := FD_NONE\<rparr>, f1 := y1\<lparr>fref := 0, ftype := FD_NONE\<rparr>)"
    using 1(2) 2(2) y(1) ne by (auto simp: fun_eq_iff)
  have D: "fdmap t2 = fdmap s" using quiet_fdmap [OF 1(1)] quiet_fdmap [OF 2(1)] t by (simp add: two_files_def)
  have "fds_ok (fdmap s) (files t2)" if ok: "fds_ok (fdmap s) (files s)"
    unfolding F using t by (intro fds_ok_reset ok) (auto simp: two_files_def)
  moreover have "calm s t2"
    using t quiet_calm [OF 1(1)] quiet_calm [OF 2(1)] calm_trans unfolding two_files_def by blast
  ultimately show ?thesis by (simp add: fd_safe_def D)
qed

lemma filealloc_twice:
  assumes "filealloc s = (Some f0, s1)" "filealloc s1 = (Some f1, s2)"
  shows "f0 \<noteq> f1" "f0 < NFILE" "f1 < NFILE" "fref (files s f0) = 0" "fref (files s f1) = 0"
    "s2 = s\<lparr>files := (files s)(f0 := (files s f0)\<lparr>fref := 1\<rparr>, f1 := (files s f1)\<lparr>fref := 1\<rparr>)\<rparr>"
  using filealloc_slot [OF assms(1)] filealloc_slot [OF assms(2)] by (auto split: if_splits)

lemma fd_safe_calm_eq: "calm s t \<Longrightarrow> fdmap t = fdmap s \<Longrightarrow> (fds_ok (fdmap s) (files s) \<Longrightarrow> fds_ok (fdmap s) (files t)) \<Longrightarrow> fd_safe s t"
  by (simp add: fd_safe_def)

lemma close_fresh_safe:
  assumes f: "filealloc s = (Some f, s1)" and c: "fileclose f s1 = Ret s2"
  shows "fd_safe s s2"
proof -
  note fa = filealloc_slot [OF f]
  have q: "quiet s1 s2" and F: "files s2 = (files s)(f := (files s f)\<lparr>fref := 0, ftype := FD_NONE\<rparr>)"
    using fileclose_fresh [OF c] fa(3) by auto
  have "calm s s2" using calm_trans [OF _ quiet_calm [OF q], of s] fa(3) by simp
  moreover have "fdmap s2 = fdmap s" using quiet_fdmap [OF q] fa(3) by simp
  ultimately show ?thesis
    using fds_ok_reset [of "fdmap s" "files s" f "(files s f)\<lparr>fref := 0, ftype := FD_NONE\<rparr>"] fa(1,2) F
    by (intro fd_safe_calm_eq) simp_all
qed

lemma pipealloc_cases:
  assumes a: "pipealloc s = Ret (r, s')"
  shows "r = None \<and> fd_safe s s' \<or> (\<exists>f0 f1. r = Some (f0, f1) \<and> two_files s f0 f1 s'
    \<and> file_typed (files s' f0) \<and> file_typed (files s' f1))"
proof (cases "filealloc s")
  case (Pair v s1)
  show ?thesis
  proof (cases v)
    case None
    then show ?thesis using a Pair filealloc_None [of s s1] by (auto simp: pipealloc_def)
  next
    case (Some f0)
    obtain w s2 where w: "filealloc s1 = (w, s2)" by fastforce
    show ?thesis
    proof (cases w)
      case None
      then have "r = None" "fileclose f0 s1 = Ret s'"
        using a Pair Some w filealloc_None [of s1 s2] by (auto simp: pipealloc_def res_simps)
      then show ?thesis using close_fresh_safe Pair Some by blast
    next
      case sf: (Some f1)
      note tw = filealloc_twice [OF Pair [unfolded Some] w [unfolded sf]]
      obtain pi k where k: "kalloc (kmem s2) = (pi, k)" by fastforce
      show ?thesis
      proof (cases "pi = 0")
        case True
        then obtain s3 where r: "r = None" and c: "fileclose f0 (set_kmem k s2) = Ret s3" "fileclose f1 s3 = Ret s'"
          using a Pair Some w sf k by (auto simp: pipealloc_def res_simps)
        have "two_files s f0 f1 (set_kmem k s2)"
          using tw by (auto simp: two_files_def calm_def fdmap_def)
        then show ?thesis using close_two [OF _ c] r by blast
      next
        case False
        then have "r = Some (f0, f1)" and s': "procs s' = procs s2" "nextpid s' = nextpid s2" "initproc s' = initproc s2" "cur s' = cur s2"
          "files s' = (files s2)(f0 := (files s2 f0)\<lparr>ftype := FD_PIPE, readable := True, writable := False, fpipe := pi\<rparr>,
             f1 := (files s2 f1)\<lparr>ftype := FD_PIPE, readable := False, writable := True, fpipe := pi\<rparr>)"
          using a Pair Some w sf k tw(1) by (auto simp: pipealloc_def Let_def)
        moreover have "two_files s f0 f1 s'" "file_typed (files s' f0)" "file_typed (files s' f1)"
          using tw s' by (auto simp: two_files_def calm_def fdmap_def file_typed_def fun_upd_twist)
        ultimately show ?thesis by blast
      qed
    qed
  qed
qed

lemma two_files_keep:
  assumes "two_files s f0 f1 t" "calm t t'" "fdmap t' = fdmap t" "files t' = files t"
  shows "two_files s f0 f1 t'"
  using assms calm_trans [of s t t'] by (simp add: two_files_def)

lemma two_files_safe:
  assumes t: "two_files s f0 f1 t" and ty: "file_typed (files t f0)" "file_typed (files t f1)"
    and t': "calm t t'" "files t' = files t" "fdmap t' = (fdmap t)(x := Some f0, y := Some f1)"
  shows "fd_safe s t'"
proof -
  have "fds_ok (fdmap t') (files t')" if ok: "fds_ok (fdmap s) (files s)"
  proof -
    have "fds_ok ((fdmap s)(x := Some f0)) ((files s)(f0 := files t f0))"
      using t ty by (intro fds_ok_add [OF ok]) (auto simp: two_files_def)
    then have "fds_ok ((fdmap s)(x := Some f0, y := Some f1)) ((files s)(f0 := files t f0, f1 := files t f1))"
      by (rule fds_ok_add) (use t ty in \<open>auto simp: two_files_def\<close>)
    moreover have "files t = (files s)(f0 := files t f0, f1 := files t f1)" "fdmap t = fdmap s"
      using t by (simp_all add: two_files_def)
    ultimately show ?thesis using t'(2,3) by simp
  qed
  then show ?thesis using t t'(1) calm_trans [of s t t'] by (auto simp: fd_safe_def two_files_def)
qed

lemma fdmap_tables: "same_tables s t \<Longrightarrow> fdmap t = fdmap s"
  by (simp add: same_tables_def fdmap_def)

lemma calm_tables: "same_tables s t \<Longrightarrow> calm s t"
  by (simp add: same_tables_def calm_def)

lemma sys_pipe_descr:
  assumes t: "two_files s f0 f1 s1" and ty: "file_typed (files s1 f0)" "file_typed (files s1 f1)" and c: "cur s < NPROC"
    and fd0: "fdalloc f0 s1 = (Some fd0, s2)" and fd1: "fdalloc f1 s2 = (Some fd1, s3)" and same: "same_tables s3 s5"
  shows "fd_safe s s5" and "two_files s f0 f1 (set_fd fd1 None (set_fd fd0 None s5))"
proof -
  have c1: "cur s1 = cur s" using t by (simp add: two_files_def calm_def)
  have a: "(cur s, fd0) \<in> fdslots" "fdmap s1 (cur s, fd0) = None" "s2 = set_fd fd0 (Some f0) s1"
    using fdalloc2_slot [OF fd0 [unfolded fdalloc_def]] c c1 by auto
  have b: "fdmap s2 (cur s, fd1) = None" "s3 = set_fd fd1 (Some f1) s2"
    using fdalloc2_slot [OF fd1 [unfolded fdalloc_def]] c c1 a(3) by auto
  have m: "fdmap s3 = (fdmap s1)((cur s, fd0) := Some f0, (cur s, fd1) := Some f1)"
    unfolding b(2) a(3) fdmap_set_fd using c1 by simp
  have m5: "fdmap s5 = fdmap s3" "files s5 = files s1" "cur s5 = cur s"
    using same fdmap_tables [OF same] a(3) b(2) c1 by (simp_all add: same_tables_def)
  have k: "calm s1 s5" using calm_tables [OF same] calm_trans set_fd_calm unfolding a(3) b(2) by blast
  show "fd_safe s s5" using two_files_safe [OF t ty k] m m5 by simp
  have "fdmap s1 (cur s, fd1) = None" using b(1) unfolding a(3) fdmap_set_fd by (simp split: if_splits add: c1)
  then have "fdmap (set_fd fd1 None (set_fd fd0 None s5)) = fdmap s1"
    unfolding fdmap_set_fd using m m5 a(2) by (auto simp: fun_eq_iff)
  moreover have "calm s1 (set_fd fd1 None (set_fd fd0 None s5))" using k by (simp add: calm_def)
  ultimately show "two_files s f0 f1 (set_fd fd1 None (set_fd fd0 None s5))"
    using m5(2) by (intro two_files_keep [OF t]) simp_all
qed

lemma sys_pipe_first:
  assumes t: "two_files s f0 f1 s1" and c: "cur s < NPROC" and fd0: "fdalloc f0 s1 = (Some fd0, s2)"
  shows "two_files s f0 f1 (set_fd fd0 None s2)"
proof -
  have a: "fdmap s1 (cur s1, fd0) = None" "s2 = set_fd fd0 (Some f0) s1"
    using fdalloc2_slot [OF fd0 [unfolded fdalloc_def]] c t by (auto simp: two_files_def calm_def)
  have "fdmap (set_fd fd0 None s2) = fdmap s1" unfolding fdmap_set_fd a(2) using a(1) by (auto simp: fun_eq_iff)
  then show ?thesis using a(2) by (intro two_files_keep [OF t]) (simp_all add: calm_def)
qed

lemma sys_pipe_safe:
  assumes p: "sys_pipe s = Ret (r, s')" and c: "cur s < NPROC"
  shows "fd_safe s s'"
proof (cases "pipealloc s")
  case (Ret q)
  obtain v s1 where a: "pipealloc s = Ret (v, s1)" using Ret by (cases q) auto
  show ?thesis
  proof (cases v)
    case None
    then show ?thesis using p a pipealloc_cases [OF a] by (auto simp: sys_pipe_def)
  next
    case (Some ff)
    then obtain f0 f1 where ff: "v = Some (f0, f1)" and t: "two_files s f0 f1 s1"
      and ty: "file_typed (files s1 f0)" "file_typed (files s1 f1)"
      using pipealloc_cases [OF a] by auto
    obtain w0 s2 where fd0: "fdalloc f0 s1 = (w0, s2)" by fastforce
    obtain w1 s3 where fd1: "fdalloc f1 s2 = (w1, s3)" by fastforce
    consider (none) "w0 = None" | (one) d0 where "w0 = Some d0" "w1 = None" | (two) d0 d1 where "w0 = Some d0" "w1 = Some d1" by (cases w0; cases w1) auto
    then show ?thesis
    proof cases
      case none
      then obtain s4 where "fileclose f0 s1 = Ret s4" "fileclose f1 s4 = Ret s'"
        using p a ff fd0 fdalloc2_None [of f0 0 s1 s2] by (auto simp: sys_pipe_def res_simps fdalloc_def)
      then show ?thesis using close_two [OF t] by blast
    next
      case one
      then obtain s4 where "fileclose f0 (set_fd d0 None s2) = Ret s4" "fileclose f1 s4 = Ret s'"
        using p a ff fd0 fd1 fdalloc2_None [of f1 0 s2 s3] by (auto simp: sys_pipe_def res_simps fdalloc_def)
      then show ?thesis using close_two [OF sys_pipe_first [OF t c]] fd0 one(1) by blast
    next
      case two
      note fd = fd0 [unfolded two(1)] fd1 [unfolded two(2)]
      obtain r0 s4 r1 s5 where o: "copyout_cur (argaddr 0 s) (le_bytes 4 (of_nat d0 :: u32)) s3 = Ret (r0, s4)"
        "(if r0 < 0 then Ret (r0, s4) else copyout_cur (argaddr 0 s + 4) (le_bytes 4 (of_nat d1 :: u32)) s4) = Ret (r1, s5)"
        "(if r1 < 0 then bind_res (fileclose f0 (set_fd d1 None (set_fd d0 None s5))) (\<lambda>s6.
            bind_res (fileclose f1 s6) (\<lambda>s7. Ret (-1, s7))) else Ret (0, s5)) = Ret (r, s')"
        using p a ff fd by (auto simp: sys_pipe_def Let_def res_simps)
      have "same_tables s3 s5"
        using copyout_cur_tables [OF o(1)] o(2) copyout_cur_tables same_tables_trans by (auto split: if_splits)
      note d = sys_pipe_descr [OF t ty c fd this]
      show ?thesis using o(3) d(1) close_two [OF d(2)] by (auto simp: res_simps split: if_splits)
    qed
  qed
qed (use p in \<open>simp_all add: sys_pipe_def Let_def\<close>)

end
