(* ===== verification/Ptable.thy ===== *)
theory Ptable
  imports Descr
begin

text \<open>
  The process table in order: the invariant on the table, its next identifier and the processes in the middle of
  \<^verbatim>\<open>exit\<close>, and the changes of the table (a new child, a dead or reaped process, a sleeper woken) that keep it.
\<close>

section \<open>The table in order\<close>

text \<open>A table, the next identifier, the slot of the first process, and for each process in the middle of \<^verbatim>\<open>exit\<close> the
  parent it has read.\<close>

abbreviation in_use :: "proc \<Rightarrow> bool" where "in_use p \<equiv> pstate p \<noteq> UNUSED"
abbreviation alive :: "proc \<Rightarrow> bool" where "alive p \<equiv> pstate p \<noteq> UNUSED \<and> pstate p \<noteq> ZOMBIE"
abbreviation awake :: "proc \<Rightarrow> bool" where "awake p \<equiv> pstate p = RUNNING \<or> pstate p = RUNNABLE"

type_synonym ptab = "nat \<Rightarrow> proc"

definition init_ok :: "ptab \<Rightarrow> nat \<Rightarrow> (nat \<Rightarrow> nat option) \<Rightarrow> bool" where
  "init_ok P z L \<longleftrightarrow> z < NPROC \<and> alive (P z) \<and> pparent (P z) = None \<and> L z = None"

definition pids_ok :: "ptab \<Rightarrow> int \<Rightarrow> bool" where
  "pids_ok P n \<longleftrightarrow> (\<forall>i < NPROC. in_use (P i) \<longrightarrow> 0 < pid (P i) \<and> pid (P i) < n)
     \<and> (\<forall>i < NPROC. \<forall>j < NPROC. in_use (P i) \<and> in_use (P j) \<and> pid (P i) = pid (P j) \<longrightarrow> i = j)"

definition tree_ok :: "ptab \<Rightarrow> nat \<Rightarrow> bool" where
  "tree_ok P z \<longleftrightarrow> (\<forall>i < NPROC. in_use (P i) \<and> i \<noteq> z \<longrightarrow> (\<exists>q < NPROC. pparent (P i) = Some q \<and> alive (P q)))
     \<and> (\<forall>i < NPROC. \<not> in_use (P i) \<longrightarrow> pparent (P i) = None) \<and> (\<forall>i < NPROC. pparent (P i) \<noteq> Some i)"

definition leaving_ok :: "ptab \<Rightarrow> nat \<Rightarrow> (nat \<Rightarrow> nat option) \<Rightarrow> bool" where
  "leaving_ok P z L \<longleftrightarrow> (\<forall>i < NPROC. \<forall>q. L i = Some q \<longrightarrow> awake (P i) \<and> (pparent (P i) = Some q \<or> pparent (P i) = Some z))"

text \<open>A process asleep in \<^verbatim>\<open>wait\<close> has no dead child, and one asleep in \<^verbatim>\<open>wait4pid\<close> on a child has that child alive.\<close>

definition sleeper_ok :: "ptab \<Rightarrow> nat \<Rightarrow> bool" where
  "sleeper_ok P q \<longleftrightarrow> (pchan (P q) = Some (ProcChan q) \<longrightarrow> (\<forall>i < NPROC. pparent (P i) = Some q \<longrightarrow> pstate (P i) \<noteq> ZOMBIE))
     \<and> (\<forall>t. t \<noteq> q \<and> pchan (P q) = Some (ProcChan t) \<longrightarrow> t < NPROC \<and> pparent (P t) = Some q \<and> alive (P t))"

definition waiting_ok :: "ptab \<Rightarrow> nat \<Rightarrow> bool" where
  "waiting_ok P z \<longleftrightarrow> (\<forall>q < NPROC. q \<noteq> z \<and> pstate (P q) = SLEEPING \<longrightarrow> sleeper_ok P q)"

definition tab_ok :: "ptab \<Rightarrow> int \<Rightarrow> nat \<Rightarrow> (nat \<Rightarrow> nat option) \<Rightarrow> bool" where
  "tab_ok P n z L \<longleftrightarrow> init_ok P z L \<and> pids_ok P n \<and> tree_ok P z \<and> leaving_ok P z L \<and> waiting_ok P z"

text \<open>Changes that keep identity and parent of every process, and the state up to waking and scheduling.\<close>

definition nudged :: "ptab \<Rightarrow> ptab \<Rightarrow> bool" where
  "nudged P P' \<longleftrightarrow> (\<forall>i. pid (P' i) = pid (P i) \<and> pparent (P' i) = pparent (P i)
     \<and> (pstate (P' i) = pstate (P i) \<and> pchan (P' i) = pchan (P i) \<or> awake (P i) \<and> awake (P' i) \<or> pstate (P i) = SLEEPING \<and> awake (P' i)))"

lemma nudgedD:
  assumes "nudged P P'"
  shows "pid (P' i) = pid (P i)" "pparent (P' i) = pparent (P i)" "in_use (P' i) \<longleftrightarrow> in_use (P i)"
    "pstate (P' i) = ZOMBIE \<longleftrightarrow> pstate (P i) = ZOMBIE" "awake (P i) \<Longrightarrow> awake (P' i)"
    "pstate (P' i) = SLEEPING \<Longrightarrow> pstate (P i) = SLEEPING \<and> pchan (P' i) = pchan (P i)"
  using assms [unfolded nudged_def, rule_format, of i] by auto

lemma nudged_ok:
  assumes "nudged P P'" "tab_ok P n z L"
  shows "tab_ok P' n z L"
proof -
  note d = nudgedD [OF assms(1)]
  have "init_ok P' z L" using assms(2) d by (simp add: tab_ok_def init_ok_def)
  moreover have "pids_ok P' n" using assms(2) d by (simp add: tab_ok_def pids_ok_def)
  moreover have "tree_ok P' z" using assms(2) d by (simp add: tab_ok_def tree_ok_def)
  moreover have "leaving_ok P' z L" using assms(2) d(2,5) unfolding tab_ok_def leaving_ok_def by metis
  moreover have "waiting_ok P' z" using assms(2) d(2,3,4,6) by (auto simp: tab_ok_def waiting_ok_def sleeper_ok_def)
  ultimately show ?thesis by (simp add: tab_ok_def)
qed

lemma nudged_refl [simp]: "nudged P P"
  by (simp add: nudged_def)

lemma nudged_trans [trans]: "nudged P Q \<Longrightarrow> nudged Q R \<Longrightarrow> nudged P R"
  unfolding nudged_def by (intro allI, erule_tac x = i in allE, erule_tac x = i in allE) auto

lemma pids_ok_le:
  assumes "pids_ok P n" "\<And>i. in_use (P' i) \<Longrightarrow> in_use (P i) \<and> pid (P' i) = pid (P i)"
  shows "pids_ok P' n"
  using assms unfolding pids_ok_def by (metis (no_types, lifting))

lemma tree_okD:
  assumes "tree_ok P z" "i < NPROC" "in_use (P i)" "i \<noteq> z"
  obtains q where "q < NPROC" "pparent (P i) = Some q" "alive (P q)"
  using assms unfolding tree_ok_def by blast

lemma tree_ok_upd:
  assumes t: "tree_ok P z" and own: "x < NPROC \<Longrightarrow> in_use p' \<Longrightarrow> x \<noteq> z \<Longrightarrow> \<exists>q < NPROC. pparent p' = Some q \<and> alive ((P(x := p')) q)"
    and none: "\<not> in_use p' \<Longrightarrow> pparent p' = None" and self: "x < NPROC \<Longrightarrow> pparent p' \<noteq> Some x" and kids: "alive (P x) \<Longrightarrow> \<not> alive p' \<Longrightarrow> \<forall>i < NPROC. pparent (P i) \<noteq> Some x"
  shows "tree_ok (P(x := p')) z"
proof -
  have "\<exists>q < NPROC. pparent ((P(x := p')) i) = Some q \<and> alive ((P(x := p')) q)" if i: "i < NPROC" "in_use ((P(x := p')) i)" "i \<noteq> z" for i
  proof (cases "i = x")
    case True
    then show ?thesis using own i by simp
  next
    case False
    then have "in_use (P i)" using i(2) by simp
    then obtain q where q: "q < NPROC" "pparent (P i) = Some q" "alive (P q)" by (rule tree_okD [OF t i(1) _ i(3)])
    have "alive ((P(x := p')) q)" using q kids i(1) by (cases "q = x") auto
    then show ?thesis using q False by auto
  qed
  moreover have "pparent ((P(x := p')) i) = None" if "i < NPROC" "\<not> in_use ((P(x := p')) i)" for i
    using t none that by (cases "i = x") (auto simp: tree_ok_def)
  moreover have "pparent ((P(x := p')) i) \<noteq> Some i" if "i < NPROC" for i
    using t self that by (cases "i = x") (auto simp: tree_ok_def)
  ultimately show ?thesis by (simp add: tree_ok_def)
qed

lemma tree_ok_same:
  assumes t: "tree_ok P z" and x: "pparent p' = pparent (P x)" "in_use p' \<longleftrightarrow> in_use (P x)" "\<not> in_use p' \<Longrightarrow> pparent p' = None"
    and kids: "alive (P x) \<Longrightarrow> \<not> alive p' \<Longrightarrow> \<forall>i < NPROC. pparent (P i) \<noteq> Some x"
  shows "tree_ok (P(x := p')) z"
proof (rule tree_ok_upd [OF t _ x(3) _ kids])
  assume a: "x < NPROC" "in_use p'" "x \<noteq> z"
  then have "in_use (P x)" using x(2) by simp
  then obtain q where q: "q < NPROC" "pparent (P x) = Some q" "alive (P q)" by (rule tree_okD [OF t a(1) _ a(3)])
  have "alive ((P(x := p')) q)" using q kids a(1) by (cases "q = x") auto
  then show "\<exists>q < NPROC. pparent p' = Some q \<and> alive ((P(x := p')) q)" using q x(1) by auto
next
  show "x < NPROC \<Longrightarrow> pparent p' \<noteq> Some x" using t x(1) unfolding tree_ok_def by metis
qed

text \<open>Going to sleep.\<close>

lemma asleep_ok:
  assumes ok: "tab_ok P n z L" and p: "pstate (P p) = RUNNING" "L p = None"
    and c: "\<And>t. c = ProcChan t \<Longrightarrow> sleeper_ok (P(p := (P p)\<lparr>pchan := Some c, pstate := SLEEPING\<rparr>)) p"
  shows "tab_ok (P(p := (P p)\<lparr>pchan := Some c, pstate := SLEEPING\<rparr>)) n z L"
proof -
  let ?P = "P(p := (P p)\<lparr>pchan := Some c, pstate := SLEEPING\<rparr>)"
  have "init_ok ?P z L" using ok p by (auto simp: tab_ok_def init_ok_def)
  moreover have "pids_ok ?P n" by (rule pids_ok_le [of P]) (use ok p in \<open>auto simp: tab_ok_def\<close>)
  moreover have "tree_ok ?P z"
    by (rule tree_ok_same) (use ok p in \<open>simp_all add: tab_ok_def\<close>)
  moreover have "leaving_ok ?P z L" using ok p by (simp add: tab_ok_def leaving_ok_def)
  moreover have "sleeper_ok ?P p" using c by (cases c) (auto simp: sleeper_ok_def)
  moreover have "sleeper_ok ?P q" if "q < NPROC" "q \<noteq> z" "pstate (P q) = SLEEPING" "q \<noteq> p" for q
    using ok that p(1) by (auto simp: tab_ok_def waiting_ok_def sleeper_ok_def)
  ultimately show ?thesis by (auto simp: tab_ok_def waiting_ok_def)
qed

text \<open>A slot that stays empty, and a new process.\<close>

lemma empty_ok:
  assumes ok: "tab_ok P n z L" and i: "pstate (P i) = UNUSED" "pstate p' = UNUSED" "pparent p' = None" and n: "n \<le> n'"
  shows "tab_ok (P(i := p')) n' z L"
proof -
  have "init_ok (P(i := p')) z L" using ok i by (auto simp: tab_ok_def init_ok_def)
  moreover have "pids_ok (P(i := p')) n'" using ok i n by (auto simp: tab_ok_def pids_ok_def)
  moreover have "tree_ok (P(i := p')) z" by (rule tree_ok_upd) (use ok i in \<open>simp_all add: tab_ok_def\<close>)
  moreover have "leaving_ok (P(i := p')) z L" using ok i by (fastforce simp: tab_ok_def leaving_ok_def)
  moreover have "waiting_ok (P(i := p')) z" using ok i by (fastforce simp: tab_ok_def waiting_ok_def sleeper_ok_def)
  ultimately show ?thesis by (simp add: tab_ok_def)
qed

lemma child_ok:
  assumes ok: "tab_ok P n z L" and i: "pstate (P i) = UNUSED"
    and p': "pstate p' = RUNNABLE" "pparent p' = Some p" "pid p' = n" and p: "p < NPROC" "alive (P p)"
  shows "tab_ok (P(i := p')) (n + 1) z L"
proof -
  have n: "0 < n" using ok by (force simp: tab_ok_def init_ok_def pids_ok_def)
  have "init_ok (P(i := p')) z L" using ok i p' by (auto simp: tab_ok_def init_ok_def)
  moreover have "pids_ok (P(i := p')) (n + 1)" using ok n p' by (fastforce simp: tab_ok_def pids_ok_def)
  moreover have "tree_ok (P(i := p')) z" by (rule tree_ok_upd) (use ok i p p' in \<open>auto simp: tab_ok_def\<close>)
  moreover have "leaving_ok (P(i := p')) z L" using ok i by (fastforce simp: tab_ok_def leaving_ok_def)
  moreover have "waiting_ok (P(i := p')) z" using ok i p' by (fastforce simp: tab_ok_def waiting_ok_def sleeper_ok_def)
  ultimately show ?thesis by (simp add: tab_ok_def)
qed

text \<open>A dead process is freed.\<close>

lemma freed_ok:
  assumes ok: "tab_ok P n z L" and i: "pstate (P i) = ZOMBIE" "pstate p' = UNUSED" "pparent p' = None"
  shows "tab_ok (P(i := p')) n z L"
proof -
  have "init_ok (P(i := p')) z L" using ok i by (auto simp: tab_ok_def init_ok_def)
  moreover have "pids_ok (P(i := p')) n" using ok i by (auto simp: tab_ok_def pids_ok_def)
  moreover have "tree_ok (P(i := p')) z" by (rule tree_ok_upd) (use ok i in \<open>simp_all add: tab_ok_def\<close>)
  moreover have "leaving_ok (P(i := p')) z L" using ok i by (fastforce simp: tab_ok_def leaving_ok_def)
  moreover have "waiting_ok (P(i := p')) z" using ok i by (fastforce simp: tab_ok_def waiting_ok_def sleeper_ok_def)
  ultimately show ?thesis by (simp add: tab_ok_def)
qed

text \<open>The two halves of \<^verbatim>\<open>exit\<close>.\<close>

lemma begun_ok:
  assumes "tab_ok P n z L" "p < NPROC" "p \<noteq> z" "awake (P p)" "pparent (P p) = Some q"
  shows "tab_ok P n z (L(p := Some q))"
  using assms by (auto simp: tab_ok_def init_ok_def leaving_ok_def)

definition reparented :: "nat \<Rightarrow> nat \<Rightarrow> ptab \<Rightarrow> ptab" where
  "reparented p z P = (\<lambda>i. if i < NPROC \<and> pparent (P i) = Some p then (P i)\<lparr>pparent := Some z\<rparr> else P i)"

lemma reparented_simps [simp]:
  "pstate (reparented p z P i) = pstate (P i)" "pid (reparented p z P i) = pid (P i)" "pchan (reparented p z P i) = pchan (P i)"
  "i < NPROC \<Longrightarrow> pparent (reparented p z P i) = (if pparent (P i) = Some p then Some z else pparent (P i))"
  by (simp_all add: reparented_def)

lemma reparented_ok:
  assumes ok: "tab_ok P n z L" and p: "p < NPROC" "awake (P p)"
  shows "tab_ok (reparented p z P) n z L"
proof -
  let ?P = "reparented p z P"
  have z: "z < NPROC" "alive (P z)" "pparent (P z) = None" using ok by (auto simp: tab_ok_def init_ok_def)
  have "init_ok ?P z L" "pids_ok ?P n" using ok by (simp_all add: tab_ok_def init_ok_def pids_ok_def)
  moreover have "tree_ok ?P z"
  proof -
    have t: "tree_ok P z" using ok by (simp add: tab_ok_def)
    have "\<exists>q < NPROC. pparent (?P i) = Some q \<and> alive (?P q)" if "i < NPROC" "in_use (P i)" "i \<noteq> z" for i
      by (rule tree_okD [OF t that]) (use z that(1) in \<open>auto\<close>)
    moreover have "pparent (?P i) \<noteq> Some i" if "i < NPROC" for i
      using t that z(3) by (auto simp: tree_ok_def)
    moreover have "pparent (?P i) = None" if "i < NPROC" "\<not> in_use (P i)" for i
      using t that by (auto simp: tree_ok_def)
    ultimately show ?thesis unfolding tree_ok_def reparented_simps(1) by blast
  qed
  moreover have "leaving_ok ?P z L" using ok by (auto simp: tab_ok_def leaving_ok_def)
  moreover have "sleeper_ok ?P q" if q: "q < NPROC" "q \<noteq> z" "pstate (P q) = SLEEPING" for q
  proof -
    have "sleeper_ok P q" using ok that by (simp add: tab_ok_def waiting_ok_def)
    moreover have "q \<noteq> p" using that p by auto
    ultimately show ?thesis using q(2) by (auto simp: sleeper_ok_def)
  qed
  ultimately show ?thesis by (simp add: tab_ok_def waiting_ok_def)
qed

lemma dead_ok:
  assumes ok: "tab_ok P n z L" and p: "p < NPROC" "p \<noteq> z" "awake (P p)" and kids: "\<forall>i < NPROC. pparent (P i) \<noteq> Some p"
    and p': "pstate p' = ZOMBIE" "pid p' = pid (P p)" "pparent p' = pparent (P p)"
    and w: "\<And>q. pparent (P p) = Some q \<Longrightarrow> q \<noteq> z \<Longrightarrow> pstate (P q) = SLEEPING \<Longrightarrow> pchan (P q) \<noteq> Some (ProcChan q) \<and> pchan (P q) \<noteq> Some (ProcChan p)"
  shows "tab_ok (P(p := p')) n z (L(p := None))"
proof -
  have "init_ok (P(p := p')) z (L(p := None))" using ok p by (auto simp: tab_ok_def init_ok_def)
  moreover have "pids_ok (P(p := p')) n" by (rule pids_ok_le [of P]) (use ok p p' in \<open>auto simp: tab_ok_def split: if_splits\<close>)
  moreover have "tree_ok (P(p := p')) z" by (rule tree_ok_same) (use ok p p' kids in \<open>auto simp: tab_ok_def\<close>)
  moreover have "leaving_ok (P(p := p')) z (L(p := None))" using ok by (fastforce simp: tab_ok_def leaving_ok_def)
  moreover have "sleeper_ok (P(p := p')) q" if q: "q < NPROC" "q \<noteq> z" "pstate (P q) = SLEEPING" for q
  proof -
    have "sleeper_ok P q" using ok that by (simp add: tab_ok_def waiting_ok_def)
    moreover have "q \<noteq> p" using that p by auto
    ultimately show ?thesis using w [of q] q p' by (auto simp: sleeper_ok_def)
  qed
  ultimately show ?thesis using p' by (auto simp: tab_ok_def waiting_ok_def)
qed

end
