(* ===== verification/Kstep.thy ===== *)
theory Kstep
  imports Ptable
begin

text \<open>
  The steps of the kernel. One step is one visit of the scheduler to a slot, or one operation of one running process up to
  the point where it returns, sleeps, gives up the CPU or (in \<^verbatim>\<open>exit\<close>) holds no lock. Memory may change arbitrarily
  while a process runs its own program.
\<close>

section \<open>Steps\<close>

record ksys =
  st :: sys
  leaving :: "nat \<Rightarrow> nat option"

abbreviation on :: "nat \<Rightarrow> sys \<Rightarrow> sys" where "on p s \<equiv> s\<lparr>cur := p\<rparr>"

datatype scall = Close | Dup | Dup3 | MakePipe | Openat | Dev | Sigaction | Sigmask | Sbrk | Brk | Mmap | Mprotect | Setuid | Setgid | Setpgid | Trace | Prlimit | Affinity

primrec do_scall :: "scall \<Rightarrow> sys \<Rightarrow> (int \<times> sys) res" where
  "do_scall Close s = sys_close s"
| "do_scall Dup s = sys_dup s"
| "do_scall Dup3 s = sys_dup3 s"
| "do_scall MakePipe s = sys_pipe s"
| "do_scall Openat s = sys_openat s"
| "do_scall Dev s = sys_dev s"
| "do_scall Sigaction s = sys_rt_sigaction s"
| "do_scall Sigmask s = sys_rt_sigprocmask s"
| "do_scall Sbrk s = sys_sbrk s"
| "do_scall Brk s = bind_res (sys_brk s) (\<lambda>(v, s1). Ret (sint v, s1))"
| "do_scall Mmap s = bind_res (sys_mmap s) (\<lambda>(v, s1). Ret (sint v, s1))"
| "do_scall Mprotect s = sys_mprotect s"
| "do_scall Setuid s = Ret (sys_setuid s)"
| "do_scall Setgid s = Ret (sys_setgid s)"
| "do_scall Setpgid s = Ret (sys_setpgid s)"
| "do_scall Trace s = Ret (sys_trace s)"
| "do_scall Prlimit s = sys_prlimit64 s"
| "do_scall Affinity s = sys_sched_getaffinity s"

text \<open>What a read or write that has to wait does.\<close>

fun suspend :: "call \<Rightarrow> sys \<Rightarrow> sys" where
  "suspend (Return r) s = s"
| "suspend (Wait c a) s = sleep c s"

datatype label =
    Visit nat
  | Yield nat
  | User nat
  | Start nat
  | Scall nat scall
  | Read nat at
  | Write nat at
  | Fork nat
  | Clone nat u64 u64
  | ExitBegin nat
  | ExitEnd nat int
  | WaitAny nat u64
  | WaitPid nat int u64
  | Kill nat int int

definition busy :: "nat \<Rightarrow> ksys \<Rightarrow> bool" where
  "busy p k \<longleftrightarrow> p < NPROC \<and> pstate (procs (st k) p) = RUNNING"

definition runs :: "nat \<Rightarrow> ksys \<Rightarrow> bool" where
  "runs p k \<longleftrightarrow> busy p k \<and> leaving k p = None"

inductive kstep :: "ksys \<Rightarrow> label \<Rightarrow> ksys \<Rightarrow> bool" where
  visit: "i < NPROC \<Longrightarrow> kstep k (Visit i) (k\<lparr>st := scheduler_visit i (st k)\<rparr>)"
| yield: "busy p k \<Longrightarrow> kstep k (Yield p) (k\<lparr>st := yield (on p (st k))\<rparr>)"
| user: "runs p k \<Longrightarrow> kstep k (User p) (k\<lparr>st := set_kmem m (st k)\<rparr>)"
| start: "runs p k \<Longrightarrow> forkret first (on p (st k)) = Ret s \<Longrightarrow> kstep k (Start p) (k\<lparr>st := s\<rparr>)"
| scall: "runs p k \<Longrightarrow> do_scall c (on p (st k)) = Ret (r, s) \<Longrightarrow> kstep k (Scall p c) (k\<lparr>st := s\<rparr>)"
| read_file: "runs p k \<Longrightarrow> sys_read a (on p (st k)) = Ret (r, s) \<Longrightarrow> kstep k (Read p a) (k\<lparr>st := suspend r s\<rparr>)"
| write_file: "runs p k \<Longrightarrow> sys_write a (on p (st k)) = Ret (r, s) \<Longrightarrow> kstep k (Write p a) (k\<lparr>st := suspend r s\<rparr>)"
| fork: "runs p k \<Longrightarrow> fork (on p (st k)) = Ret (r, s) \<Longrightarrow> kstep k (Fork p) (k\<lparr>st := s\<rparr>)"
| clone: "runs p k \<Longrightarrow> clone stk fn (on p (st k)) = Ret (r, s) \<Longrightarrow> kstep k (Clone p stk fn) (k\<lparr>st := s\<rparr>)"
| exit_begin: "runs p k \<Longrightarrow> exit_begin (on p (st k)) = Ret (q, s) \<Longrightarrow> kstep k (ExitBegin p) (k\<lparr>st := s, leaving := (leaving k)(p := Some q)\<rparr>)"
| exit_end: "busy p k \<Longrightarrow> leaving k p = Some q \<Longrightarrow>
    kstep k (ExitEnd p status) (k\<lparr>st := exit_end status q (on p (st k)), leaving := (leaving k)(p := None)\<rparr>)"
| wait: "runs p k \<Longrightarrow> wait addr (on p (st k)) = Ret (r, s) \<Longrightarrow> kstep k (WaitAny p addr) (k\<lparr>st := s\<rparr>)"
| wait4: "runs p k \<Longrightarrow> wait4pid n addr (on p (st k)) = Ret (r, s) \<Longrightarrow> kstep k (WaitPid p n addr) (k\<lparr>st := s\<rparr>)"
| kill: "runs p k \<Longrightarrow> kill n sig (on p (st k)) = (r, s) \<Longrightarrow> kstep k (Kill p n sig) (k\<lparr>st := s\<rparr>)"

inductive ksteps :: "ksys \<Rightarrow> ksys \<Rightarrow> bool" where
  refl: "ksteps k k"
| step: "ksteps k k' \<Longrightarrow> kstep k' l k'' \<Longrightarrow> ksteps k k''"

text \<open>After \<open>userinit\<close>: one process, and no open files.\<close>

definition booted :: "ksys \<Rightarrow> bool" where
  "booted k \<longleftrightarrow> (let s = st k; z = initproc s in
     z < NPROC \<and> pstate (procs s z) = RUNNABLE \<and> pparent (procs s z) = None \<and> 0 < pid (procs s z) \<and> pid (procs s z) < nextpid s \<and> leaving k = (\<lambda>_. None)
     \<and> (\<forall>i < NPROC. i \<noteq> z \<longrightarrow> pstate (procs s i) = UNUSED \<and> pparent (procs s i) = None)
     \<and> (\<forall>i < NPROC. \<forall>fd < NOFILE. ofile (procs s i) fd = None)
     \<and> (\<forall>f < NFILE. files s f = zero_file))"

section \<open>Calls that leave processes alone\<close>

lemma proc_safe:
  assumes "\<And>p. pparent (g p) = pparent p \<and> pchan (g p) = pchan p \<and> pid (g p) = pid p \<and> pstate (g p) = pstate p \<and> ofile (g p) = ofile p"
  shows "fd_safe s (set_proc i g s)"
proof -
  have "fdmap (set_proc i g s) = fdmap s" using assms by (auto simp: fdmap_def fun_eq_iff)
  then show ?thesis using assms by (simp add: fd_safe_def calm_def)
qed

lemma growproc_safe:
  assumes "growproc n s = Ret (r, s')"
  shows "fd_safe s s'"
proof -
  have "\<exists>s1. same_tables s s1 \<and> (s' = s1 \<or> (\<exists>v. s' = set_proc (cur s1) (\<lambda>p. p\<lparr>psz := v\<rparr>) s1))"
  proof (cases "n = 0")
    case True
    then show ?thesis using assms by (intro exI [of _ s]) (auto simp: growproc_def Let_def)
  next
    case False
    then show ?thesis using assms by (auto simp: growproc_def Let_def res_simps split: if_splits dest!: with_kmem_val_tables)
  qed
  then obtain s1 where "same_tables s s1" "s' = s1 \<or> (\<exists>v. s' = set_proc (cur s1) (\<lambda>p. p\<lparr>psz := v\<rparr>) s1)" by blast
  moreover have "fd_safe s1 (set_proc (cur s1) (\<lambda>p. p\<lparr>psz := v\<rparr>) s1)" for v by (rule proc_safe) simp
  ultimately show ?thesis using same_tables_safe fd_safe_trans by blast
qed

lemma sys_sbrk_safe: "sys_sbrk s = Ret (r, s') \<Longrightarrow> fd_safe s s'"
  by (auto simp: sys_sbrk_def Let_def res_simps dest: growproc_safe)

lemma sys_brk_safe: "sys_brk s = Ret (r, s') \<Longrightarrow> fd_safe s s'"
  by (auto simp: sys_brk_def Let_def res_simps split: if_splits dest: growproc_safe)

lemma filedup_safe:
  assumes "filedup f s = Ret s'" "fds_ok (fdmap s) (files s) \<Longrightarrow> f < NFILE"
  shows "fd_safe s s'"
proof -
  have s': "s' = set_file f (\<lambda>x. x\<lparr>fref := fref x + 1\<rparr>) s" "1 \<le> fref (files s f)" using filedup_frame [OF assms(1)] by auto
  have "fds_ok (fdmap s') (files s')" if ok: "fds_ok (fdmap s) (files s)"
    using fds_ok_file [OF ok assms(2) [OF ok], of "(files s f)\<lparr>fref := fref (files s f) + 1\<rparr>"] fds_okD(2,3) [OF ok assms(2) [OF ok]] s'
    by (auto simp: file_typed_def split: if_splits)
  then show ?thesis using s'(1) by (simp add: fd_safe_def)
qed

lemma mmap_area_safe:
  assumes "mmap_area start len perm fixed fd offset s = Ret (r, s')" "cur s < NPROC"
  shows "fd_safe s s'"
proof -
  have fd: "-1 \<le> fd" "fd < int NOFILE" using assms(1) by (auto simp: mmap_area_def Let_def split: if_splits)
  consider "s' = s" | s1 where "same_tables s s1" "s' = s1"
    | i s1 where "same_tables s s1" "ofile (myproc s) (nat fd) = Some i" "fd \<noteq> -1" "filedup i (set_file i (\<lambda>x. x\<lparr>foff := of_int offset\<rparr>) s1) = Ret s'"
    using assms(1) by (auto simp: mmap_area_def Let_def res_simps split: if_splits option.splits dest!: with_vma_val_tables)
  then show ?thesis
  proof cases
    case 3
    let ?s2 = "set_file i (\<lambda>x. x\<lparr>foff := of_int offset\<rparr>) s1"
    have i: "(cur s, nat fd) \<in> fdslots" "fdmap s (cur s, nat fd) = Some i"
      using fd 3(2,3) assms(2) by (auto simp: fdslots_def fdmap_def)
    have 12: "fd_safe s1 ?s2" by (rule moved_safe [OF moved_off])
    have m: "fdmap ?s2 = fdmap s" using fdmap_tables [OF 3(1)] by simp
    have "i < NFILE" if "fds_ok (fdmap ?s2) (files ?s2)" using fds_okD(1) [OF that] i m by auto
    then have "fd_safe ?s2 s'" by (rule filedup_safe [OF 3(4)])
    then show ?thesis using fd_safe_trans [OF same_tables_safe [OF 3(1)]] fd_safe_trans [OF 12] by blast
  qed (use same_tables_safe in auto)
qed

lemma sys_mmap_safe:
  assumes "sys_mmap s = Ret (r, s')" "cur s < NPROC"
  shows "fd_safe s s'"
  using assms mmap_area_safe by (auto simp: sys_mmap_def mmap_def Let_def split: sum.splits if_splits)

lemma sys_mprotect_safe: "sys_mprotect s = Ret (r, s') \<Longrightarrow> fd_safe s s'"
  by (auto simp: sys_mprotect_def Let_def res_simps dest!: with_kmem_tables intro: same_tables_safe)

lemma sys_affinity_safe: "sys_sched_getaffinity s = Ret (r, s') \<Longrightarrow> fd_safe s s'"
  by (auto simp: sys_sched_getaffinity_def res_simps dest!: with_kmem_val_tables intro: same_tables_safe)

lemma sys_prlimit64_safe:
  assumes "sys_prlimit64 s = Ret (r, s')"
  shows "fd_safe s s'"
proof -
  have "fd_safe s (set_proc (cur s) (\<lambda>p. p\<lparr>filelimit := 42\<rparr>) s)" by (rule proc_safe) simp
  then show ?thesis using assms by (auto simp: sys_prlimit64_def res_simps split: if_splits)
qed

lemma sys_ids_safe:
  "sys_setuid s = (r, s') \<Longrightarrow> fd_safe s s'" "sys_setgid s = (r, s') \<Longrightarrow> fd_safe s s'" "sys_setpgid s = (r, s') \<Longrightarrow> fd_safe s s'"
  "sys_trace s = (r, s') \<Longrightarrow> fd_safe s s'"
proof -
  have "fd_safe s (set_proc (cur s) (\<lambda>p. p\<lparr>uid := v\<rparr>) s)" "fd_safe s (set_proc (cur s) (\<lambda>p. p\<lparr>gid := v\<rparr>) s)"
    "fd_safe s (set_proc (cur s) (\<lambda>p. p\<lparr>pgid := v\<rparr>) s)" "fd_safe s (set_proc (cur s) (\<lambda>p. p\<lparr>tmask := m\<rparr>) s)" for v m
    by (rule proc_safe; simp)+
  then show "sys_setuid s = (r, s') \<Longrightarrow> fd_safe s s'" "sys_setgid s = (r, s') \<Longrightarrow> fd_safe s s'" "sys_setpgid s = (r, s') \<Longrightarrow> fd_safe s s'"
    "sys_trace s = (r, s') \<Longrightarrow> fd_safe s s'"
    by (auto simp: sys_setuid_def sys_setgid_def sys_setpgid_def sys_trace_def)
qed

lemma sys_rt_sigaction_safe:
  assumes "sys_rt_sigaction s = Ret (r, s')"
  shows "fd_safe s s'"
proof -
  let ?g = "\<lambda>n b p. p\<lparr>sigactions := (sigactions p)(n := b)\<rparr>"
  have "fd_safe s (set_proc (cur s) (?g n b) s)" for n b by (rule proc_safe) simp
  then have 1: "fd_safe s (snd (set_sigaction n act old s))" for n act old
    by (auto simp: set_sigaction_def Let_def split: option.splits)
  have "s' = s \<or> (\<exists>n act old. s' = snd (set_sigaction n act old s) \<or> same_tables (snd (set_sigaction n act old s)) s')"
    using assms
    by (auto simp: sys_rt_sigaction_def Let_def res_simps split: if_splits option.splits prod.splits dest!: copyout_cur_tables)
      (metis snd_conv)+
  then show ?thesis using 1 same_tables_safe fd_safe_trans by (metis fd_safe_refl)
qed

lemma sys_rt_sigprocmask_safe:
  assumes "sys_rt_sigprocmask s = Ret (r, s')"
  shows "fd_safe s s'"
proof -
  have 1: "fd_safe s (set_proc (cur s) (\<lambda>p. p\<lparr>sig_set := m\<rparr>) s)" for m by (rule proc_safe) simp
  have m: "\<exists>m. snd (sigprocmask how w s) = set_proc (cur s) (\<lambda>p. p\<lparr>sig_set := m\<rparr>) s" for how w
    by (simp add: sigprocmask_def Let_def) blast
  have 2: "fd_safe s (snd (sigprocmask how w s))" for how w using m [of how w] 1 by auto
  have "s' = s \<or> (\<exists>how w. s' = snd (sigprocmask how w s) \<or> same_tables (snd (sigprocmask how w s)) s')"
    using assms
    by (auto simp: sys_rt_sigprocmask_def Let_def res_simps split: if_splits prod.splits dest!: copyout_cur_tables)
      (metis snd_conv)+
  then show ?thesis using 2 same_tables_safe fd_safe_trans by (metis fd_safe_refl)
qed

lemma forkret_safe:
  assumes "forkret first s = Ret s'"
  shows "fd_safe s s'"
proof -
  have 1: "fd_safe s1 (set_proc (cur s1) (\<lambda>p. p\<lparr>cwd := e\<rparr>) s1)" for s1 e by (rule proc_safe) simp
  show ?thesis
  proof (cases first)
    case True
    then obtain s1 e where "same_tables s s1" "s' = set_proc (cur s1) (\<lambda>p. p\<lparr>cwd := e\<rparr>) s1"
      using assms by (auto simp: forkret_def res_simps dest!: with_fs_val_tables intro: same_tables_trans)
    then show ?thesis using fd_safe_trans [OF same_tables_safe 1] by blast
  qed (use assms in \<open>simp add: forkret_def\<close>)
qed

lemmas scall_safe = sys_close_safe sys_dup_safe sys_dup3_safe sys_pipe_safe sys_openat_safe sys_dev_safe sys_rt_sigaction_safe
  sys_rt_sigprocmask_safe sys_sbrk_safe sys_brk_safe sys_mmap_safe sys_mprotect_safe sys_affinity_safe sys_prlimit64_safe sys_ids_safe

lemma do_scall_safe:
  assumes "do_scall c s = Ret (r, s')" "cur s < NPROC"
  shows "fd_safe s s'"
  using assms by (cases c) (auto simp: res_simps simp del: NPROC_def dest: scall_safe)

text \<open>Reads and writes never wait for a process.\<close>

lemma read_waits:
  assumes "sys_read a s = Ret (Wait c b, s')"
  shows "c \<noteq> ProcChan t"
  using assms by (auto simp: sys_read_def fileread_def read_pipe_def read_console_def read_entry_def Let_def res_simps
      split: sum.splits if_splits ftype.splits progress.splits cprogress.splits)
    (metis progress.exhaust cprogress.exhaust)+

lemma write_waits:
  assumes "sys_write a s = Ret (Wait c b, s')"
  shows "c \<noteq> ProcChan t"
  using assms by (auto simp: sys_write_def filewrite_def write_pipe_def write_console_def write_entry_def Let_def res_simps
      split: sum.splits if_splits ftype.splits progress.splits)
    (metis progress.exhaust)+

section \<open>New processes\<close>

lemma fdmap_slot: "procs t = (procs s)(i := p') \<Longrightarrow> ofile p' = ofile (procs s i) \<Longrightarrow> fdmap t = fdmap s"
  by (auto simp: fdmap_def fun_eq_iff)

lemma dup_files_frame:
  assumes "dup_files fds p np s = Ret s'" "p \<noteq> np"
  shows "(\<exists>o1. procs s' = (procs s)(np := (procs s np)\<lparr>ofile := o1\<rparr>)) \<and> nextpid s' = nextpid s \<and> initproc s' = initproc s \<and> cur s' = cur s"
  using assms
proof (induction fds arbitrary: s)
  case (Cons fd fds)
  show ?case
  proof (cases "ofile (procs s p) fd")
    case None
    then show ?thesis using Cons by simp
  next
    case (Some f)
    then obtain s1 where s1: "filedup f s = Ret s1" "dup_files fds p np (set_proc np (\<lambda>q. q\<lparr>ofile := (ofile q)(fd := Some f)\<rparr>) s1) = Ret s'"
      using Cons.prems by (auto simp: res_simps)
    have e: "procs s1 = procs s" "nextpid s1 = nextpid s" "initproc s1 = initproc s" "cur s1 = cur s"
      using filedup_frame [OF s1(1)] by auto
    let ?t = "set_proc np (\<lambda>q. q\<lparr>ofile := (ofile q)(fd := Some f)\<rparr>) s1"
    obtain o1 where "procs s' = (procs ?t)(np := (procs ?t np)\<lparr>ofile := o1\<rparr>)"
      using Cons.IH [OF s1(2) Cons.prems(2)] by blast
    then have "procs s' = (procs s)(np := (procs s np)\<lparr>ofile := o1\<rparr>)" by (simp add: fun_eq_iff e)
    then show ?thesis using Cons.IH [OF s1(2) Cons.prems(2)] e(2-4) by (intro conjI exI) simp_all
  qed
next
  case Nil
  then show ?case by (intro conjI exI [of _ "ofile (procs s np)"]) simp_all
qed

lemma dup_files_fds:
  assumes "dup_files fds p np s = Ret s'" "p \<noteq> np" "p < NPROC" "set fds \<subseteq> {0..<NOFILE}" "fds_ok (fdmap s) (files s)"
  shows "fds_ok (fdmap s') (files s')"
  using assms
proof (induction fds arbitrary: s)
  case (Cons fd fds)
  show ?case
  proof (cases "ofile (procs s p) fd")
    case None
    then show ?thesis using Cons by simp
  next
    case (Some f)
    let ?t = "\<lambda>s1. set_proc np (\<lambda>q. q\<lparr>ofile := (ofile q)(fd := Some f)\<rparr>) s1"
    obtain s1 where s1: "filedup f s = Ret s1" "dup_files fds p np (?t s1) = Ret s'"
      using Cons.prems Some by (auto simp: res_simps)
    have f: "f < NFILE"
      using fds_okD(1) [OF Cons.prems(5), of "(p, fd)" f] Some Cons.prems(3,4) by (auto simp: fdslots_def fdmap_def)
    have e: "procs s1 = procs s" "files s1 = (files s)(f := (files s f)\<lparr>fref := fref (files s f) + 1\<rparr>)" "1 \<le> fref (files s f)"
      using filedup_frame [OF s1(1)] by auto
    have "fdmap (?t s1) = (fdmap s)((np, fd) := Some f)" by (auto simp: fdmap_def fun_eq_iff e)
    then have "fds_ok (fdmap (?t s1)) (files (?t s1))"
      using fds_ok_dup [OF Cons.prems(5) f e(3), of "(np, fd)"] e(2) by simp
    then show ?thesis using Cons.IH [OF s1(2)] Cons.prems by simp
  qed
qed simp

lemma map_areas_tables: "map_areas n old new hv v s = Ret s' \<Longrightarrow> same_tables s s'"
proof (induction n arbitrary: v s)
  case (Suc n)
  show ?case
  proof (cases "v = hv")
    case False
    then obtain r s1 where m: "with_kmem_val (vma_map old new (vareas s v)) s = Ret (r, s1)" "map_areas n old new hv (vnext (vareas s1 v)) s1 = Ret s'"
      using Suc.prems by (auto simp: res_simps split: if_splits)
    show ?thesis by (rule same_tables_trans [OF with_kmem_val_tables [OF m(1)] Suc.IH [OF m(2)]])
  qed (use Suc.prems in simp)
qed simp

lemma copy_areas_slot:
  assumes "copy_areas p np s = Ret s'"
  shows "\<exists>v. same_tables (set_proc np (\<lambda>q. q\<lparr>pvma := v\<rparr>) s) s'"
proof -
  obtain v s1 where v: "with_vma_val (vma_copy fives_vma (pvma (procs s p))) s = Ret (v, s1)"
    and r: "(let s2 = set_proc np (\<lambda>q. q\<lparr>pvma := v\<rparr>) s1 in if v = 0 then Ret s2
       else map_areas vma_bound (pagetable (procs s2 p)) (pagetable (procs s2 np)) v (vnext (vareas s2 v)) s2) = Ret s'"
    using assms by (auto simp: copy_areas_def res_simps simp del: vma_bound_def)
  have "same_tables (set_proc np (\<lambda>q. q\<lparr>pvma := v\<rparr>) s1) s'"
    using r map_areas_tables by (auto simp: Let_def split: if_splits simp del: vma_bound_def)
  then show ?thesis using with_vma_val_tables [OF v] by (auto simp: same_tables_def)
qed

text \<open>\<^verbatim>\<open>fork\<close> and \<^verbatim>\<open>clone\<close> either leave the table as it was, up to the fields of one empty slot, or add a child.\<close>

definition no_child :: "sys \<Rightarrow> sys \<Rightarrow> bool" where
  "no_child s s' \<longleftrightarrow> same_tables s s' \<or> (\<exists>i < NPROC. \<exists>p'. pstate (procs s i) = UNUSED \<and> slot_changed s i p' s' \<and> empty_slot (procs s i) p' \<and> nextpid s' = nextpid s + 1)"

definition new_child :: "sys \<Rightarrow> nat \<Rightarrow> proc \<Rightarrow> sys \<Rightarrow> bool" where
  "new_child s i p' s' \<longleftrightarrow> i < NPROC \<and> pstate (procs s i) = UNUSED \<and> procs s' = (procs s)(i := p') \<and> nextpid s' = nextpid s + 1
     \<and> initproc s' = initproc s \<and> cur s' = cur s \<and> pstate p' = RUNNABLE \<and> pparent p' = Some (cur s) \<and> pid p' = nextpid s
     \<and> (fds_ok (fdmap s) (files s) \<longrightarrow> fds_ok (fdmap s') (files s'))"

lemma new_child_tables: "new_child s i p' t \<Longrightarrow> same_tables t u \<Longrightarrow> new_child s i p' u"
  by (auto simp: new_child_def same_tables_def fdmap_def)

lemma copy_process_rest:
  assumes r: "bind_res (copy_areas (cur s) np s2) (\<lambda>s3.
      let s4 = set_proc np (\<lambda>q. q\<lparr>psz := psz (procs s3 (cur s)), pparent := Some (cur s), tmask := tmask (procs s3 (cur s))\<rparr>) s3;
          s5 = set_tf np 24 0 (copy_tf (cur s) np s4) in
      bind_res (dup_files [0..<NOFILE] (cur s) np s5) (\<lambda>s6.
        let s7 = (case cwd (procs s6 (cur s)) of None \<Rightarrow> s6 | Some d \<Rightarrow> s6\<lparr>fs := edup d (fs s6)\<rparr>) in
        Ret (Some np, set_proc np (\<lambda>q. q\<lparr>cwd := cwd (procs s7 (cur s)), pname := copy_name (pname (procs s7 (cur s))) (pname q),
               pstate := RUNNABLE\<rparr>) s7))) = Ret (v, s')"
    and s: "np < NPROC" "pstate (procs s np) = UNUSED" "slot_changed s np p1 s2" "ofile p1 = ofile (procs s np)" "pid p1 = nextpid s"
      "nextpid s2 = nextpid s + 1" and c: "cur s \<noteq> np" "cur s < NPROC"
  shows "\<exists>p'. v = Some np \<and> new_child s np p' s'"
proof -
  let ?p = "cur s"
  obtain s3 where s3: "copy_areas ?p np s2 = Ret s3" using r by (cases "copy_areas ?p np s2") auto
  obtain w where w: "same_tables (set_proc np (\<lambda>q. q\<lparr>pvma := w\<rparr>) s2) s3" using copy_areas_slot [OF s3] by blast
  define s5 where "s5 = set_tf np 24 0 (copy_tf ?p np
    (set_proc np (\<lambda>q. q\<lparr>psz := psz (procs s3 ?p), pparent := Some ?p, tmask := tmask (procs s3 ?p)\<rparr>) s3))"
  have t5: "same_tables (set_proc np (\<lambda>q. q\<lparr>psz := psz (procs s3 ?p), pparent := Some ?p, tmask := tmask (procs s3 ?p)\<rparr>) s3) s5"
    unfolding s5_def by (rule same_tables_trans [OF copy_tf_tables set_tf_tables])
  obtain s6 where s6: "dup_files [0..<NOFILE] ?p np s5 = Ret s6"
    and s': "v = Some np" "s' = (let s7 = (case cwd (procs s6 ?p) of None \<Rightarrow> s6 | Some d \<Rightarrow> s6\<lparr>fs := edup d (fs s6)\<rparr>) in
        set_proc np (\<lambda>q. q\<lparr>cwd := cwd (procs s7 ?p), pname := copy_name (pname (procs s7 ?p)) (pname q), pstate := RUNNABLE\<rparr>) s7)"
    using r s3 by (cases "dup_files [0..<NOFILE] ?p np s5") (auto simp: Let_def s5_def simp del: NOFILE_def)
  have p5: "procs s5 = (procs s)(np := procs s5 np)" "ofile (procs s5 np) = ofile (procs s np)" "pid (procs s5 np) = nextpid s"
    "pparent (procs s5 np) = Some ?p" "nextpid s5 = nextpid s + 1" "initproc s5 = initproc s" "cur s5 = ?p" "files s5 = files s"
    using t5 w s by (auto simp: same_tables_def slot_changed_def)
  define p5' where "p5' = procs s5 np"
  obtain o1 where d: "procs s6 = (procs s)(np := p5'\<lparr>ofile := o1\<rparr>)" "nextpid s6 = nextpid s5" "initproc s6 = initproc s5" "cur s6 = cur s5"
    using dup_files_frame [OF s6 c(1)] p5(1) by (metis fun_upd_upd p5'_def)
  have p6: "procs s6 = (procs s)(np := procs s6 np)" "pid (procs s6 np) = nextpid s" "pparent (procs s6 np) = Some ?p"
    "nextpid s6 = nextpid s + 1" "initproc s6 = initproc s" "cur s6 = ?p"
    using d p5(3-7) by (simp_all add: p5'_def)
  define p' where "p' = (procs s6 np)\<lparr>cwd := cwd (procs s6 ?p), pname := copy_name (pname (procs s6 ?p)) (pname (procs s6 np)), pstate := RUNNABLE\<rparr>"
  have q: "procs s' = (procs s6)(np := p')" "files s' = files s6" "nextpid s' = nextpid s6" "initproc s' = initproc s6" "cur s' = cur s6"
    using s'(2) by (auto simp: Let_def p'_def split: option.splits)
  have "fds_ok (fdmap s') (files s')" if ok: "fds_ok (fdmap s) (files s)"
  proof -
    have "fdmap s5 = fdmap s" using fdmap_slot [OF p5(1)] p5(2) by simp
    then have "fds_ok (fdmap s6) (files s6)" using dup_files_fds [OF s6 c] ok p5(8) by simp
    moreover have "fdmap s' = fdmap s6" using fdmap_slot [OF q(1)] by (simp add: p'_def)
    ultimately show ?thesis using q(2) by simp
  qed
  then have "new_child s np p' s'"
    using s c p6(2-6) q d(1) unfolding new_child_def by (simp add: p'_def)
  then show ?thesis using s'(1) by blast
qed

lemma copy_process_cases:
  assumes a: "copy_process s = Ret (v, s')" and c: "cur s < NPROC" "pstate (myproc s) = RUNNING"
  shows "v = None \<and> no_child s s' \<or> (\<exists>np p'. v = Some np \<and> new_child s np p' s')"
proof -
  obtain r s1 where r: "allocproc s = Ret (r, s1)" using a by (cases "allocproc s") (auto simp: copy_process_def Let_def)
  show ?thesis
  proof (cases r)
    case None
    then have "v = None" "s' = s1" using a r by (auto simp: copy_process_def Let_def)
    moreover have "no_child s s1" using None by (rule_tac allocproc_slot [OF r]) (auto simp: no_child_def)
    ultimately show ?thesis by simp
  next
    case (Some np)
    then obtain p1 where s1: "np < NPROC" "pstate (procs s np) = UNUSED" "slot_changed s np p1 s1" "empty_slot (procs s np) p1"
      "nextpid s1 = nextpid s + 1" "pid p1 = nextpid s"
      by (rule_tac allocproc_slot [OF r]) auto
    have ne: "cur s \<noteq> np" using c(2) s1(2) by auto
    obtain e s2 where e: "with_kmem_val (uvmcopy (pagetable (procs s1 (cur s))) (pagetable (procs s1 np)) (psz (procs s1 (cur s)))) s1 = Ret (e, s2)"
      using a r Some
      by (cases "with_kmem_val (uvmcopy (pagetable (procs s1 (cur s))) (pagetable (procs s1 np)) (psz (procs s1 (cur s)))) s1")
        (auto simp: copy_process_def Let_def)
    have s2: "slot_changed s np p1 s2" "nextpid s2 = nextpid s + 1"
      using slot_changed_tables [OF s1(3) with_kmem_val_tables [OF e]] with_kmem_val_tables [OF e] s1(5) by (auto simp: same_tables_def)
    show ?thesis
    proof (cases "e < 0")
      case True
      then have v: "v = None" "freeproc np s2 = Ret s'" using a r Some e by (auto simp: copy_process_def Let_def res_simps)
      obtain p2 where p2: "slot_changed s2 np p2 s'" "empty_slot (procs s2 np) p2" "nextpid s' = nextpid s2" using freeproc_slot [OF v(2)] by blast
      have "procs s2 np = p1" using s2(1) by (simp add: slot_changed_def)
      then have "empty_slot (procs s np) p2" using p2(2) s1(4) by (auto simp: empty_slot_def)
      then have "no_child s s'"
        using slot_changed_again [OF s2(1) p2(1)] s1(1,2) s2(2) p2(3) unfolding no_child_def by auto
      then show ?thesis using v by simp
    next
      case False
      then show ?thesis
        using copy_process_rest [of s np s2 v s' p1] a r Some e s1 s2 ne c(1)
        by (auto simp: copy_process_def Let_def empty_slot_def simp del: NOFILE_def)
    qed
  qed
qed

lemma fork_cases:
  assumes "fork s = Ret (v, s')" "cur s < NPROC" "pstate (myproc s) = RUNNING"
  shows "no_child s s' \<or> (\<exists>np p'. new_child s np p' s')"
  using assms copy_process_cases [OF _ assms(2,3)] by (auto simp: fork_def res_simps)

lemma clone_cases:
  assumes "clone stk fn s = Ret (v, s')" "cur s < NPROC" "pstate (myproc s) = RUNNING"
  shows "no_child s s' \<or> (\<exists>np p'. new_child s np p' s')"
proof -
  obtain r s1 where r: "copy_process s = Ret (r, s1)" using assms(1) by (cases "copy_process s") (auto simp: clone_def)
  show ?thesis
  proof (cases r)
    case None
    then show ?thesis using assms(1) r copy_process_cases [OF r assms(2,3)] by (auto simp: clone_def)
  next
    case (Some np)
    then have "s' = set_tf np 16 stk (set_tf np 264 fn s1)" using assms(1) r by (simp add: clone_def)
    then have "same_tables s1 s'" using same_tables_trans [OF set_tf_tables set_tf_tables] by simp
    then show ?thesis using copy_process_cases [OF r assms(2,3)] Some new_child_tables by blast
  qed
qed

end
