(* ===== verification/Fairness.thy ===== *)
theory Fairness
  imports Main
begin

text \<open>
  Progress in labelled runs. A system whose steps keep an invariant makes progress from states that are ready when every
  step but one keeps them ready and that one reaches the goal: in a run in which the one step occurs again and again,
  every ready state is followed by a goal state.
\<close>

locale fair_progress =
  fixes step :: "'s \<Rightarrow> 'l \<Rightarrow> 's \<Rightarrow> bool" and inv :: "'s \<Rightarrow> bool"
    and waits :: "'p \<Rightarrow> 's \<Rightarrow> bool" and goal :: "'p \<Rightarrow> 's \<Rightarrow> bool" and tick :: "'p \<Rightarrow> 'l"
  assumes inv_step: "step s l s' \<Longrightarrow> inv s \<Longrightarrow> inv s'"
    and stays: "step s l s' \<Longrightarrow> inv s \<Longrightarrow> waits p s \<Longrightarrow> l \<noteq> tick p \<Longrightarrow> waits p s'"
    and moves: "step s (tick p) s' \<Longrightarrow> inv s \<Longrightarrow> waits p s \<Longrightarrow> goal p s'"
begin

lemma run_inv:
  assumes "\<forall>i. step (run i) (lab i) (run (Suc i))" "inv (run 0)"
  shows "inv (run i)"
  by (induction i) (use assms inv_step in blast)+

lemma waits_until_tick:
  assumes run: "\<forall>i. step (run i) (lab i) (run (Suc i))" "inv (run 0)" and w: "waits p (run n)"
    and no: "\<forall>i. n \<le> i \<and> i < m \<longrightarrow> lab i \<noteq> tick p" and "n \<le> m"
  shows "waits p (run m)"
  using \<open>n \<le> m\<close> no
proof (induction m rule: dec_induct)
  case (step m)
  then show ?case using stays [OF run(1) [rule_format, of m] run_inv [OF run]] by auto
qed (rule w)

lemma progress:
  assumes run: "\<forall>i. step (run i) (lab i) (run (Suc i))" "inv (run 0)" and fair: "\<forall>i. \<exists>m \<ge> i. lab m = tick p" and w: "waits p (run n)"
  shows "\<exists>m > n. goal p (run m)"
proof -
  define m where "m = (LEAST m. n \<le> m \<and> lab m = tick p)"
  obtain k where "n \<le> k \<and> lab k = tick p" using fair by blast
  then have m: "n \<le> m" "lab m = tick p" using LeastI [of "\<lambda>m. n \<le> m \<and> lab m = tick p" k] unfolding m_def by auto
  have "\<forall>i. n \<le> i \<and> i < m \<longrightarrow> lab i \<noteq> tick p" using not_less_Least unfolding m_def by blast
  then have "waits p (run m)" by (rule waits_until_tick [OF run w _ m(1)])
  moreover have "step (run m) (tick p) (run (Suc m))" using run(1) m(2) by metis
  ultimately have "goal p (run (Suc m))" using moves run_inv [OF run] by blast
  then show ?thesis using m(1) by (intro exI [of _ "Suc m"]) simp
qed

end

end
