(* ===== verification/Kinv.thy ===== *)
theory Kinv
  imports Kstep Fairness
begin

text \<open>
  What holds in every state that the kernel reaches: the process table is in order, every descriptor is counted by its
  file, and a parent asleep in \<^verbatim>\<open>wait\<close> runs again after its child has ended.
\<close>

section \<open>Effects of steps\<close>

definition ids_kept :: "sys \<Rightarrow> sys \<Rightarrow> bool" where
  "ids_kept s s' \<longleftrightarrow> nextpid s' = nextpid s \<and> initproc s' = initproc s"

text \<open>A mild step schedules, wakes and changes the descriptors of a process that runs; a runnable process waits for the
  visit of its slot.\<close>

definition mild :: "ksys \<Rightarrow> label \<Rightarrow> ksys \<Rightarrow> bool" where
  "mild k l k' \<longleftrightarrow> nudged (procs (st k)) (procs (st k')) \<and> ids_kept (st k) (st k') \<and> leaving k' = leaving k
     \<and> (\<forall>i. pstate (procs (st k) i) = RUNNABLE \<longrightarrow> pstate (procs (st k') i) = RUNNABLE \<or> l = Visit i)
     \<and> (fds_ok (fdmap (st k)) (files (st k)) \<longrightarrow> fds_ok (fdmap (st k')) (files (st k')))
     \<and> (\<forall>i. \<not> runs i k \<longrightarrow> ofile (procs (st k') i) = ofile (procs (st k) i))"

lemma calm_nudged: "calm s s' \<Longrightarrow> nudged (procs s) (procs s')"
  unfolding calm_def nudged_def by auto

lemma calm_running: "calm s s' \<Longrightarrow> pstate (procs s i) = RUNNING \<Longrightarrow> pstate (procs s' i) = RUNNING"
  unfolding calm_def by (metis procstate.distinct)

lemma calm_runnable: "calm s s' \<Longrightarrow> pstate (procs s i) = RUNNABLE \<Longrightarrow> pstate (procs s' i) = RUNNABLE"
  unfolding calm_def by (metis procstate.distinct)

lemma mild_trans:
  assumes "mild k l k1" "mild k1 l k2" "\<And>i. ofile (procs (st k2) i) = ofile (procs (st k1) i)"
  shows "mild k l k2"
  using assms nudged_trans unfolding mild_def ids_kept_def by metis

lemma fd_safe_mild:
  assumes r: "runs p k" and s: "fd_safe (on p (st k)) s"
  shows "mild k l (k\<lparr>st := s\<rparr>)" "cur s = p" "pstate (procs s p) = RUNNING"
proof -
  have c: "calm (on p (st k)) s" using s by (simp add: fd_safe_def)
  have "pstate (procs s i) = RUNNABLE" if "pstate (procs (st k) i) = RUNNABLE" for i using calm_runnable [OF c] that by simp
  moreover have "ofile (procs s i) = ofile (procs (st k) i)" if "\<not> runs i k" for i
    using c that r by (cases "i = p") (auto simp: calm_def)
  moreover have "fdmap (on p (st k)) = fdmap (st k)" by (simp add: fdmap_def)
  ultimately show "mild k l (k\<lparr>st := s\<rparr>)"
    using s c calm_nudged [OF c] by (simp add: mild_def ids_kept_def fd_safe_def calm_def)
  show "cur s = p" using c by (simp add: calm_def)
  show "pstate (procs s p) = RUNNING" using calm_running [OF c] r by (simp add: runs_def busy_def)
qed

lemma table_mild:
  assumes "nudged (procs (st k)) (procs s)" "ids_kept (st k) s" "files s = files (st k)" "\<And>i. ofile (procs s i) = ofile (procs (st k) i)"
    "\<And>i. pstate (procs (st k) i) = RUNNABLE \<Longrightarrow> pstate (procs s i) = RUNNABLE \<or> l = Visit i"
  shows "mild k l (k\<lparr>st := s\<rparr>)"
proof -
  have "fdmap s = fdmap (st k)" using assms(4) by (simp add: fdmap_def)
  then show ?thesis using assms by (simp add: mild_def)
qed

lemma nudged_upd:
  "pid p' = pid (P i) \<Longrightarrow> pparent p' = pparent (P i) \<Longrightarrow>
     pstate p' = pstate (P i) \<and> pchan p' = pchan (P i) \<or> awake (P i) \<and> awake p' \<or> pstate (P i) = SLEEPING \<and> awake p' \<Longrightarrow> nudged P (P(i := p'))"
  by (auto simp: nudged_def)

lemma wake_proc_fields [simp]:
  "pid (wake_proc c p) = pid p" "pparent (wake_proc c p) = pparent p" "pchan (wake_proc c p) = pchan p" "ofile (wake_proc c p) = ofile p"
  by (simp_all add: wake_proc_def)

lemma wake_proc_state: "pstate (wake_proc c p) = (if pstate p = SLEEPING \<and> pchan p = Some c then RUNNABLE else pstate p)"
  by (simp add: wake_proc_def)

lemma nudged_wake: "nudged P (P(i := wake_proc c (P i)))"
  by (rule nudged_upd) (auto simp: wake_proc_state)

lemma visit_mild: "mild k (Visit i) (k\<lparr>st := scheduler_visit i (st k)\<rparr>)"
  by (rule table_mild) (auto simp: scheduler_visit_def ids_kept_def intro!: nudged_upd)

lemma yield_mild: "busy p k \<Longrightarrow> mild k l (k\<lparr>st := yield (on p (st k))\<rparr>)"
  by (rule table_mild) (auto simp: yield_def ids_kept_def busy_def intro!: nudged_upd)

lemma kill_mild:
  assumes "kill n sig (on p (st k)) = (r, s)"
  shows "mild k l (k\<lparr>st := s\<rparr>)"
proof (cases "find (\<lambda>i. pid (procs (st k) i) = n) [0..<NPROC]")
  case None
  then show ?thesis using assms by (intro table_mild) (auto simp: kill_def ids_kept_def)
next
  case (Some i)
  then show ?thesis using assms by (intro table_mild) (auto simp: kill_def ids_kept_def intro!: nudged_upd)
qed

lemma user_mild: "mild k l (k\<lparr>st := set_kmem m (st k)\<rparr>)"
  by (rule table_mild) (auto simp: ids_kept_def)

section \<open>Ending\<close>

lemma close_files_safe:
  assumes "close_files fds s = Ret s'" "cur s < NPROC" "set fds \<subseteq> {0..<NOFILE}"
  shows "fd_safe s s' \<and> (\<forall>fd. fd \<in> set fds \<or> ofile (myproc s) fd = None \<longrightarrow> ofile (procs s' (cur s)) fd = None)"
  using assms
proof (induction fds arbitrary: s)
  case (Cons fd fds)
  show ?case
  proof (cases "ofile (myproc s) fd")
    case None
    then show ?thesis using Cons by auto
  next
    case (Some f)
    then obtain s1 where s1: "fileclose f s = Ret s1" "close_files fds (set_fd fd None s1) = Ret s'"
      using Cons.prems by (auto simp: res_simps)
    have fr: "quiet s s1" "files s1 = (files s)(f := closed (files s f))" using fileclose_frame [OF s1(1)] by auto
    have c: "calm s s1" "cur s1 = cur s" using quiet_calm [OF fr(1)] fr(1) by (auto simp: quiet_def)
    have "fdmap (set_fd fd None s1) = (fdmap s)((cur s, fd) := None)" unfolding fdmap_set_fd using quiet_fdmap [OF fr(1)] c(2) by simp
    then have "fd_safe s (set_fd fd None s1)"
      using fds_ok_close [of "fdmap s" "files s" "(cur s, fd)" f] Some Cons.prems fr(2) calm_trans [OF c(1) set_fd_calm]
      by (simp add: fd_safe_def fdslots_def fdmap_def)
    moreover have "ofile (myproc s1) = ofile (myproc s)" using fr(1) c(2) woken_fields(4) by (simp add: quiet_def)
    ultimately show ?thesis using Cons.IH [OF s1(2)] Cons.prems c(2) fd_safe_trans by auto
  qed
qed simp

lemma exit_begin_effect:
  assumes r: "runs p k" and e: "exit_begin (on p (st k)) = Ret (q, s)"
  shows "mild k l (k\<lparr>st := s\<rparr>)" "p \<noteq> initproc (st k)" "pparent (procs (st k) p) = Some q" "\<forall>fd < NOFILE. ofile (procs s p) fd = None"
proof -
  have p: "p < NPROC" using r by (simp add: runs_def busy_def)
  show ne: "p \<noteq> initproc (st k)" using e by (auto simp: exit_begin_def)
  obtain s1 where s1: "close_files [0..<NOFILE] (on p (st k)) = Ret s1"
    using e ne by (cases "close_files [0..<NOFILE] (on p (st k))") (auto simp: exit_begin_def simp del: NOFILE_def)
  note cl = close_files_safe [OF s1]
  obtain s2 d where s2: "with_fs (eput eput_depth d) s1 = Ret s2"
    and s: "s = wakeup1 (initproc s2) (set_proc (cur s2) (\<lambda>p. p\<lparr>cwd := None\<rparr>) s2)" "pparent (procs s (cur s)) = Some q"
    using e ne s1 by (auto simp: exit_begin_def res_simps Let_def split: option.splits simp del: NOFILE_def)
  define s3 where "s3 = set_proc (cur s2) (\<lambda>p. p\<lparr>cwd := None\<rparr>) s2"
  have 12: "fd_safe s1 s2" using same_tables_safe [OF with_fs_tables [OF s2]] .
  have 23: "fd_safe s2 s3" unfolding s3_def by (rule proc_safe) simp
  have f3: "fd_safe (on p (st k)) s3" using cl p fd_safe_trans [OF _ fd_safe_trans [OF 12 23]] by simp
  note m = fd_safe_mild [OF r f3]
  have s3: "s = set_proc (initproc s3) (wake_proc (ProcChan (initproc s3))) s3" using s(1) by (simp add: s3_def wakeup1_def)
  have "mild (k\<lparr>st := s3\<rparr>) l (k\<lparr>st := s3, st := s\<rparr>)"
    by (rule table_mild) (auto simp: s3 ids_kept_def wake_proc_state intro!: nudged_wake)
  then show "mild k l (k\<lparr>st := s\<rparr>)"
    by (intro mild_trans [OF m(1)]) (simp_all add: s3)
  then show "pparent (procs (st k) p) = Some q"
    using s(2) m(2) s3 nudgedD(2) [of "procs (st k)" "procs s" p] by (simp add: mild_def)
  have "ofile (procs s3 p) fd = None" if "fd < NOFILE" for fd
    using cl p that with_fs_tables [OF s2] by (auto simp: s3_def same_tables_def)
  then show "\<forall>fd < NOFILE. ofile (procs s p) fd = None" unfolding s3 by auto
qed

section \<open>Waiting\<close>

definition freed :: "ksys \<Rightarrow> nat \<Rightarrow> ksys \<Rightarrow> bool" where
  "freed k c k' \<longleftrightarrow> (\<exists>p'. procs (st k') = (procs (st k))(c := p') \<and> pstate p' = UNUSED \<and> pparent p' = None \<and> ofile p' = ofile (procs (st k) c)
     \<and> ids_kept (st k) (st k') \<and> files (st k') = files (st k) \<and> leaving k' = leaving k)"

definition dead_child :: "ksys \<Rightarrow> nat \<Rightarrow> nat \<Rightarrow> bool" where
  "dead_child k p c \<longleftrightarrow> c < NPROC \<and> pparent (procs (st k) c) = Some p \<and> pstate (procs (st k) c) = ZOMBIE"

definition falls_asleep :: "ksys \<Rightarrow> nat \<Rightarrow> channel \<Rightarrow> ksys \<Rightarrow> bool" where
  "falls_asleep k p c k' \<longleftrightarrow> runs p k
     \<and> procs (st k') = (procs (st k))(p := (procs (st k) p)\<lparr>pchan := Some c, pstate := SLEEPING\<rparr>)
     \<and> ids_kept (st k) (st k') \<and> files (st k') = files (st k) \<and> leaving k' = leaving k
     \<and> (\<forall>t. c = ProcChan t \<longrightarrow> sleeper_ok (procs (st k')) p)"

lemma reap_effect:
  assumes r: "runs p k" and s: "fd_safe (on p (st k)) s" and e: "reap c addr s = Ret (v, s')"
  shows "mild k l (k\<lparr>st := s'\<rparr>) \<or> (\<exists>k1. mild k l k1 \<and> freed k1 c (k\<lparr>st := s'\<rparr>))"
proof -
  obtain w s1 where s1: "(if addr \<noteq> 0 then copyout_cur addr (le_bytes 4 (xstate (procs s c))) s else Ret (0, s)) = Ret (w, s1)"
    and d: "s' = s1 \<or> freeproc c s1 = Ret s'"
    using e by (auto simp: reap_def res_simps split: if_splits)
  have "fd_safe s s1" using s1 same_tables_safe [OF copyout_cur_tables] by (auto split: if_splits)
  then have m: "mild k l (k\<lparr>st := s1\<rparr>)" using fd_safe_mild(1) [OF r fd_safe_trans [OF s]] by blast
  from d show ?thesis
  proof
    assume "freeproc c s1 = Ret s'"
    then have "freed (k\<lparr>st := s1\<rparr>) c (k\<lparr>st := s'\<rparr>)"
      using freeproc_slot by (fastforce simp: freed_def slot_changed_def empty_slot_def ids_kept_def)
    then show ?thesis using m by blast
  qed (use m in simp)
qed

lemma sleep_effect:
  assumes "runs p k" "\<And>t. c = ProcChan t \<Longrightarrow> sleeper_ok ((procs (st k))(p := (procs (st k) p)\<lparr>pchan := Some c, pstate := SLEEPING\<rparr>)) p"
  shows "falls_asleep k p c (k\<lparr>st := sleep c (on p (st k))\<rparr>)"
  using assms by (auto simp: falls_asleep_def sleep_def ids_kept_def)

lemma wait_effect:
  assumes r: "runs p k" and e: "wait addr (on p (st k)) = Ret (v, s)"
  shows "mild k l (k\<lparr>st := s\<rparr>) \<or> (\<exists>c k1. dead_child k p c \<and> mild k l k1 \<and> freed k1 c (k\<lparr>st := s\<rparr>))
    \<or> (\<exists>c. falls_asleep k p c (k\<lparr>st := s\<rparr>))"
proof (cases "find (\<lambda>i. is_child p (st k) i \<and> pstate (procs (st k) i) = ZOMBIE) [0..<NPROC]")
  case (Some c)
  then have "reap c addr (on p (st k)) = Ret (v, s)" using e by (simp add: wait_def is_child_def)
  moreover have "dead_child k p c" using find_slot [OF Some] by (simp add: dead_child_def is_child_def)
  ultimately show ?thesis using reap_effect [OF r fd_safe_refl] by blast
next
  case None
  then have kids: "\<forall>i < NPROC. pparent (procs (st k) i) = Some p \<longrightarrow> pstate (procs (st k) i) \<noteq> ZOMBIE"
    by (auto simp: find_None_iff is_child_def)
  have m: "mild k l (k\<lparr>st := on p (st k)\<rparr>)" using fd_safe_mild(1) [OF r fd_safe_refl] .
  have "s = on p (st k) \<or> s = sleep (ProcChan p) (on p (st k))"
    using e None by (auto simp: wait_def is_child_def split: if_splits)
  moreover have "falls_asleep k p (ProcChan p) (k\<lparr>st := sleep (ProcChan p) (on p (st k))\<rparr>)"
    by (rule sleep_effect [OF r]) (use kids in \<open>auto simp: sleeper_ok_def\<close>)
  ultimately show ?thesis using m by auto
qed

lemma wait4_effect:
  assumes r: "runs p k" and e: "wait4pid n addr (on p (st k)) = Ret (v, s)" and t: "tree_ok (procs (st k)) z"
  shows "mild k l (k\<lparr>st := s\<rparr>) \<or> (\<exists>c k1. dead_child k p c \<and> mild k l k1 \<and> freed k1 c (k\<lparr>st := s\<rparr>))
    \<or> (\<exists>c. falls_asleep k p c (k\<lparr>st := s\<rparr>))"
proof -
  define mt where "mt = (\<lambda>i. (n = -1 \<or> pid (procs (st k) i) = n) \<and> pparent (procs (st k) i) = Some p)"
  show ?thesis
  proof (cases "find (\<lambda>i. mt i \<and> pstate (procs (st k) i) = ZOMBIE) [0..<NPROC]")
    case (Some c)
    define s1 where "s1 = set_proc c (\<lambda>x. x\<lparr>xstate := push_bit 8 (xstate x)\<rparr>) (on p (st k))"
    have "reap c addr s1 = Ret (v, s)"
      using e Some by (simp add: wait4pid_def findchild_def is_child_def mt_def s1_def)
    moreover have "dead_child k p c" using find_slot [OF Some] by (simp add: dead_child_def mt_def)
    moreover have "fd_safe (on p (st k)) s1" unfolding s1_def by (rule proc_safe) simp
    ultimately show ?thesis using reap_effect [OF r] by blast
  next
    case None
    then have live: "\<forall>i < NPROC. mt i \<longrightarrow> pstate (procs (st k) i) \<noteq> ZOMBIE" by (auto simp: find_None_iff)
    show ?thesis
    proof (cases "filter mt [0..<NPROC] = []")
      case True
      then have "s = on p (st k)"
        using e None by (simp add: wait4pid_def findchild_def is_child_def mt_def)
      then show ?thesis using fd_safe_mild(1) [OF r fd_safe_refl] by simp
    next
      case False
      define ch where "ch = last (filter mt [0..<NPROC])"
      have "ch \<in> set (filter mt [0..<NPROC])" using False unfolding ch_def by (rule last_in_set)
      then have ch: "ch < NPROC" "mt ch" by auto
      have par: "pparent (procs (st k) ch) = Some p" using ch(2) by (simp add: mt_def)
      have al: "alive (procs (st k) ch)" using live ch t par unfolding tree_ok_def by (metis option.distinct(1))
      have ne: "ch \<noteq> p" using t ch(1) par unfolding tree_ok_def by blast
      have s: "s = sleep (if n = -1 then ProcChan p else ProcChan ch) (on p (st k))"
        using e None False by (cases "n = -1") (auto simp: wait4pid_def findchild_def is_child_def mt_def ch_def Let_def)
      have "falls_asleep k p (if n = -1 then ProcChan p else ProcChan ch) (k\<lparr>st := s\<rparr>)"
        unfolding s by (rule sleep_effect [OF r]) (use live ch par al ne in \<open>auto simp: sleeper_ok_def mt_def split: if_splits\<close>)
      then show ?thesis by blast
    qed
  qed
qed

section \<open>One step\<close>

lemma io_effect:
  assumes r: "runs p k" and m: "file_moved (on p (st k)) s" and w: "\<And>c a t. v = Wait c a \<Longrightarrow> c \<noteq> ProcChan t"
  shows "mild k l (k\<lparr>st := suspend v s\<rparr>) \<or> (\<exists>k1 c. mild k l k1 \<and> falls_asleep k1 p c (k\<lparr>st := suspend v s\<rparr>))"
proof (cases v)
  case (Return n)
  then show ?thesis using fd_safe_mild(1) [OF r moved_safe [OF m]] by simp
next
  case (Wait c a)
  note f = fd_safe_mild [OF r moved_safe [OF m]]
  have r1: "runs p (k\<lparr>st := s\<rparr>)" using r f(3) by (simp add: runs_def busy_def)
  have "on p s = s" using f(2) by simp
  moreover have "falls_asleep (k\<lparr>st := s\<rparr>) p c (k\<lparr>st := s, st := sleep c (on p s)\<rparr>)"
    using sleep_effect [OF r1, of c] w [OF Wait] by simp
  ultimately show ?thesis using Wait f(1) by auto
qed

lemma kstep_cases:
  assumes step: "kstep k l k'" and t: "tree_ok (procs (st k)) z"
  obtains (mild) "mild k l k'"
  | (asleep) k1 p c where "runs p k" "mild k l k1" "falls_asleep k1 p c k'"
  | (none) p where "runs p k" "no_child (on p (st k)) (st k')" "leaving k' = leaving k"
  | (child) p i p' where "runs p k" "new_child (on p (st k)) i p' (st k')" "leaving k' = leaving k"
  | (begun) p q k1 where "runs p k" "mild k l k1" "p \<noteq> initproc (st k)" "pparent (procs (st k) p) = Some q"
      "\<forall>fd < NOFILE. ofile (procs (st k1) p) fd = None" "k' = k1\<lparr>leaving := (leaving k1)(p := Some q)\<rparr>"
  | (ended) p q status where "busy p k" "leaving k p = Some q"
      "k' = k\<lparr>st := exit_end status q (on p (st k)), leaving := (leaving k)(p := None)\<rparr>"
  | (freed) p c k1 where "runs p k" "dead_child k p c" "mild k l k1" "freed k1 c k'"
  using step
proof cases
  case (visit i)
  then show ?thesis using that(1) visit_mild by blast
next
  case (yield p)
  then show ?thesis using that(1) yield_mild by blast
next
  case (user p m)
  then show ?thesis using that(1) user_mild by blast
next
  case (start p first s)
  then show ?thesis using that(1) fd_safe_mild(1) forkret_safe by blast
next
  case (scall p c r s)
  then have "fd_safe (on p (st k)) s" using do_scall_safe by (simp add: runs_def busy_def)
  then show ?thesis using that(1) fd_safe_mild(1) scall by blast
next
  case (read_file p a r s)
  then show ?thesis using io_effect [OF read_file(3) sys_read_moved [OF read_file(4)], of r l] read_waits [of a "on p (st k)"] that(1,2) by blast
next
  case (write_file p a r s)
  then show ?thesis using io_effect [OF write_file(3) sys_write_moved [OF write_file(4)], of r l] write_waits [of a "on p (st k)"] that(1,2) by blast
next
  case (fork p r s)
  then show ?thesis using fork_cases [OF fork(4)] that(3,4) by (auto simp: runs_def busy_def)
next
  case (clone p stk fn r s)
  then show ?thesis using clone_cases [OF clone(4)] that(3,4) by (auto simp: runs_def busy_def)
next
  case (exit_begin p q s)
  show ?thesis
    using that(5) [of p "k\<lparr>st := s\<rparr>" q] exit_begin_effect [OF exit_begin(3,4)] exit_begin by simp
next
  case (exit_end p q status)
  then show ?thesis using that(6) by blast
next
  case (wait p addr r s)
  have "mild k l k" by (simp add: mild_def ids_kept_def)
  then show ?thesis using wait_effect [OF wait(3,4)] wait that(1,2,7) by blast
next
  case (wait4 p n addr r s)
  have "mild k l k" by (simp add: mild_def ids_kept_def)
  then show ?thesis using wait4_effect [OF wait4(3,4) t] wait4 that(1,2,7) by blast
next
  case (kill p n sig r s)
  then show ?thesis using that(1) kill_mild by blast
qed

section \<open>The invariants\<close>

definition ktab_ok :: "ksys \<Rightarrow> bool" where
  "ktab_ok k \<longleftrightarrow> tab_ok (procs (st k)) (nextpid (st k)) (initproc (st k)) (leaving k)"

text \<open>Every descriptor is counted by its file; a slot that is free, dead or leaving has none.\<close>

definition kfds_ok :: "ksys \<Rightarrow> bool" where
  "kfds_ok k \<longleftrightarrow> fds_ok (fdmap (st k)) (files (st k))
     \<and> (\<forall>i < NPROC. \<not> alive (procs (st k) i) \<or> leaving k i \<noteq> None \<longrightarrow> (\<forall>fd < NOFILE. ofile (procs (st k) i) fd = None))"

lemma ktab_tree: "ktab_ok k \<Longrightarrow> tree_ok (procs (st k)) (initproc (st k))"
  by (simp add: ktab_ok_def tab_ok_def)

lemma mild_nudged: "mild k l k' \<Longrightarrow> nudged (procs (st k)) (procs (st k'))"
  by (simp add: mild_def)

lemma mild_tab: "mild k l k' \<Longrightarrow> ktab_ok k \<Longrightarrow> ktab_ok k'"
  using nudged_ok by (auto simp: mild_def ids_kept_def ktab_ok_def)

lemma mild_fds:
  assumes m: "mild k l k'" and ok: "kfds_ok k"
  shows "kfds_ok k'"
proof -
  have "ofile (procs (st k') i) fd = None" if i: "i < NPROC" "\<not> alive (procs (st k') i) \<or> leaving k' i \<noteq> None" "fd < NOFILE" for i fd
  proof -
    have "\<not> alive (procs (st k) i) \<or> leaving k i \<noteq> None"
      using i(2) m nudgedD(3,4) [of "procs (st k)" "procs (st k')" i] by (auto simp: mild_def)
    then have "\<not> runs i k" "ofile (procs (st k) i) fd = None" using ok i(1,3) by (auto simp: kfds_ok_def runs_def busy_def)
    then show ?thesis using m by (simp add: mild_def)
  qed
  then show ?thesis using m ok by (auto simp: mild_def kfds_ok_def)
qed

lemma mild_runs: "mild k l k1 \<Longrightarrow> runs p k \<Longrightarrow> awake (procs (st k1) p) \<and> leaving k1 p = None"
  using nudgedD(5) [of "procs (st k)" "procs (st k1)" p] by (auto simp: mild_def runs_def busy_def)

text \<open>The table after \<^verbatim>\<open>exit\<close>: orphans go to the first process, the parent wakes, the process is dead.\<close>

definition exit_table :: "int \<Rightarrow> nat \<Rightarrow> nat \<Rightarrow> nat \<Rightarrow> ptab \<Rightarrow> ptab" where
  "exit_table status p q z P =
     (let P1 = reparented p z P; P2 = P1(q := wake_proc (ProcChan q) (P1 q)); P3 = P2(q := wake_proc (ProcChan p) (P2 q))
      in P3(p := (P3 p)\<lparr>xstate := of_int status, pstate := ZOMBIE\<rparr>))"

lemma reparent_fields:
  "procs (reparent p s) = reparented p (initproc s) (procs s)" "initproc (reparent p s) = initproc s" "nextpid (reparent p s) = nextpid s"
  "files (reparent p s) = files s" "cur (reparent p s) = cur s"
  by (simp_all add: reparent_def reparented_def)

lemma exit_end_table:
  "procs (exit_end status q (on p s)) = exit_table status p q (initproc s) (procs s)"
  "ids_kept s (exit_end status q (on p s))" "files (exit_end status q (on p s)) = files s"
  by (simp_all add: exit_end_def exit_table_def wakeup1_def Let_def ids_kept_def reparent_fields)

lemma exit_table_ofile [simp]: "ofile (exit_table status p q z P i) = ofile (P i)"
  by (simp add: exit_table_def Let_def reparented_def)

lemma exit_table_ok:
  assumes ok: "tab_ok P n z L" and p: "p < NPROC" "L p = Some q"
  shows "tab_ok (exit_table status p q z P) n z (L(p := None))"
proof -
  define P1 where "P1 = reparented p z P"
  define P2 where "P2 = P1(q := wake_proc (ProcChan q) (P1 q))"
  define P3 where "P3 = P2(q := wake_proc (ProcChan p) (P2 q))"
  have l: "awake (P p)" "pparent (P p) = Some q \<or> pparent (P p) = Some z" "p \<noteq> z" "pparent (P p) \<noteq> Some p"
    using ok p by (auto simp: tab_ok_def leaving_ok_def init_ok_def tree_ok_def)
  have n12: "nudged P1 P2" unfolding P2_def by (rule nudged_wake)
  have n23: "nudged P2 P3" unfolding P3_def by (rule nudged_wake)
  have n: "nudged P1 P3" using nudged_trans [OF n12 n23] .
  have t1: "tab_ok P1 n z L" unfolding P1_def by (rule reparented_ok [OF ok p(1) l(1)])
  have "tab_ok (P3(p := (P3 p)\<lparr>xstate := of_int status, pstate := ZOMBIE\<rparr>)) n z (L(p := None))"
  proof (rule dead_ok [OF nudged_ok [OF n t1] p(1) l(3)])
    show "awake (P3 p)" using nudgedD(5) [OF n] l(1) by (simp add: P1_def)
    show "\<forall>i < NPROC. pparent (P3 i) \<noteq> Some p" using l(3) unfolding nudgedD(2) [OF n] by (simp add: P1_def)
    fix q' assume a: "pparent (P3 p) = Some q'" "q' \<noteq> z" "pstate (P3 q') = SLEEPING"
    then have "q' = q" using l(2,4) p(1) unfolding nudgedD(2) [OF n] by (simp add: P1_def)
    then show "pchan (P3 q') \<noteq> Some (ProcChan q') \<and> pchan (P3 q') \<noteq> Some (ProcChan p)"
      using a(3) by (auto simp: P3_def P2_def wake_proc_state split: if_splits)
  qed simp_all
  moreover have "exit_table status p q z P = P3(p := (P3 p)\<lparr>xstate := of_int status, pstate := ZOMBIE\<rparr>)"
    by (simp only: exit_table_def Let_def P1_def P2_def P3_def)
  ultimately show ?thesis by (simp only:)
qed

lemma kstep_tab_ok:
  assumes step: "kstep k l k'" and ok: "ktab_ok k"
  shows "ktab_ok k'"
proof (rule kstep_cases [OF step ktab_tree [OF ok]])
  show "mild k l k' \<Longrightarrow> ktab_ok k'" using mild_tab ok by blast
next
  fix k1 p c assume a: "runs p k" "mild k l k1" "falls_asleep k1 p c k'"
  have "ktab_ok k1" using mild_tab [OF a(2) ok] .
  then have "tab_ok ((procs (st k1))(p := (procs (st k1) p)\<lparr>pchan := Some c, pstate := SLEEPING\<rparr>)) (nextpid (st k1)) (initproc (st k1)) (leaving k1)"
    using a(3) by (intro asleep_ok) (auto simp: ktab_ok_def falls_asleep_def runs_def busy_def)
  then show "ktab_ok k'" using a(3) by (simp add: ktab_ok_def falls_asleep_def ids_kept_def)
next
  fix p assume a: "runs p k" "no_child (on p (st k)) (st k')" "leaving k' = leaving k"
  have none: "pparent (procs (st k) i) = None" if "pstate (procs (st k) i) = UNUSED" "i < NPROC" for i
    using ktab_tree [OF ok] that by (simp add: tree_ok_def)
  show "ktab_ok k'"
    using a ok none empty_ok [of "procs (st k)" "nextpid (st k)" "initproc (st k)" "leaving k"]
    by (auto simp: no_child_def same_tables_def ktab_ok_def slot_changed_def empty_slot_def)
next
  fix p i p' assume a: "runs p k" "new_child (on p (st k)) i p' (st k')" "leaving k' = leaving k"
  then show "ktab_ok k'"
    using child_ok [OF ok [unfolded ktab_ok_def], of i p' p] by (simp add: new_child_def ktab_ok_def runs_def busy_def)
next
  fix p q k1 assume a: "runs p k" "mild k l k1" "p \<noteq> initproc (st k)" "pparent (procs (st k) p) = Some q"
    "k' = k1\<lparr>leaving := (leaving k1)(p := Some q)\<rparr>"
  have "ktab_ok k1" using mild_tab [OF a(2) ok] .
  moreover have "pparent (procs (st k1) p) = Some q" using a(4) nudgedD(2) [OF mild_nudged [OF a(2)]] by simp
  moreover have "p \<noteq> initproc (st k1)" using a(2,3) by (simp add: mild_def ids_kept_def)
  moreover have "p < NPROC" using a(1) by (simp add: runs_def busy_def)
  ultimately show "ktab_ok k'"
    using begun_ok mild_runs [OF a(2,1)] a(5) by (simp add: ktab_ok_def)
next
  fix p q status assume a: "busy p k" "leaving k p = Some q"
    "k' = k\<lparr>st := exit_end status q (on p (st k)), leaving := (leaving k)(p := None)\<rparr>"
  then show "ktab_ok k'"
    using exit_table_ok [OF ok [unfolded ktab_ok_def] _ a(2)] exit_end_table(1) [of status q p "st k"] exit_end_table(2) [of "st k" status q p]
    by (simp add: ktab_ok_def ids_kept_def busy_def)
next
  fix p c k1 assume a: "runs p k" "dead_child k p c" "mild k l k1" "freed k1 c k'"
  have "ktab_ok k1" using mild_tab [OF a(3) ok] .
  moreover have "pstate (procs (st k1) c) = ZOMBIE" using a(2) nudgedD(4) [OF mild_nudged [OF a(3)]] by (simp add: dead_child_def)
  ultimately show "ktab_ok k'"
    using freed_ok a(4) by (auto simp: freed_def ktab_ok_def ids_kept_def)
qed

lemma same_ofiles_fds:
  assumes ok: "kfds_ok k" and s: "\<And>i. i < NPROC \<Longrightarrow> ofile (procs (st k') i) = ofile (procs (st k) i)" "files (st k') = files (st k)"
    and i: "\<And>i. i < NPROC \<Longrightarrow> \<not> alive (procs (st k') i) \<or> leaving k' i \<noteq> None \<Longrightarrow> \<not> alive (procs (st k) i) \<or> leaving k i \<noteq> None"
  shows "kfds_ok k'"
proof -
  have "nfds (fdmap (st k')) f = nfds (fdmap (st k)) f" for f by (rule nfds_cong) (auto simp: fdslots_def fdmap_def s)
  then have "fds_ok (fdmap (st k')) (files (st k'))"
    using ok s by (auto simp: kfds_ok_def fds_ok_def fdslots_def fdmap_def)
  then show ?thesis using ok s(1) i unfolding kfds_ok_def by metis
qed

lemma kstep_fds_ok:
  assumes step: "kstep k l k'" and t: "ktab_ok k" and ok: "kfds_ok k"
  shows "kfds_ok k'"
proof (rule kstep_cases [OF step ktab_tree [OF t]])
  show "mild k l k' \<Longrightarrow> kfds_ok k'" using mild_fds ok by blast
next
  fix k1 p c assume a: "runs p k" "mild k l k1" "falls_asleep k1 p c k'"
  show "kfds_ok k'"
    by (rule same_ofiles_fds [OF mild_fds [OF a(2) ok]]) (use a(3) in \<open>auto simp: falls_asleep_def split: if_splits\<close>)
next
  fix p assume a: "runs p k" "no_child (on p (st k)) (st k')" "leaving k' = leaving k"
  show "kfds_ok k'"
    by (rule same_ofiles_fds [OF ok])
      (use a in \<open>auto simp: no_child_def same_tables_def slot_changed_def empty_slot_def split: if_splits\<close>)
next
  fix p i p' assume a: "runs p k" "new_child (on p (st k)) i p' (st k')" "leaving k' = leaving k"
  have "leaving k i = None"
    using a(2) t by (cases "leaving k i") (auto simp: new_child_def ktab_ok_def tab_ok_def leaving_ok_def)
  moreover have "fdmap (on p (st k)) = fdmap (st k)" by (simp add: fdmap_def)
  ultimately show "kfds_ok k'" using a(2,3) ok by (auto simp: kfds_ok_def new_child_def)
next
  fix p q k1 assume a: "runs p k" "mild k l k1" "\<forall>fd < NOFILE. ofile (procs (st k1) p) fd = None"
    "k' = k1\<lparr>leaving := (leaving k1)(p := Some q)\<rparr>"
  then show "kfds_ok k'" using mild_fds [OF a(2) ok] by (auto simp: kfds_ok_def)
next
  fix p q status assume a: "busy p k" "leaving k p = Some q"
    "k' = k\<lparr>st := exit_end status q (on p (st k)), leaving := (leaving k)(p := None)\<rparr>"
  have al: "\<not> alive (exit_table status p q z P i) \<Longrightarrow> \<not> alive (P i) \<or> i = p" for z P i
    by (auto simp: exit_table_def Let_def wake_proc_state split: if_splits)
  show "kfds_ok k'"
    by (rule same_ofiles_fds [OF ok]) (use a al in \<open>auto simp: exit_end_table split: if_splits\<close>)
next
  fix p c k1 assume a: "runs p k" "dead_child k p c" "mild k l k1" "freed k1 c k'"
  have "pstate (procs (st k1) c) = ZOMBIE" using a(2) nudgedD(4) [OF mild_nudged [OF a(3)]] by (simp add: dead_child_def)
  then show "kfds_ok k'"
    by (intro same_ofiles_fds [OF mild_fds [OF a(3) ok]]) (use a(4) in \<open>auto simp: freed_def split: if_splits\<close>)
qed

section \<open>Runs\<close>

lemma booted_ok:
  assumes "booted k"
  shows "ktab_ok k" "kfds_ok k"
proof -
  let ?s = "st k" and ?z = "initproc (st k)"
  have b: "?z < NPROC" "pstate (procs ?s ?z) = RUNNABLE" "pparent (procs ?s ?z) = None" "0 < pid (procs ?s ?z)" "pid (procs ?s ?z) < nextpid ?s"
    "leaving k = (\<lambda>_. None)" "\<And>i. i < NPROC \<Longrightarrow> i \<noteq> ?z \<Longrightarrow> pstate (procs ?s i) = UNUSED \<and> pparent (procs ?s i) = None"
    "\<And>i fd. i < NPROC \<Longrightarrow> fd < NOFILE \<Longrightarrow> ofile (procs ?s i) fd = None" "\<And>f. f < NFILE \<Longrightarrow> files ?s f = zero_file"
    using assms by (auto simp: booted_def Let_def)
  have "init_ok (procs ?s) ?z (leaving k)" "leaving_ok (procs ?s) ?z (leaving k)" using b(1-6) by (auto simp: init_ok_def leaving_ok_def)
  moreover have "pids_ok (procs ?s) (nextpid ?s)" using b(4,5,7) unfolding pids_ok_def by metis
  moreover have "tree_ok (procs ?s) ?z" using b(2,3,7) unfolding tree_ok_def by (metis option.distinct(1) procstate.distinct(5))
  moreover have "waiting_ok (procs ?s) ?z" using b(7) by (auto simp: waiting_ok_def)
  ultimately show "ktab_ok k" by (simp add: ktab_ok_def tab_ok_def)
  have "{x \<in> fdslots. fdmap ?s x = Some f} = {}" for f using b(8) by (auto simp: fdslots_def fdmap_def)
  then have "nfds (fdmap ?s) f = 0" for f by (simp add: nfds_def)
  moreover have "\<forall>x \<in> fdslots. fdmap ?s x = None" using b(8) by (auto simp: fdslots_def fdmap_def)
  ultimately show "kfds_ok k" using b(8,9) by (simp add: kfds_ok_def fds_ok_def file_typed_def zero_file_def)
qed

lemma ksteps_ok:
  assumes "ksteps k k'" "booted k"
  shows "ktab_ok k' \<and> kfds_ok k'"
  using assms by (induction) (auto simp: booted_ok intro: kstep_tab_ok kstep_fds_ok)

text \<open>The kernel starts like that: the tables are cleared, and \<open>userinit\<close> makes the first process.\<close>

lemma userinit_booted:
  assumes u: "userinit (procinit (fileinit s)) = Ret s'" and n: "0 < nextpid s"
  shows "booted \<lparr>st = s', leaving = (\<lambda>_. None)\<rparr>"
proof -
  define s0 where "s0 = procinit (fileinit s)"
  obtain r s1 where r: "allocproc s0 = Ret (r, s1)" using u by (cases "allocproc s0") (auto simp: userinit_def s0_def)
  obtain i where i: "r = Some i" using u r by (cases r) (auto simp: userinit_def s0_def)
  from r obtain p1 where s1: "i < NPROC" "slot_changed s0 i p1 s1" "empty_slot (procs s0 i) p1" "nextpid s1 = nextpid s0 + 1" "pid p1 = nextpid s0"
    by (rule allocproc_slot) (use i in auto)
  obtain s2 w s4 x sp5 where s2: "with_kmem (uvminit (pagetable (procs s1 i)) (initcode s1) (initcodesize s1)) (s1\<lparr>initproc := i\<rparr>) = Ret s2"
    and s4: "with_vma_val (alloc_vma_stack w (pagetable (procs s2 i))) (set_proc i (\<lambda>p. p\<lparr>psz := PGROUNDUP (ucast (initcodesize s2))\<rparr>) s2) = Ret (x, s4)"
    and s': "s' = set_proc i (\<lambda>p. p\<lparr>pname := copy_name (map (of_nat \<circ> of_char) ''initcode'' @ [0]) (pname p), pstate := RUNNABLE, tmask := 0\<rparr>)
        (set_tf i 264 0 (set_tf i 16 sp5 s4))"
    using u r i by (auto simp: userinit_def s0_def res_simps Let_def)
  have t: "same_tables s4 (set_tf i 264 0 (set_tf i 16 v s4))" for v by (rule same_tables_trans [OF set_tf_tables set_tf_tables])
  have e: "procs s' = (procs s0)(i := procs s' i)" "pstate (procs s' i) = RUNNABLE" "pparent (procs s' i) = pparent p1" "pid (procs s' i) = pid p1"
    "ofile (procs s' i) = ofile p1" "files s' = files s0" "initproc s' = i" "nextpid s' = nextpid s0 + 1"
    using s' t s1(2,4) with_kmem_tables [OF s2] with_vma_val_tables [OF s4] by (auto simp: same_tables_def slot_changed_def)
  have z: "pstate (procs s0 j) = UNUSED \<and> pparent (procs s0 j) = None \<and> (\<forall>fd < NOFILE. ofile (procs s0 j) fd = None)" if "j < NPROC" for j
    using that by (simp add: s0_def procinit_def)
  have "procs s' j = procs s0 j" if "j \<noteq> i" for j using e(1) that by (metis fun_upd_other)
  then have "\<forall>j < NPROC. j \<noteq> i \<longrightarrow> pstate (procs s' j) = UNUSED \<and> pparent (procs s' j) = None \<and> (\<forall>fd < NOFILE. ofile (procs s' j) fd = None)"
    using z by simp
  moreover have "pparent (procs s' i) = None" "\<forall>fd < NOFILE. ofile (procs s' i) fd = None"
    using e(3,5) s1(3) z [OF s1(1)] by (auto simp: empty_slot_def)
  moreover have "nextpid s0 = nextpid s" "\<forall>f < NFILE. files s0 f = zero_file" by (auto simp: s0_def procinit_def fileinit_def)
  ultimately show ?thesis using e(2,4,6-8) s1(1,5) n unfolding booted_def Let_def by (metis ksys.select_convs zless_add1_eq)
qed

section \<open>The parent runs again\<close>

definition ready :: "ksys \<Rightarrow> nat \<Rightarrow> nat \<Rightarrow> bool" where
  "ready k q c \<longleftrightarrow> pstate (procs (st k) q) = RUNNABLE \<and> dead_child k q c"

lemma exit_table_ready:
  assumes "pstate (P q) = SLEEPING" "pchan (P q) = Some (ProcChan q) \<or> pchan (P q) = Some (ProcChan c)" "c < NPROC" "pparent (P c) = Some q" "c \<noteq> q"
  shows "pstate (exit_table status c q z P q) = RUNNABLE" "pstate (exit_table status c q z P c) = ZOMBIE"
    "pparent (exit_table status c q z P c) = Some q"
  using assms by (auto simp: exit_table_def Let_def wake_proc_state)

lemma exit_table_other:
  assumes "i \<noteq> p" "pstate (P i) \<noteq> SLEEPING"
  shows "pstate (exit_table status p q z P i) = pstate (P i)"
    "i < NPROC \<Longrightarrow> pparent (P i) \<noteq> Some p \<Longrightarrow> pparent (exit_table status p q z P i) = pparent (P i)"
  using assms by (auto simp: exit_table_def Let_def wake_proc_state)

lemma exit_ready:
  assumes step: "kstep k (ExitEnd c status) k'" and ok: "ktab_ok k"
    and q: "q \<noteq> initproc (st k)" "pstate (procs (st k) q) = SLEEPING" "pchan (procs (st k) q) \<in> {Some (ProcChan q), Some (ProcChan c)}"
    and c: "pparent (procs (st k) c) = Some q"
  shows "ready k' q c"
  using step
proof cases
  case (exit_end q')
  have n: "c < NPROC" using exit_end by (simp add: busy_def)
  have "q' = q" using ok n exit_end(3) c q(1) by (auto simp: ktab_ok_def tab_ok_def leaving_ok_def)
  moreover have "c \<noteq> q" using ktab_tree [OF ok] n c by (auto simp: tree_ok_def)
  ultimately show ?thesis
    using exit_table_ready [of "procs (st k)" q c status "initproc (st k)"] q c n exit_end
    by (simp add: ready_def dead_child_def exit_end_table)
qed

lemma mild_ready: "mild k l k' \<Longrightarrow> l \<noteq> Visit q \<Longrightarrow> ready k q c \<Longrightarrow> ready k' q c"
  using nudgedD(2,4) [OF mild_nudged, of k l k' c] by (auto simp: ready_def dead_child_def mild_def)

lemma slot_ready:
  assumes "procs (st k') = (procs (st k))(i := p')" "i \<noteq> q" "i \<noteq> c" "ready k q c"
  shows "ready k' q c"
  using assms by (simp add: ready_def dead_child_def)

lemma ready_stable:
  assumes step: "kstep k l k'" and ok: "ktab_ok k" and l: "l \<noteq> Visit q" and r: "ready k q c"
  shows "ready k' q c"
proof (rule kstep_cases [OF step ktab_tree [OF ok]])
  have s: "pstate (procs (st k) q) = RUNNABLE" "pstate (procs (st k) c) = ZOMBIE" "pparent (procs (st k) c) = Some q" "c < NPROC"
    using r by (auto simp: ready_def dead_child_def)
  have run: "p \<noteq> q \<and> p \<noteq> c" if "busy p k" for p using that s by (auto simp: busy_def)
  {
    show "mild k l k' \<Longrightarrow> ready k' q c" using mild_ready l r by blast
  next
    fix k1 p ch assume a: "runs p k" "mild k l k1" "falls_asleep k1 p ch k'"
    then show "ready k' q c"
      using slot_ready [of k' k1 p _ q c] mild_ready [OF a(2) l r] run by (auto simp: falls_asleep_def runs_def)
  next
    fix p assume a: "runs p k" "no_child (on p (st k)) (st k')"
    then consider "procs (st k') = procs (st k)" | i p' where "procs (st k') = (procs (st k))(i := p')" "pstate (procs (st k) i) = UNUSED"
      by (auto simp: no_child_def same_tables_def slot_changed_def)
    then show "ready k' q c"
    proof cases
      case 1
      then show ?thesis using r by (simp add: ready_def dead_child_def)
    next
      case 2
      then have "i \<noteq> q" "i \<noteq> c" using s by auto
      then show ?thesis by (rule slot_ready [OF 2(1) _ _ r])
    qed
  next
    fix p i p' assume a: "runs p k" "new_child (on p (st k)) i p' (st k')"
    then have "i \<noteq> q" "i \<noteq> c" "procs (st k') = (procs (st k))(i := p')" using s by (auto simp: new_child_def)
    then show "ready k' q c" using slot_ready r by blast
  next
    fix p q' k1 assume a: "mild k l k1" "k' = k1\<lparr>leaving := (leaving k1)(p := Some q')\<rparr>"
    then show "ready k' q c" using mild_ready [OF a(1) l r] by (simp add: ready_def dead_child_def)
  next
    fix p q' status assume a: "busy p k" "k' = k\<lparr>st := exit_end status q' (on p (st k)), leaving := (leaving k)(p := None)\<rparr>"
    then show "ready k' q c"
      using exit_table_other [of q p "procs (st k)"] exit_table_other [of c p "procs (st k)"] run [OF a(1)] s
      by (simp add: ready_def dead_child_def exit_end_table)
  next
    fix p ch k1 assume a: "runs p k" "dead_child k p ch" "mild k l k1" "freed k1 ch k'"
    have "ch \<noteq> q" "ch \<noteq> c" using a(1,2) s run by (auto simp: dead_child_def runs_def)
    then show "ready k' q c" using slot_ready [of k' k1 ch _ q c] mild_ready [OF a(3) l r] a(4) by (auto simp: freed_def)
  }
qed

lemma ready_visited:
  assumes "kstep k (Visit q) k'" "ready k q c"
  shows "pstate (procs (st k') q) = RUNNING \<and> dead_child k' q c"
  using assms(1)
proof cases
  case visit
  then show ?thesis using assms(2) by (auto simp: ready_def dead_child_def scheduler_visit_def)
qed

lemma dead_child_reaped:
  assumes "dead_child k q c"
  shows "wait addr (on q (st k)) \<noteq> Ret (Wait ch a, s)"
proof -
  have "find (\<lambda>i. is_child q (st k) i \<and> pstate (procs (st k) i) = ZOMBIE) [0..<NPROC] \<noteq> None"
    using assms by (auto simp: find_None_iff dead_child_def is_child_def)
  then obtain i where "wait addr (on q (st k)) = reap i addr (on q (st k))" by (auto simp: wait_def is_child_def)
  then show ?thesis by (auto simp: reap_def res_simps split: if_splits)
qed

text \<open>A parent that is ready waits for the visit of its slot and then runs.\<close>

interpretation parent: fair_progress kstep ktab_ok "\<lambda>(q, c) k. ready k q c"
  "\<lambda>(q, c) k. pstate (procs (st k) q) = RUNNING \<and> dead_child k q c" "\<lambda>(q, c). Visit q"
  by unfold_locales (auto intro: kstep_tab_ok ready_stable dest: ready_visited)

section \<open>Properties\<close>

text \<open>(C6) From boot on the process table stays in order, in every state that visits of the scheduler and operations of
  running processes lead to: the first process is never dead, free or leaving; processes in use have distinct
  identifiers below the next one; a process in use other than the first has a parent that is neither free nor dead, and a
  free slot has none; a process half way through \<open>exit\<close> has as parent the one it has read, or the first process;
  and no process but the first sleeps in \<open>wait\<close> while it has a dead child.\<close>

theorem proc_table_ok:
  assumes "booted k" "ksteps k k'"
  shows "ktab_ok k'"
  using ksteps_ok assms by blast

text \<open>A kernel after boot, and three steps of it.\<close>

definition boot_state :: ksys where
  "boot_state = \<lparr>st = (zero_sys one_page)\<lparr>procs := (\<lambda>_. zero_proc)(0 := zero_proc\<lparr>pstate := RUNNABLE, pid := 1\<rparr>), nextpid := 2\<rparr>, leaving = (\<lambda>_. None)\<rparr>"

definition boot_running :: ksys where
  "boot_running = boot_state\<lparr>st := scheduler_visit 0 (st boot_state)\<rparr>"

definition boot_killed :: ksys where
  "boot_killed = boot_running\<lparr>st := snd (kill 1 15 (on 0 (st boot_running)))\<rparr>"

lemma boot_state_booted: "booted boot_state"
  by (simp add: booted_def boot_state_def zero_sys_def zero_proc_def Let_def)

lemma boot_steps: "ksteps boot_state boot_killed"
proof -
  have "kstep boot_state (Visit 0) boot_running" unfolding boot_running_def by (rule kstep.visit) simp
  moreover have "runs 0 boot_running" by (simp add: runs_def busy_def boot_running_def boot_state_def scheduler_visit_def)
  then have "kstep boot_running (Kill 0 1 15) boot_killed" unfolding boot_killed_def
    by (rule kstep.kill [where r = "fst (kill 1 15 (on 0 (st boot_running)))"]) simp
  ultimately show ?thesis using ksteps.intros by blast
qed

theorem proc_table_ok_witness: "ktab_ok boot_killed \<and> pstate (procs (st boot_killed) 0) = RUNNING \<and> killed (procs (st boot_killed) 0) = 15"
  using proc_table_ok [OF boot_state_booted boot_steps]
  by (simp add: boot_killed_def boot_running_def boot_state_def scheduler_visit_def kill_def zero_sys_def zero_proc_def upt_rec [of 0])



text \<open>(C7) No wake-up of a parent is lost: in a run that starts with the process table in order and in which the
  scheduler visits the slot of \<open>q\<close> again and again, if a process \<open>q\<close> other than the first sleeps in \<open>wait\<close>, or
  in \<open>wait4pid\<close> on its child \<open>c\<close>, when \<open>c\<close> finishes \<open>exit\<close>, then later \<open>q\<close> runs with \<open>c\<close> still there as
  a dead child, and the next round of \<open>wait\<close> does not sleep again.\<close>

theorem exit_wakes_parent:
  assumes run: "\<forall>i. kstep (run i) (lab i) (run (Suc i))" and fair: "\<forall>i. \<exists>m \<ge> i. lab m = Visit q" and start: "ktab_ok (run 0)"
    and q: "q \<noteq> initproc (st (run n))" "pstate (procs (st (run n)) q) = SLEEPING"
      "pchan (procs (st (run n)) q) \<in> {Some (ProcChan q), Some (ProcChan c)}"
    and c: "pparent (procs (st (run n)) c) = Some q" "lab n = ExitEnd c status"
  shows "\<exists>m > n. pstate (procs (st (run m)) q) = RUNNING \<and> dead_child (run m) q c
    \<and> (\<forall>addr ch a s. wait addr (on q (st (run m))) \<noteq> Ret (Wait ch a, s))"
proof -
  have "kstep (run n) (ExitEnd c status) (run (Suc n))" using run c(2) by metis
  then have "ready (run (Suc n)) q c" by (rule exit_ready [OF _ parent.run_inv [OF run start] q c(1)])
  then obtain m where "Suc n < m" "pstate (procs (st (run m)) q) = RUNNING" "dead_child (run m) q c"
    using parent.progress [OF run start, of "(q, c)" "Suc n"] fair by auto
  then show ?thesis using dead_child_reaped by (intro exI [of _ m]) auto
qed

text \<open>The first process in slot 0, a process in slot 1 that waits, and its child in slot 2 half way through \<open>exit\<close>.\<close>

definition parting :: "nat \<Rightarrow> ksys" where
  "parting i =
     (let k = \<lparr>st = (zero_sys one_page)\<lparr>procs := (\<lambda>_. zero_proc)(
              0 := zero_proc\<lparr>pstate := RUNNABLE, pid := 1\<rparr>,
              Suc 0 := zero_proc\<lparr>pstate := SLEEPING, pid := 2, pparent := Some 0, pchan := Some (ProcChan 1)\<rparr>,
              2 := zero_proc\<lparr>pstate := RUNNING, pid := 3, pparent := Some 1\<rparr>), nextpid := 4\<rparr>, leaving = (\<lambda>_. None)(2 := Some 1)\<rparr>;
          k1 = k\<lparr>st := exit_end 7 1 (on 2 (st k)), leaving := (leaving k)(2 := None)\<rparr>
      in if i = 0 then k else if i = 1 then k1 else k1\<lparr>st := scheduler_visit 1 (st k1)\<rparr>)"

definition parting_label :: "nat \<Rightarrow> label" where
  "parting_label i = (if i = 0 then ExitEnd 2 7 else Visit 1)"

lemma parting_start: "ktab_ok (parting 0)"
proof -
  let ?s = "st (parting 0)"
  have "init_ok (procs ?s) 0 (leaving (parting 0))" "leaving_ok (procs ?s) 0 (leaving (parting 0))" "waiting_ok (procs ?s) 0"
    by (auto simp: parting_def init_ok_def leaving_ok_def waiting_ok_def sleeper_ok_def zero_proc_def)
  moreover have "pids_ok (procs ?s) 4" by (auto simp: parting_def pids_ok_def zero_proc_def)
  moreover have "tree_ok (procs ?s) 0" by (auto simp: parting_def tree_ok_def zero_proc_def)
  ultimately show ?thesis by (simp add: ktab_ok_def tab_ok_def parting_def zero_sys_def)
qed

lemma parting_run: "kstep (parting i) (parting_label i) (parting (Suc i))"
proof -
  have 0: "parting 1 = (parting 0)\<lparr>st := exit_end 7 1 (on 2 (st (parting 0))), leaving := (leaving (parting 0))(2 := None)\<rparr>"
    by (simp add: parting_def)
  have "busy 2 (parting 0)" "leaving (parting 0) 2 = Some 1" by (simp_all add: busy_def parting_def)
  then have "kstep (parting 0) (ExitEnd 2 7) (parting 1)" unfolding 0 by (rule kstep.exit_end)
  moreover have "parting (Suc (Suc j)) = (parting (Suc j))\<lparr>st := scheduler_visit 1 (st (parting (Suc j)))\<rparr>" for j
    by (simp add: parting_def Let_def scheduler_visit_def)
  then have "kstep (parting (Suc j)) (Visit 1) (parting (Suc (Suc j)))" for j using kstep.visit [of 1 "parting (Suc j)"] by simp
  ultimately show ?thesis by (cases i) (auto simp: parting_label_def)
qed

theorem exit_wakes_parent_witness:
  "\<exists>m > 0. pstate (procs (st (parting m)) 1) = RUNNING \<and> dead_child (parting m) 1 2
    \<and> (\<forall>addr ch a s. wait addr (on 1 (st (parting m))) \<noteq> Ret (Wait ch a, s))"
proof (rule exit_wakes_parent [of parting parting_label 1 0 2 7])
  show "\<forall>i. kstep (parting i) (parting_label i) (parting (Suc i))" using parting_run by blast
  show "\<forall>i. \<exists>m \<ge> i. parting_label m = Visit 1" by (intro allI, rule_tac x = "Suc i" in exI) (simp add: parting_label_def)
  show "ktab_ok (parting 0)" by (rule parting_start)
qed (simp_all add: parting_def parting_label_def zero_sys_def)

end
