(* ===== verification/Spec2Isabelle.thy ===== *)
theory Spec2Isabelle
  imports Ucopy Spinlock Pipe Console Fatfile Fatname Ringbuf Grep Printf Vma Kinv
begin

text \<open>
  \<^bold>\<open>Verification of AVX, a Unix-like kernel for LoongArch64.\<close>

  \<^bold>\<open>The program.\<close> AVX (\<^verbatim>\<open>src/kernel\<close>) manages physical pages, four-level page tables and the memory areas of processes;
  it has spin locks and sleep locks, a buffer cache over a RAM disk, a FAT32 file system, pipes, a console on a serial
  line, a table of open files, a table of processes with signals, and Unix system calls on top. The parts meet as
  follows: page tables, areas, pipes and trapframes live in pages of the allocator; the file system reads and
  writes sectors through the buffer cache; a file of the file table refers to a directory entry, a pipe or the console; a process
  refers to files by descriptors, to its page table and to the head of its list of areas; a system call takes its
  arguments from the trapframe of the running process and sleeps and wakes through the process table.
  \<^verbatim>\<open>src/user\<close> holds programs; of these \<^verbatim>\<open>grep\<close> and the formatted output are modelled.

  \<^bold>\<open>Conventions.\<close> C integers are words of their width, and Isabelle's \<open>int\<close> where only the value of an \<^verbatim>\<open>int\<close> matters.
  Memory is a function from 64-bit addresses to bytes, and page tables and free list are read from it as the code reads
  them. A function that may fail hard returns \<open>Ret\<close>, \<open>Panic\<close> (a call of \<^verbatim>\<open>panic\<close>, or an access that the
  language leaves undefined) or \<open>Stuck\<close> (it does not return: an endless loop, or a sleep that only
  another process could end). Error codes are return values, as in the code. An operation that may sleep runs up to that
  point and says on which channel. Code between the taking and the release of a lock is one step of a
  step relation. \<^verbatim>\<open>printf\<close> output of the kernel is not part of the state.

  \<^bold>\<open>Theories and sources.\<close>
  \<^item> \<^verbatim>\<open>Prelude\<close>: machine integers, results, byte memory, page arithmetic. \<^verbatim>\<open>Layout\<close>: \<^verbatim>\<open>include/param.h\<close>,
    \<^verbatim>\<open>include/loongarch.h\<close>, \<^verbatim>\<open>include/memlayout.h\<close>. \<^verbatim>\<open>KString\<close>: \<^verbatim>\<open>string.c\<close>. Shown: kernel stacks are
    separated by guard pages; \<^verbatim>\<open>memmove\<close> is safe for overlapping ranges, \<^verbatim>\<open>strncmp\<close> decides
    equality up to the terminator, \<^verbatim>\<open>strlen\<close> returns the length.
  \<^item> \<^verbatim>\<open>Kalloc\<close>: \<^verbatim>\<open>kalloc.c\<close>, with the free list in the pages themselves. The locale \<^verbatim>\<open>page_allocator\<close> is the contract of
    the allocator; in every run of allocations, writes and frees no page is lost or handed out twice.
  \<^item> \<^verbatim>\<open>Vm\<close>: \<^verbatim>\<open>vm.c\<close>. \<^verbatim>\<open>Pagetable\<close> and \<^verbatim>\<open>Vmspec\<close>: the tree of tables and its abstract content, a map from pages to
    entries, which the operations refine. \<^verbatim>\<open>Uvm\<close>: \<^verbatim>\<open>mappages\<close>, \<^verbatim>\<open>vmunmap\<close>, \<^verbatim>\<open>uvmalloc\<close> and \<^verbatim>\<open>uvmcopy\<close> do
    all or nothing. \<^verbatim>\<open>Ucopy\<close>: \<^verbatim>\<open>copyout\<close> and \<^verbatim>\<open>copyin\<close> are inverse; \<^verbatim>\<open>freewalk\<close> leaks the lower tables.
  \<^item> \<^verbatim>\<open>Spinlock\<close>: \<^verbatim>\<open>intr.c\<close>, \<^verbatim>\<open>spinlock.c\<close>. Mutual exclusion in every interleaving of the CPUs, and matched nesting of interrupt
    disabling.
  \<^item> \<^verbatim>\<open>Ring\<close>: the ring with free running counters and the locale \<^verbatim>\<open>byte_fifo\<close>. \<^verbatim>\<open>Pipe\<close>: \<^verbatim>\<open>pipe.c\<close>; \<^verbatim>\<open>Console\<close>:
    \<^verbatim>\<open>console.c\<close>, \<^verbatim>\<open>uart.c\<close>; \<^verbatim>\<open>Ringbuf\<close>: \<^verbatim>\<open>ring_buffer.c\<close>. Each interprets the locale: bytes come out once and in order. No
    wake-up of a reader or writer is lost; the console handler refines a line editor.
  \<^item> \<^verbatim>\<open>Bio\<close>: \<^verbatim>\<open>sleeplock.c\<close>, \<^verbatim>\<open>bio.c\<close>, \<^verbatim>\<open>ramdisk.c\<close>. The cache is coherent with the disk in every interleaving and recycles the
    least recently released buffer. The locale \<^verbatim>\<open>sector_store\<close> is what the file system relies on.
  \<^item> \<^verbatim>\<open>Fat32\<close>, \<^verbatim>\<open>Fatdir\<close>: \<^verbatim>\<open>fat32.c\<close>. \<^verbatim>\<open>Fatvol\<close>: the volume as bytes, table and chains. \<^verbatim>\<open>Fatfile\<close>: reading and
    writing of files, truncation and the cluster \<^verbatim>\<open>alloc_clus\<close> marks. \<^verbatim>\<open>Fatname\<close>: what \<^verbatim>\<open>emake\<close>
    writes \<^verbatim>\<open>enext\<close> reads back; path resolution follows the parts of the path.
  \<^item> \<^verbatim>\<open>Clist\<close>: circular lists. \<^verbatim>\<open>Vma\<close>: \<^verbatim>\<open>vma.c\<close>; the areas of a process stay ordered and disjoint.
  \<^item> \<^verbatim>\<open>Sysstate\<close>: the record \<open>sys\<close> of the whole kernel (\<^verbatim>\<open>include/file.h\<close>, \<^verbatim>\<open>include/proc.h\<close>). \<^verbatim>\<open>File\<close>:
    \<^verbatim>\<open>file.c\<close>. \<^verbatim>\<open>Sysfile\<close>: argument access of \<^verbatim>\<open>syscall.c\<close> and the calls of \<^verbatim>\<open>sysfile.c\<close>. \<^verbatim>\<open>Proc\<close>: \<^verbatim>\<open>proc.c\<close>. \<^verbatim>\<open>Signal\<close>:
    \<^verbatim>\<open>signal.c\<close>, \<^verbatim>\<open>syssig.c\<close>; returning from a handler restores the interrupted trapframe. \<^verbatim>\<open>Sysproc\<close>: \<^verbatim>\<open>sysproc.c\<close>, \<^verbatim>\<open>mmap.c\<close>.
  \<^item> \<^verbatim>\<open>Frames\<close>: what each operation leaves alone, and the page that \<^verbatim>\<open>allocproc\<close> frees wrongly when it fails. \<^verbatim>\<open>Descr\<close>:
    descriptors against reference counts. \<^verbatim>\<open>Ptable\<close>: the process table in order. \<^verbatim>\<open>Kstep\<close>: the step relation of the kernel over
    all the operations above. \<^verbatim>\<open>Fairness\<close>: progress under fair scheduling (locale \<^verbatim>\<open>fair_progress\<close>). \<^verbatim>\<open>Kinv\<close>: in every
    state reached from boot the process table is in order and descriptors are counted; a parent asleep in \<^verbatim>\<open>wait\<close> runs
    again after its child has ended.
  \<^item> \<^verbatim>\<open>Grep\<close>: \<^verbatim>\<open>user/grep.c\<close>; the matcher decides the meaning of the pattern and the program writes the matching lines.
    \<^verbatim>\<open>Printf\<close>: \<^verbatim>\<open>printf.c\<close>, \<^verbatim>\<open>user/printf.c\<close>, \<^verbatim>\<open>user/ulib.c\<close>; numbers are read back as printed and fit
    their buffer.

  \<^bold>\<open>Bounds.\<close> Loops whose end depends on data in memory carry a bound and are \<open>Stuck\<close> beyond it. Chains of clusters: the
  clusters of the volume and two, as many as a chain without repetition can have. Directory loops: 0x8000000 rounds, the 32-byte slots of
  a file of 4 GiB. \<^verbatim>\<open>eput\<close>: the size of the entry cache and two, since a parent is an entry of the cache. Lists of
  areas: 0x10000, more than the pages of RAM, each node being a page. Path walks: the length of the path and
  one. Loops over copied ranges recurse on the bytes left. The properties that a call returns are proved with these bounds.

  \<^bold>\<open>Not modelled.\<close> The loading of programs (\<^verbatim>\<open>exec.c\<close>); traps, start and the register switch, which are
  assembly or control registers; interrupt controllers and the virtio disk, since the kernel is built with the RAM disk; time and timers; futexes, which no
  call reaches; the calls that return fixed data (\<^verbatim>\<open>uname\<close>, \<^verbatim>\<open>getrusage\<close>, \<^verbatim>\<open>statfs\<close>), rename, sendfile and polling; the
  shell and the other user programs and tests, which are clients of the system calls.
\<close>

end
